(* ===== verification/Prelude.thy ===== *)
theory Prelude
  imports Main "HOL-Library.Word"
begin

text \<open>
  Shared vocabulary of the development: the machine types of the C++ code, the ways a piece
  of code can stop before it produces its value, reads from a \<^verbatim>\<open>std::vector<uint8_t>\<close>, the
  little-endian layout \<^verbatim>\<open>memcpy\<close> of a \<^verbatim>\<open>uint32_t\<close> produces, and the predicate that says that
  a byte string stands at a position of a buffer, with the rewrite rules the parsers are
  proved with.
\<close>

unbundle bit_operations_syntax

named_theorems buffer_simps "reads from a buffer in which a known byte string stands"
named_theorems size_simps "size_t arithmetic that does not wrap"

section \<open>Machine types\<close>

type_synonym byte = "8 word"
type_synonym u32 = "32 word"
type_synonym u64 = "64 word"

text \<open>
  \<^verbatim>\<open>size_t\<close> values are natural numbers with the wrap-around written out: 64-bit addition and
  subtraction. A buffer is a byte list; \<open>vec_ok\<close> is the bound \<^verbatim>\<open>max_size()\<close> puts on every
  \<^verbatim>\<open>std::vector<uint8_t>\<close>. An offset inside such a buffer plus a small constant cannot wrap
  and is written with the plain addition.
\<close>

definition sadd :: "nat \<Rightarrow> nat \<Rightarrow> nat" where
  "sadd a b = (a + b) mod 2 ^ 64"

definition ssub :: "nat \<Rightarrow> nat \<Rightarrow> nat" where
  "ssub a b = (a + (2 ^ 64 - b mod 2 ^ 64)) mod 2 ^ 64"

definition vec_ok :: "'a list \<Rightarrow> bool" where
  "vec_ok xs \<longleftrightarrow> length xs < 2 ^ 63"

lemma vec_okD: "vec_ok xs \<Longrightarrow> length xs < 9223372036854775808"
  by (simp add: vec_ok_def)

lemma sadd_small [size_simps]: "a + b < 18446744073709551616 \<Longrightarrow> sadd a b = a + b"
  by (simp add: sadd_def)

lemma sadd_less: "sadd a b < 18446744073709551616"
  by (simp add: sadd_def)

lemma ssub_small [size_simps]:
  "b \<le> a \<Longrightarrow> a < 18446744073709551616 \<Longrightarrow> ssub a b = a - b"
proof -
  assume le: "b \<le> a" and lt: "a < 18446744073709551616"
  have "a + (18446744073709551616 - b) = (a - b) + 18446744073709551616"
    using le lt by simp
  then have "(a + (18446744073709551616 - b)) mod 18446744073709551616 = a - b"
    using lt by (metis less_imp_diff_less mod_add_self2 mod_less)
  then show ?thesis
    using le lt by (simp add: ssub_def)
qed

section \<open>Stops\<close>

text \<open>
  A piece of code stops without its value in four ways: \<^verbatim>\<open>std::vector::at\<close> throws
  \<^verbatim>\<open>std::out_of_range\<close>; the constructor of a \<^verbatim>\<open>std::string\<close> throws \<^verbatim>\<open>std::length_error\<close>,
  which nothing in the library catches; a bare \<^verbatim>\<open>return;\<close> leaves a constructor before \<^verbatim>\<open>m_len\<close> is set; or the
  code reads memory outside the elements of its buffer (or shifts by at least the width of
  the type), which C++ leaves undefined. \<open>bnd\<close> runs a step and passes its value on.
\<close>

datatype stop = OutOfRange | LengthError | EarlyReturn | Undefined

type_synonym 'a attempt = "stop + 'a"

definition bnd :: "'e + 'a \<Rightarrow> ('a \<Rightarrow> 'e + 'b) \<Rightarrow> 'e + 'b" where
  "bnd m f = (case m of Inl e \<Rightarrow> Inl e | Inr x \<Rightarrow> f x)"

lemma bnd_simps [simp]: "bnd (Inl e) f = Inl e" "bnd (Inr x) f = f x"
  by (simp_all add: bnd_def)

lemma bnd_cong [fundef_cong]:
  "m = m' \<Longrightarrow> (\<And>x. m' = Inr x \<Longrightarrow> f x = g x) \<Longrightarrow> bnd m f = bnd m' g"
  by (auto simp: bnd_def split: sum.splits)

lemma bnd_eq_Inr: "bnd m f = Inr y \<longleftrightarrow> (\<exists>x. m = Inr x \<and> f x = Inr y)"
  by (auto simp: bnd_def split: sum.splits)

lemma bnd_eq_Inl: "bnd m f = Inl e \<longleftrightarrow> m = Inl e \<or> (\<exists>x. m = Inr x \<and> f x = Inl e)"
  by (auto simp: bnd_def split: sum.splits)

lemma bnd_assoc: "bnd (bnd m f) g = bnd m (\<lambda>x. bnd (f x) g)"
  by (simp add: bnd_def split: sum.splits)

text \<open>
  \<open>obnd\<close> is the same step inside a loop that may run forever, where \<open>None\<close> is "does not
  return".
\<close>

definition obnd :: "'e + 'a \<Rightarrow> ('a \<Rightarrow> ('e + 'b) option) \<Rightarrow> ('e + 'b) option" where
  "obnd m f = (case m of Inl e \<Rightarrow> Some (Inl e) | Inr x \<Rightarrow> f x)"

lemma obnd_simps [simp]: "obnd (Inl e) f = Some (Inl e)" "obnd (Inr x) f = f x"
  by (simp_all add: obnd_def)

lemma obnd_eq_Some:
  "obnd m f = Some r \<longleftrightarrow> (\<exists>e. m = Inl e \<and> r = Inl e) \<or> (\<exists>x. m = Inr x \<and> f x = Some r)"
  by (auto simp: obnd_def split: sum.splits)

lemma obnd_mono [partial_function_mono]:
  "(\<And>x. mono_option (\<lambda>f. g x f)) \<Longrightarrow> mono_option (\<lambda>f. obnd m (\<lambda>x. g x f))"
  by (cases m) (auto intro: partial_function_mono)

definition ensure :: "bool \<Rightarrow> unit attempt" where
  "ensure b = (if b then Inr () else Inl EarlyReturn)"

lemma ensure_simps [simp]: "ensure True = Inr ()" "ensure False = Inl EarlyReturn"
  by (simp_all add: ensure_def)

lemma ensure_holds [simp]: "b \<Longrightarrow> ensure b = Inr ()"
  by simp

lemma ensure_fails [simp]: "\<not> b \<Longrightarrow> ensure b = Inl EarlyReturn"
  by simp

lemma ensure_eq_Inr [simp]: "ensure b = Inr u \<longleftrightarrow> b"
  by (simp add: ensure_def)

lemma ensure_eq_Inl [simp]: "ensure b = Inl e \<longleftrightarrow> \<not> b \<and> e = EarlyReturn"
  by (auto simp: ensure_def)

section \<open>Little-endian words\<close>

definition u32_bytes :: "u32 \<Rightarrow> byte list" where
  "u32_bytes v = [ucast v, ucast (drop_bit 8 v), ucast (drop_bit 16 v), ucast (drop_bit 24 v)]"

definition bytes_u32 :: "byte list \<Rightarrow> u32" where
  "bytes_u32 bs =
     ucast (bs ! 0) OR push_bit 8 (ucast (bs ! 1)) OR push_bit 16 (ucast (bs ! 2)) OR
     push_bit 24 (ucast (bs ! 3))"

lemma length_u32_bytes [simp]: "length (u32_bytes v) = 4"
  by (simp add: u32_bytes_def)

lemma bytes_u32_u32_bytes [simp]: "bytes_u32 (u32_bytes v) = v"
proof (rule bit_word_eqI)
  fix n
  assume "n < LENGTH(32)"
  then show "bit (bytes_u32 (u32_bytes v)) n \<longleftrightarrow> bit v n"
    by (cases "n < 8"; cases "n < 16"; cases "n < 24")
      (auto simp: bytes_u32_def u32_bytes_def bit_simps)
qed

section \<open>Reading a vector\<close>

text \<open>
  \<open>vec_at\<close> is \<^verbatim>\<open>data.at(i)\<close>; \<open>vec_idx\<close> is \<^verbatim>\<open>data[i]\<close>, also through a \<^verbatim>\<open>std::span\<close> of the
  vector; \<open>mem_u32\<close> is a \<^verbatim>\<open>memcpy\<close> of four bytes from \<^verbatim>\<open>&data[i]\<close>; \<open>at_u32\<close> the same
  from \<^verbatim>\<open>&data.at(i)\<close>, whose address computation is checked while the copy is not;
  \<open>mem_range\<close> is a \<^verbatim>\<open>std::string_view\<close> of \<open>n\<close> bytes over the buffer; \<open>copy_string\<close> a
  \<^verbatim>\<open>std::string\<close> made of it, which throws when \<open>n\<close> exceeds what a string may hold - a length
  that was negative before it became a \<^verbatim>\<open>size_t\<close>.
\<close>

definition vec_at :: "'a list \<Rightarrow> nat \<Rightarrow> 'a attempt" where
  "vec_at xs i = (if i < length xs then Inr (xs ! i) else Inl OutOfRange)"

definition vec_idx :: "'a list \<Rightarrow> nat \<Rightarrow> 'a attempt" where
  "vec_idx xs i = (if i < length xs then Inr (xs ! i) else Inl Undefined)"

definition mem_range :: "byte list \<Rightarrow> nat \<Rightarrow> nat \<Rightarrow> byte list attempt" where
  "mem_range xs i n = (if i + n \<le> length xs then Inr (take n (drop i xs)) else Inl Undefined)"

definition copy_string :: "byte list \<Rightarrow> nat \<Rightarrow> nat \<Rightarrow> byte list attempt" where
  "copy_string xs i n = (if 2 ^ 63 \<le> n then Inl LengthError else mem_range xs i n)"

definition mem_u32 :: "byte list \<Rightarrow> nat \<Rightarrow> u32 attempt" where
  "mem_u32 xs i = bnd (mem_range xs i 4) (\<lambda>bs. Inr (bytes_u32 bs))"

definition at_u32 :: "byte list \<Rightarrow> nat \<Rightarrow> u32 attempt" where
  "at_u32 xs i = bnd (vec_at xs i) (\<lambda>_. mem_u32 xs i)"

lemma vec_at_eq_Inr: "vec_at xs i = Inr x \<longleftrightarrow> i < length xs \<and> xs ! i = x"
  by (auto simp: vec_at_def)

lemma vec_at_eq_Inl: "vec_at xs i = Inl e \<longleftrightarrow> length xs \<le> i \<and> e = OutOfRange"
  by (auto simp: vec_at_def)

lemma vec_idx_eq_Inr: "vec_idx xs i = Inr x \<longleftrightarrow> i < length xs \<and> xs ! i = x"
  by (auto simp: vec_idx_def)

lemma vec_idx_eq_Inl: "vec_idx xs i = Inl e \<longleftrightarrow> length xs \<le> i \<and> e = Undefined"
  by (auto simp: vec_idx_def)

lemma vec_at_less [simp]: "i < length xs \<Longrightarrow> vec_at xs i = Inr (xs ! i)"
  by (simp add: vec_at_def)

lemma vec_idx_less [simp]: "i < length xs \<Longrightarrow> vec_idx xs i = Inr (xs ! i)"
  by (simp add: vec_idx_def)

lemma vec_at_ge [simp]: "length xs \<le> i \<Longrightarrow> vec_at xs i = Inl OutOfRange"
  by (simp add: vec_at_def)

lemma vec_idx_ge [simp]: "length xs \<le> i \<Longrightarrow> vec_idx xs i = Inl Undefined"
  by (simp add: vec_idx_def)

lemma mem_range_eq_Inr:
  "mem_range xs i n = Inr bs \<longleftrightarrow> i + n \<le> length xs \<and> take n (drop i xs) = bs"
  by (auto simp: mem_range_def)

lemma mem_range_eq_Inl: "mem_range xs i n = Inl e \<longleftrightarrow> length xs < i + n \<and> e = Undefined"
  by (auto simp: mem_range_def)

lemma copy_string_eq_Inr:
  "copy_string xs i n = Inr bs \<longleftrightarrow> n < 2 ^ 63 \<and> i + n \<le> length xs \<and> take n (drop i xs) = bs"
  by (auto simp: copy_string_def mem_range_def)

lemma copy_string_eq_Inl:
  "copy_string xs i n = Inl e \<longleftrightarrow> 2 ^ 63 \<le> n \<and> e = LengthError \<or> n < 2 ^ 63 \<and> length xs < i + n \<and> e = Undefined"
  by (auto simp: copy_string_def mem_range_def)

lemma copy_string_small: "n < 2 ^ 63 \<Longrightarrow> copy_string xs i n = mem_range xs i n"
  by (simp add: copy_string_def)

lemma mem_u32_eq_Inr:
  "mem_u32 xs i = Inr v \<longleftrightarrow> i + 4 \<le> length xs \<and> v = bytes_u32 (take 4 (drop i xs))"
  by (auto simp: mem_u32_def bnd_eq_Inr mem_range_eq_Inr)

lemma mem_u32_eq_Inl: "mem_u32 xs i = Inl e \<longleftrightarrow> length xs < i + 4 \<and> e = Undefined"
  by (auto simp: mem_u32_def bnd_eq_Inl mem_range_eq_Inl)

lemma at_u32_eq_Inr:
  "at_u32 xs i = Inr v \<longleftrightarrow> i + 4 \<le> length xs \<and> v = bytes_u32 (take 4 (drop i xs))"
  by (auto simp: at_u32_def bnd_eq_Inr mem_u32_eq_Inr vec_at_eq_Inr)

lemma at_u32_eq_Inl:
  "at_u32 xs i = Inl e \<longleftrightarrow>
     (length xs \<le> i \<and> e = OutOfRange) \<or> (i < length xs \<and> length xs < i + 4 \<and> e = Undefined)"
  by (auto simp: at_u32_def bnd_eq_Inl mem_u32_eq_Inl vec_at_eq_Inl vec_at_eq_Inr)

lemmas attempt_iffs =
  bnd_eq_Inr bnd_eq_Inl vec_at_eq_Inr vec_at_eq_Inl vec_idx_eq_Inr vec_idx_eq_Inl
  mem_range_eq_Inr mem_range_eq_Inl copy_string_eq_Inr copy_string_eq_Inl mem_u32_eq_Inr mem_u32_eq_Inl at_u32_eq_Inr at_u32_eq_Inl

section \<open>Byte strings standing in a buffer\<close>

definition stands :: "'a list \<Rightarrow> nat \<Rightarrow> 'a list \<Rightarrow> bool" where
  "stands data i xs \<longleftrightarrow> i + length xs \<le> length data \<and> take (length xs) (drop i data) = xs"

lemma stands_length: "stands data i xs \<Longrightarrow> i + length xs \<le> length data"
  by (simp add: stands_def)

lemma stands_nth: "stands data i xs \<Longrightarrow> k < length xs \<Longrightarrow> data ! (i + k) = xs ! k"
  unfolding stands_def by (metis add_leD1 nth_drop nth_take)

lemma stands_Nil [simp]: "stands data i [] \<longleftrightarrow> i \<le> length data"
  by (simp add: stands_def)

lemma stands_append [simp]:
  "stands data i (xs @ ys) \<longleftrightarrow> stands data i xs \<and> stands data (i + length xs) ys"
  by (auto simp: stands_def take_add add.commute add.left_commute append_eq_append_conv)

lemma stands_Cons:
  "stands data i (x # xs) \<longleftrightarrow> i < length data \<and> data ! i = x \<and> stands data (Suc i) xs"
proof -
  have "stands data i ([x] @ xs) \<longleftrightarrow> stands data i [x] \<and> stands data (i + 1) xs"
    by (simp only: stands_append) simp
  moreover have "stands data i [x] \<longleftrightarrow> i < length data \<and> data ! i = x"
    by (auto simp: stands_def take_Suc_conv_app_nth)
  ultimately show ?thesis by simp
qed

lemma stands_mid: "stands (pre @ xs @ post) (length pre) xs"
  by (simp add: stands_def)

lemma stands_prefix: "stands (xs @ post) 0 xs"
  by (simp add: stands_def)

lemma stands_self [simp]: "stands xs 0 xs"
  by (simp add: stands_def)

lemma vec_at_stands [buffer_simps]:
  "stands data i xs \<Longrightarrow> k < length xs \<Longrightarrow> vec_at data (i + k) = Inr (xs ! k)"
  using stands_length[of data i xs] stands_nth[of data i xs k] by simp

lemma vec_at_stands_0 [buffer_simps]:
  "stands data i xs \<Longrightarrow> xs \<noteq> [] \<Longrightarrow> vec_at data i = Inr (hd xs)"
  using vec_at_stands[of data i xs 0] by (simp add: hd_conv_nth)

lemma vec_idx_stands [buffer_simps]:
  "stands data i xs \<Longrightarrow> k < length xs \<Longrightarrow> vec_idx data (i + k) = Inr (xs ! k)"
  using stands_length[of data i xs] stands_nth[of data i xs k] by simp

lemma mem_range_stands [buffer_simps]:
  "stands data i xs \<Longrightarrow> k + n \<le> length xs \<Longrightarrow> mem_range data (i + k) n = Inr (take n (drop k xs))"
proof -
  assume st: "stands data i xs" and k: "k + n \<le> length xs"
  from st have "xs = take (length xs) (drop i data)" by (simp add: stands_def)
  then have "take n (drop k xs) = take n (drop k (take (length xs) (drop i data)))" by simp
  also have "\<dots> = take n (drop (i + k) data)"
    using k by (simp add: drop_take add.commute min_def)
  finally show ?thesis using stands_length[OF st] k by (simp add: mem_range_def)
qed

lemma mem_u32_stands [buffer_simps]:
  "stands data i xs \<Longrightarrow> k + 4 \<le> length xs \<Longrightarrow>
     mem_u32 data (i + k) = Inr (bytes_u32 (take 4 (drop k xs)))"
  by (simp add: mem_u32_def mem_range_stands)

lemma at_u32_stands [buffer_simps]:
  "stands data i xs \<Longrightarrow> k + 4 \<le> length xs \<Longrightarrow>
     at_u32 data (i + k) = Inr (bytes_u32 (take 4 (drop k xs)))"
  by (simp add: at_u32_def mem_u32_stands vec_at_stands)

section \<open>Character strings and bytes\<close>

text \<open>A \<^verbatim>\<open>std::string\<close> is its sequence of \<^verbatim>\<open>char\<close>; on the wire each is one byte.\<close>

definition bytes_of :: "string \<Rightarrow> byte list" where
  "bytes_of s = map (\<lambda>c. of_nat (of_char c)) s"

definition string_of :: "byte list \<Rightarrow> string" where
  "string_of bs = map (\<lambda>b. char_of (unat b)) bs"

lemma length_bytes_of [simp]: "length (bytes_of s) = length s"
  by (simp add: bytes_of_def)

lemma length_string_of [simp]: "length (string_of bs) = length bs"
  by (simp add: string_of_def)

lemma unat_of_nat_of_char: "unat (of_nat (of_char c) :: byte) = of_char c"
proof -
  have "(of_char c :: nat) < 256" by simp
  then show ?thesis by (simp add: unat_of_nat)
qed

lemma string_of_bytes_of [simp]: "string_of (bytes_of s) = s"
  by (simp add: string_of_def bytes_of_def o_def unat_of_nat_of_char map_idI)

lemma bytes_of_string_of [simp]: "bytes_of (string_of bs) = bs"
proof -
  have "(of_nat (of_char (char_of (unat b) :: char)) :: byte) = b" for b :: byte
  proof -
    have "unat b < 256" using unsigned_less[of b] by simp
    then show ?thesis by (simp add: of_char_of)
  qed
  then show ?thesis by (simp add: string_of_def bytes_of_def o_def map_idI)
qed

lemma bytes_of_append [simp]: "bytes_of (s @ t) = bytes_of s @ bytes_of t"
  by (simp add: bytes_of_def)

end
