(* ===== verification/Var_Int.thy ===== *)
theory Var_Int
  imports Prelude
begin

text \<open>
  The variable-length quantities of the wire (\<^verbatim>\<open>CMessageParser::encodeVarInt\<close> and the two
  \<^verbatim>\<open>parseVarInt\<close>), with the arithmetic of the C++: the encoder shifts a 64-bit
  \<^verbatim>\<open>size_t\<close> and truncates to bytes; the parser promotes each group to a 32-bit \<^verbatim>\<open>int\<close>,
  shifts it there, and adds it, sign-extended, to a \<^verbatim>\<open>size_t\<close>.
\<close>

section \<open>Definitions\<close>

function strip_back :: "byte list \<Rightarrow> byte list" where
  "strip_back data =
     (if last data = 0x80 \<and> length data > 1 then strip_back (butlast data) else data)"
  by pat_completeness auto
termination by (relation "measure length") auto

declare strip_back.simps [simp del]

definition encodeVarInt :: "nat \<Rightarrow> byte list" where
  "encodeVarInt num =
     (let n = (of_nat num :: u64);
          data = [ucast (drop_bit 25 (push_bit 25 n)) OR 0x80,
                  ucast (drop_bit 25 (push_bit 18 n)) OR 0x80,
                  ucast (drop_bit 25 (push_bit 11 n)) OR 0x80,
                  ucast (drop_bit 25 (push_bit 4 n)) OR 0x80];
          data = strip_back data
      in butlast data @ [last data AND NOT 0x80])"

text \<open>
  The body of the \<^verbatim>\<open>do\<close> loop reads \<^verbatim>\<open>data[i]\<close> before the bound is tested. The \<^verbatim>\<open>int\<close> shift
  is defined for counts below 32, so the sixth group is undefined behaviour; the fifth is
  defined, and negative when its bit 3 is set.
\<close>

definition low7 :: "byte \<Rightarrow> byte" where
  "low7 b = drop_bit 1 (push_bit 1 b)"

definition group_value :: "nat \<Rightarrow> byte \<Rightarrow> u64" where
  "group_value i b = scast (push_bit (i * 7) (ucast (low7 b) :: u32))"

function varint_loop :: "byte list \<Rightarrow> nat \<Rightarrow> nat \<Rightarrow> nat \<Rightarrow> u64 \<Rightarrow> (nat \<times> nat) attempt" where
  "varint_loop data start len i rolling =
     (case vec_idx data (start + i) of
        Inl e \<Rightarrow> Inl e
      | Inr b \<Rightarrow>
          if 32 \<le> i * 7 then Inl Undefined
          else
            let rolling' = rolling + group_value i b
            in if Suc i < len \<and> bit b 7 then varint_loop data start len (Suc i) rolling'
               else Inr (unat rolling', Suc i))"
  by pat_completeness auto
termination
  by (relation "measure (\<lambda>(data, start, len, i, r). 5 - i)") auto

declare varint_loop.simps [simp del]

text \<open>
  The span overload takes the position its first element has in the underlying buffer and
  the length it was built with, which may reach past the end of the buffer.
\<close>

definition parseVarInt_span :: "byte list \<Rightarrow> nat \<Rightarrow> nat \<Rightarrow> (nat \<times> nat) attempt" where
  "parseVarInt_span data start len = varint_loop data start len 0 0"

definition parseVarInt :: "byte list \<Rightarrow> nat \<Rightarrow> (nat \<times> nat) attempt" where
  "parseVarInt data off =
     (if length data \<le> off then Inr (0, 0)
      else parseVarInt_span data off (length data - off))"

section \<open>The encoder computes base-128 digits\<close>

definition digit :: "nat \<Rightarrow> nat \<Rightarrow> nat" where
  "digit n k = n div 128 ^ k mod 128"

lemma digit_less [simp]: "digit n k < 128"
  by (simp add: digit_def)

lemma digit_eq_bits: "digit n k = take_bit 7 (drop_bit (7 * k) n)"
  by (simp add: digit_def take_bit_eq_mod drop_bit_eq_div power_mult)

lemma bit_128: "bit (128 :: int) j \<longleftrightarrow> j = 7"
proof -
  have "(128 :: int) = push_bit 7 1" by simp
  then show ?thesis by (simp only: bit_simps) auto
qed

definition cont :: "nat \<Rightarrow> byte" where
  "cont d = of_nat (d + 128)"

lemma unat_cont: "d < 128 \<Longrightarrow> unat (cont d) = d + 128"
  by (simp add: cont_def unat_of_nat del: of_nat_add)

lemma digit_bit_less: "d < 128 \<Longrightarrow> bit d j \<Longrightarrow> j < 7" for d :: nat
proof -
  assume "d < 128" and "bit d j"
  then have "bit (take_bit 7 d) j" by (simp add: take_bit_nat_eq_self)
  then show "j < 7" by (simp add: bit_take_bit_iff)
qed

lemma or_128: "d < 128 \<Longrightarrow> of_nat d OR (128 :: byte) = cont d"
proof -
  assume d: "d < 128"
  have "(of_nat d :: byte) + 128 = of_nat d OR 128"
    by (rule disjunctive_add_eq_or, rule bit_word_eqI)
      (auto simp: bit_simps bit_128 dest: digit_bit_less[OF d])
  then show ?thesis by (simp add: cont_def)
qed

lemma segment_digit:
  assumes "k \<le> 3"
  shows "ucast (drop_bit 25 (push_bit (25 - 7 * k) (of_nat n :: u64))) OR 128 = cont (digit n k)"
proof -
  have "ucast (drop_bit 25 (push_bit (25 - 7 * k) (of_nat n :: u64))) OR 128 =
          of_nat (digit n k) OR (128 :: byte)"
    using assms by (intro bit_word_eqI) (auto simp: bit_simps bit_128 digit_eq_bits ac_simps)
  then show ?thesis by (simp add: or_128)
qed

text \<open>
  The reference encoder: base-128 digits, least significant first, the high bit set on all
  but the last.
\<close>

function vlq :: "nat \<Rightarrow> byte list" where
  "vlq n = (if n < 128 then [of_nat n] else cont (n mod 128) # vlq (n div 128))"
  by pat_completeness auto
termination by (relation "measure id") auto

declare vlq.simps [simp del]

lemma vlq_digit: "d < 128 \<Longrightarrow> vlq (d + 128 * m) = (if m = 0 then [of_nat d] else cont d # vlq m)"
  by (subst vlq.simps) (auto simp: div_mult_self2)

lemma length_vlq_pos [simp]: "0 < length (vlq n)"
  by (subst vlq.simps) simp

lemma vlq_nonempty [simp]: "vlq n \<noteq> []"
  using length_vlq_pos by (metis length_greater_0_conv)

lemma length_vlq_digits: "n < 128 ^ Suc k \<Longrightarrow> length (vlq n) \<le> Suc k"
proof (induction k arbitrary: n)
  case 0
  then show ?case by (subst vlq.simps) simp
next
  case (Suc k)
  show ?case
  proof (cases "n < 128")
    case True
    then show ?thesis by (subst vlq.simps) simp
  next
    case False
    have "n div 128 < 128 ^ Suc k"
      using Suc.prems by (simp add: less_mult_imp_div_less mult.commute)
    then have "length (vlq (n div 128)) \<le> Suc k" by (rule Suc.IH)
    with False show ?thesis by (subst vlq.simps) simp
  qed
qed

lemma length_vlq: "n < 2 ^ 28 \<Longrightarrow> length (vlq n) \<le> 4"
  using length_vlq_digits[of n 3] by simp

lemma cont_eq_128: "d < 128 \<Longrightarrow> cont d = 128 \<longleftrightarrow> d = 0"
proof -
  assume d: "d < 128"
  have "cont d = 128 \<longleftrightarrow> unat (cont d) = unat (128 :: byte)" by (simp only: word_unat_eq_iff)
  then show ?thesis using d by (simp add: unat_cont)
qed

lemma cont_clear: "d < 128 \<Longrightarrow> cont d AND NOT 128 = of_nat d"
proof -
  assume d: "d < 128"
  have "(of_nat d OR 128) AND NOT 128 = (of_nat d :: byte)"
    by (rule bit_word_eqI) (auto simp: bit_simps bit_128 dest: digit_bit_less[OF d])
  with d show ?thesis by (simp add: or_128)
qed

lemma cont_clear_numeral: "d < 128 \<Longrightarrow> cont d AND - 129 = of_nat d"
  using cont_clear[of d] by simp

lemma strip_back_conts:
  assumes "a < 128" "b < 128" "c < 128" "d < 128"
  shows "strip_back [cont a, cont b, cont c, cont d] =
     (if d \<noteq> 0 then [cont a, cont b, cont c, cont d]
      else if c \<noteq> 0 then [cont a, cont b, cont c]
      else if b \<noteq> 0 then [cont a, cont b] else [cont a])"
  using assms
  by (simp add: cont_eq_128 strip_back.simps[of "[cont a, cont b, cont c, cont d]"]
      strip_back.simps[of "[cont a, cont b, cont c]"] strip_back.simps[of "[cont a, cont b]"]
      strip_back.simps[of "[cont a]"])

lemma vlq_conts:
  assumes "a < 128" "b < 128" "c < 128" "d < 128"
  shows "vlq (a + 128 * (b + 128 * (c + 128 * d))) =
     (if d \<noteq> 0 then [cont a, cont b, cont c, of_nat d]
      else if c \<noteq> 0 then [cont a, cont b, of_nat c]
      else if b \<noteq> 0 then [cont a, of_nat b] else [of_nat a])"
proof -
  define m where "m = c + 128 * d"
  define k where "k = b + 128 * m"
  have "m = 0 \<longleftrightarrow> c = 0 \<and> d = 0" and "k = 0 \<longleftrightarrow> b = 0 \<and> m = 0"
    by (simp_all add: m_def k_def)
  moreover have "vlq d = [of_nat d]" using assms(4) by (subst vlq.simps) simp
  moreover have "vlq m = (if d = 0 then [of_nat c] else cont c # vlq d)"
    unfolding m_def using assms(3) by (rule vlq_digit)
  moreover have "vlq k = (if m = 0 then [of_nat b] else cont b # vlq m)"
    unfolding k_def using assms(2) by (rule vlq_digit)
  moreover have "vlq (a + 128 * k) = (if k = 0 then [of_nat a] else cont a # vlq k)"
    using assms(1) by (rule vlq_digit)
  ultimately have "vlq (a + 128 * k) =
     (if d \<noteq> 0 then [cont a, cont b, cont c, of_nat d]
      else if c \<noteq> 0 then [cont a, cont b, of_nat c]
      else if b \<noteq> 0 then [cont a, of_nat b] else [of_nat a])"
    by (cases "d = 0"; cases "c = 0"; cases "b = 0") simp_all
  then show ?thesis by (simp only: m_def k_def)
qed

lemma mod_digits:
  "n mod 2 ^ 28 = digit n 0 + 128 * (digit n 1 + 128 * (digit n 2 + 128 * digit n 3))"
proof -
  have "n mod (128 * (128 * (128 * 128))) =
      128 * (128 * (128 * (n div 128 div 128 div 128 mod 128) + n div 128 div 128 mod 128) +
        n div 128 mod 128) + n mod 128"
    by (simp only: mod_mult2_eq)
  then show ?thesis
    by (simp add: digit_def div_mult2_eq[symmetric])
qed

lemma encodeVarInt_strip:
  "encodeVarInt n =
     (let data = strip_back [cont (digit n 0), cont (digit n 1), cont (digit n 2), cont (digit n 3)]
      in butlast data @ [last data AND NOT 128])"
  using segment_digit[of 0 n] segment_digit[of 1 n] segment_digit[of 2 n] segment_digit[of 3 n]
  by (simp add: encodeVarInt_def Let_def)

lemma encodeVarInt_vlq: "encodeVarInt n = vlq (n mod 2 ^ 28)"
  unfolding encodeVarInt_strip mod_digits
  by (simp only: strip_back_conts vlq_conts digit_less Let_def) (simp add: cont_clear_numeral)

lemma length_encodeVarInt: "length (encodeVarInt n) \<le> 4" "0 < length (encodeVarInt n)"
  by (simp_all add: encodeVarInt_vlq length_vlq del: length_greater_0_conv)

section \<open>The parser\<close>

lemma low7_mod: "low7 b = of_nat (unat b mod 128)"
  unfolding low7_def
proof (rule bit_word_eqI)
  fix j assume "j < LENGTH(8)"
  have "unat b mod 128 = take_bit 7 (unat b)" by (simp add: take_bit_eq_mod)
  then show "bit (drop_bit 1 (push_bit 1 b)) j \<longleftrightarrow> bit (of_nat (unat b mod 128) :: byte) j"
    by (auto simp: bit_simps simp del: One_nat_def)
qed

lemma scast_of_nat_u32: "k < 2 ^ 31 \<Longrightarrow> scast (of_nat k :: u32) = (of_nat k :: u64)"
proof -
  assume k: "k < 2 ^ 31"
  have "sint (of_nat k :: u32) = signed_take_bit 31 (int k)" by (simp add: signed_of_nat)
  also have "\<dots> = int k" using k by (intro signed_take_bit_int_eq_self) simp_all
  finally show ?thesis by (simp add: scast_eq)
qed

lemma varint_term:
  assumes "i \<le> 3"
  shows "group_value i b = of_nat (unat b mod 128 * 128 ^ i)"
proof -
  define d where "d = unat b mod 128"
  have d: "d < 128" by (simp add: d_def)
  have "(ucast (of_nat d :: byte) :: u32) = of_nat d"
    using d by (simp add: unsigned_of_nat take_bit_nat_eq_self)
  then have "push_bit (i * 7) (ucast (low7 b) :: u32) = of_nat (d * 2 ^ (i * 7))"
    by (simp add: low7_mod d_def push_bit_eq_mult)
  moreover have "d * 2 ^ (i * 7) < 2 ^ 31"
  proof -
    have "(2 :: nat) ^ (i * 7) \<le> 2 ^ (3 * 7)" using assms by (intro power_increasing) auto
    then have "d * 2 ^ (i * 7) \<le> 127 * 2 ^ 21" using d by (intro mult_le_mono) auto
    then show ?thesis by simp
  qed
  ultimately show ?thesis
    by (simp add: group_value_def scast_of_nat_u32 d_def power_mult mult.commute[of i] del: of_nat_mult)
qed

text \<open>
  One iteration on the first four groups, in the form the proofs use: the rolling sum as a
  natural number.
\<close>

lemma varint_step:
  assumes "i \<le> 3"
  shows "varint_loop data start len i r =
    (case vec_idx data (start + i) of
       Inl e \<Rightarrow> Inl e
     | Inr b \<Rightarrow>
         let r' = r + of_nat (unat b mod 128 * 128 ^ i)
         in if Suc i < len \<and> bit b 7 then varint_loop data start len (Suc i) r'
            else Inr (unat r', Suc i))"
  using assms varint_term[OF assms]
  by (subst varint_loop.simps) (simp add: Let_def split: sum.split)

lemma bit_cont: "d < 128 \<Longrightarrow> bit (cont d) 7"
  by (simp flip: or_128 add: bit_simps bit_128)

lemma bit_small: "d < 128 \<Longrightarrow> \<not> bit (of_nat d :: byte) 7"
  by (auto simp: bit_simps dest: digit_bit_less)

lemma digit_recombine: "m mod 128 * 128 ^ i + m div 128 * 128 ^ Suc i = m * 128 ^ i" for m i :: nat
proof -
  have "d * y + q * (128 * y) = (q * 128 + d) * y" for d q y :: nat
    by (simp add: algebra_simps)
  from this[of "m mod 128" "128 ^ i" "m div 128"] show ?thesis
    by (simp only: power_Suc div_mult_mod_eq)
qed

lemma varint_loop_vlq:
  assumes "stands data (start + i) (vlq m)" and "i + length (vlq m) \<le> 4" and "i + length (vlq m) \<le> len"
  shows "varint_loop data start len i r = Inr (unat (r + of_nat (m * 128 ^ i)), i + length (vlq m))"
  using assms
proof (induction m arbitrary: i r rule: vlq.induct)
  case (1 m)
  have i: "i \<le> 3" using "1.prems"(2) length_vlq_pos[of m] by linarith
  show ?case
  proof (cases "m < 128")
    case True
    then have "vlq m = [of_nat m]" by (subst vlq.simps) simp
    with True "1.prems"(1) i show ?thesis
      by (simp add: varint_step stands_Cons bit_small unsigned_of_nat take_bit_nat_eq_self)
  next
    case False
    let ?d = "m mod 128" and ?m = "m div 128"
    have vm: "vlq m = cont ?d # vlq ?m" using False by (subst vlq.simps) simp
    have st: "stands data (start + i) [cont ?d]" "stands data (start + Suc i) (vlq ?m)"
      using "1.prems"(1) vm by (simp_all add: stands_Cons)
    have "Suc i < len" using "1.prems"(3) vm by (cases "vlq ?m") simp_all
    with i st(1) have "varint_loop data start len i r =
        varint_loop data start len (Suc i) (r + of_nat (?d * 128 ^ i))"
      by (simp add: varint_step stands_Cons bit_cont unat_cont Let_def)
    also have "\<dots> = Inr (unat (r + of_nat (?d * 128 ^ i) + of_nat (?m * 128 ^ Suc i)),
        Suc i + length (vlq ?m))"
      using False "1.prems"(2,3) vm st(2) by (intro "1.IH") simp_all
    also have "r + of_nat (?d * 128 ^ i) + of_nat (?m * 128 ^ Suc i) = r + of_nat (m * 128 ^ i)"
      by (simp only: add.assoc of_nat_add[symmetric] digit_recombine)
    finally show ?thesis using vm by simp
  qed
qed

lemma parse_span_encode:
  assumes "stands data start (encodeVarInt n)" and "n < 2 ^ 28" and "length (encodeVarInt n) \<le> len"
  shows "parseVarInt_span data start len = Inr (n, length (encodeVarInt n))"
proof -
  have e: "encodeVarInt n = vlq n" using assms(2) by (simp add: encodeVarInt_vlq)
  have "varint_loop data start len 0 0 = Inr (unat (0 + of_nat (n * 128 ^ 0) :: u64), 0 + length (vlq n))"
    using assms e length_vlq[OF assms(2)] by (intro varint_loop_vlq) simp_all
  moreover have "unat (of_nat n :: u64) = n" using assms(2) by (simp add: unat_of_nat)
  ultimately show ?thesis by (simp add: parseVarInt_span_def e)
qed

lemma parse_encode:
  assumes "stands data off (encodeVarInt n)" and "n < 2 ^ 28"
  shows "parseVarInt data off = Inr (n, length (encodeVarInt n))"
proof -
  have "off + length (encodeVarInt n) \<le> length data" using assms(1) by (rule stands_length)
  then show ?thesis
    using length_encodeVarInt(2)[of n] assms
    by (simp add: parseVarInt_def parse_span_encode linorder_not_le del: length_greater_0_conv)
qed

section \<open>Bounds on what the parser returns\<close>

text \<open>
  At most five groups are read, all inside the buffer; a value of at most four groups is
  below \<open>2 ^ 28\<close>. Only the fifth group can make the value negative as an \<^verbatim>\<open>int\<close>.
\<close>

lemma varint_loop_extent:
  "varint_loop data start len i r = Inr (v, l) \<Longrightarrow>
     i < l \<and> l \<le> 5 \<and> l \<le> max (Suc i) len \<and> start + l \<le> length data"
proof (induction data start len i r rule: varint_loop.induct)
  case (1 data start len i r)
  have bound: "start + i < length data" "i * 7 < 32"
    using "1.prems" by (auto simp: varint_loop.simps[of data start len i r] vec_idx_eq_Inr split: sum.splits if_splits)
  show ?case
  proof (cases "Suc i < len \<and> bit (data ! (start + i)) 7")
    case True
    with bound "1.prems"
    have "varint_loop data start len (Suc i) (r + group_value i (data ! (start + i))) = Inr (v, l)"
      by (simp add: varint_loop.simps[of data start len i r] Let_def)
    from "1.IH"[OF _ _ refl _ this] bound True show ?thesis by simp
  next
    case False
    with bound "1.prems" have "l = Suc i"
      by (auto simp: varint_loop.simps[of data start len i r] Let_def)
    with bound show ?thesis by simp
  qed
qed

lemma unat_add_of_nat_le: "unat (r + of_nat k :: u64) \<le> unat r + k"
proof -
  have "unat (r + of_nat k) \<le> unat r + unat (of_nat k :: u64)"
    by (simp add: unat_word_ariths)
  also have "unat (of_nat k :: u64) \<le> k" by (simp add: unat_of_nat)
  finally show ?thesis by simp
qed

lemma varint_loop_value:
  "varint_loop data start len i r = Inr (v, l) \<Longrightarrow> l \<le> 4 \<Longrightarrow> unat r < 128 ^ i \<Longrightarrow> v < 128 ^ l"
proof (induction data start len i r rule: varint_loop.induct)
  case (1 data start len i r)
  have l: "i < l" using varint_loop_extent[OF "1.prems"(1)] by simp
  then have i: "i \<le> 3" using "1.prems"(2) by simp
  have bound: "start + i < length data"
    using "1.prems" by (auto simp: varint_loop.simps[of data start len i r] vec_idx_eq_Inr split: sum.splits)
  let ?b = "data ! (start + i)" and ?r = "r + of_nat (unat (data ! (start + i)) mod 128 * 128 ^ i)"
  have "unat ?r < 128 ^ Suc i"
  proof -
    have "unat ?r \<le> unat r + unat ?b mod 128 * 128 ^ i" by (rule unat_add_of_nat_le)
    also have "\<dots> \<le> unat r + 127 * 128 ^ i" by (intro add_left_mono mult_le_mono1) simp
    also have "\<dots> < 128 ^ Suc i" using "1.prems"(3) by simp
    finally show ?thesis .
  qed
  then have r': "unat (r + group_value i ?b) < 128 ^ Suc i" by (simp only: varint_term[OF i])
  show ?case
  proof (cases "Suc i < len \<and> bit ?b 7")
    case True
    with bound i "1.prems"(1) have "varint_loop data start len (Suc i) (r + group_value i ?b) = Inr (v, l)"
      by (simp add: varint_loop.simps[of data start len i r] Let_def)
    from "1.IH"[OF _ _ refl _ this "1.prems"(2) r'] bound i True show ?thesis by simp
  next
    case False
    with bound i "1.prems"(1) have "v = unat (r + group_value i ?b)" "l = Suc i"
      by (auto simp: varint_loop.simps[of data start len i r] Let_def)
    with r' show ?thesis by simp
  qed
qed

lemma parse_span_extent:
  "parseVarInt_span data start len = Inr (v, l) \<Longrightarrow>
     0 < l \<and> l \<le> 5 \<and> l \<le> max 1 len \<and> start + l \<le> length data"
  unfolding parseVarInt_span_def by (drule varint_loop_extent) simp

lemma parse_span_value: "parseVarInt_span data start len = Inr (v, l) \<Longrightarrow> l \<le> 4 \<Longrightarrow> v < 2 ^ 28"
proof -
  assume "parseVarInt_span data start len = Inr (v, l)" and l: "l \<le> 4"
  then have "v < 128 ^ l" using varint_loop_value by (simp add: parseVarInt_span_def)
  also have "(128 :: nat) ^ l \<le> 128 ^ 4" using l by (intro power_increasing) auto
  finally show "v < 2 ^ 28" by simp
qed

lemma unat_u64_less: "unat (w :: u64) < 18446744073709551616"
  using unsigned_less[of w] by simp

lemma varint_loop_less:
  "varint_loop data start len i r = Inr (v, l) \<Longrightarrow> v < 18446744073709551616"
proof (induction data start len i r rule: varint_loop.induct)
  case (1 data start len i r)
  have bound: "start + i < length data" "i * 7 < 32"
    using "1.prems" by (auto simp: varint_loop.simps[of data start len i r] vec_idx_eq_Inr split: sum.splits if_splits)
  show ?case
  proof (cases "Suc i < len \<and> bit (data ! (start + i)) 7")
    case True
    with bound "1.prems"
    have "varint_loop data start len (Suc i) (r + group_value i (data ! (start + i))) = Inr (v, l)"
      by (simp add: varint_loop.simps[of data start len i r] Let_def)
    from "1.IH"[OF _ _ refl _ this] bound True show ?thesis by simp
  next
    case False
    with bound "1.prems" have "v = unat (r + group_value i (data ! (start + i)))"
      by (auto simp: varint_loop.simps[of data start len i r] Let_def)
    then show ?thesis by (simp only: unat_u64_less)
  qed
qed

lemma parse_span_less: "parseVarInt_span data start len = Inr (v, l) \<Longrightarrow> v < 18446744073709551616"
  unfolding parseVarInt_span_def by (rule varint_loop_less)

lemma parse_extent:
  "parseVarInt data off = Inr (v, l) \<Longrightarrow>
     (length data \<le> off \<and> v = 0 \<and> l = 0) \<or> (off < length data \<and> 0 < l \<and> l \<le> 5 \<and> off + l \<le> length data)"
  by (auto simp: parseVarInt_def dest!: parse_span_extent split: if_splits)

text \<open>All groups but the last that was read have their continuation bit set.\<close>

lemma varint_loop_continued:
  "varint_loop data start len i r = Inr (v, l) \<Longrightarrow> i \<le> k \<Longrightarrow> Suc k < l \<Longrightarrow> bit (data ! (start + k)) 7"
proof (induction data start len i r rule: varint_loop.induct)
  case (1 data start len i r)
  have bound: "start + i < length data" "i * 7 < 32"
    using "1.prems" by (auto simp: varint_loop.simps[of data start len i r] vec_idx_eq_Inr split: sum.splits if_splits)
  show ?case
  proof (cases "Suc i < len \<and> bit (data ! (start + i)) 7")
    case True
    with bound "1.prems"
    have "varint_loop data start len (Suc i) (r + group_value i (data ! (start + i))) = Inr (v, l)"
      by (simp add: varint_loop.simps[of data start len i r] Let_def)
    note IH = "1.IH"[OF _ _ refl _ this _ "1.prems"(3)]
    show ?thesis
    proof (cases "k = i")
      case False
      with "1.prems"(2) have "Suc i \<le> k" by simp
      with IH bound True show ?thesis by simp
    qed (use True in simp)
  next
    case False
    with bound "1.prems" show ?thesis
      by (auto simp: varint_loop.simps[of data start len i r] Let_def)
  qed
qed

text \<open>A buffer in which no four consecutive bytes have the high bit set holds no long quantity.\<close>

definition short_runs :: "byte list \<Rightarrow> bool" where
  "short_runs data \<longleftrightarrow>
     list_all (\<lambda>k. \<not> list_all (\<lambda>b. bit b 7) (take 4 (drop k data))) [0..<length data - 3]"

lemma short_runs_run:
  assumes "short_runs data" and "k + 3 < length data"
  shows "\<exists>j<4. \<not> bit (data ! (k + j)) 7"
proof -
  from assms have "\<not> list_all (\<lambda>b. bit b 7) (take 4 (drop k data))"
    by (simp add: short_runs_def list_all_iff)
  then obtain j where "j < 4" "\<not> bit (take 4 (drop k data) ! j) 7"
    by (auto simp: list_all_length)
  with assms(2) show ?thesis by (intro exI[of _ j]) simp
qed

lemma short_runs_span:
  assumes "short_runs data" and "parseVarInt_span data start len = Inr (v, l)"
  shows "l \<le> 4" and "v < 2 ^ 28"
proof -
  have ext: "l \<le> 5" "start + l \<le> length data" using parse_span_extent[OF assms(2)] by simp_all
  show "l \<le> 4"
  proof (rule ccontr)
    assume "\<not> l \<le> 4"
    with ext have l: "l = 5" by simp
    with assms(2) have "bit (data ! (start + j)) 7" if "j < 4" for j
      using that varint_loop_continued[of data start len 0 0 v l j] by (simp add: parseVarInt_span_def)
    with short_runs_run[OF assms(1), of start] ext l show False by auto
  qed
  with assms(2) show "v < 2 ^ 28" by (rule parse_span_value)
qed

lemma short_runs_parse:
  assumes "short_runs data" and "parseVarInt data off = Inr (v, l)"
  shows "l \<le> 4" and "v < 2 ^ 28"
  using assms short_runs_span[OF assms(1)] by (auto simp: parseVarInt_def split: if_splits)

text \<open>Reading a quantity never throws: it ends at an element that is not there.\<close>

lemma varint_loop_stop: "varint_loop data start len i r = Inl e \<Longrightarrow> e = Undefined"
proof (induction data start len i r rule: varint_loop.induct)
  case (1 data start len i r)
  then show ?case
    by (subst (asm) varint_loop.simps)
      (auto simp: Let_def vec_idx_eq_Inl vec_idx_eq_Inr varint_loop.simps[of data start len i r]
        split: sum.splits if_splits)
qed

lemma parse_span_stop: "parseVarInt_span data p len = Inl e \<Longrightarrow> e = Undefined"
  unfolding parseVarInt_span_def by (rule varint_loop_stop)

lemma parseVarInt_no_throw [simp]:
  "parseVarInt_span data p len \<noteq> Inl LengthError" "parseVarInt data off \<noteq> Inl LengthError"
  by (auto simp: parseVarInt_def dest: parse_span_stop)

text \<open>
  Five groups: the fifth is shifted into the sign of the \<^verbatim>\<open>int\<close>, and the length the caller
  adds to its cursor is \<open>- 6\<close>.
\<close>

lemma parse_five:
  assumes "stands data off [b, 0xFF, 0xFF, 0xFF, 0x7F]" and "bit b 7"
  shows "parseVarInt data off = Inr (unat (group_value 0 b + group_value (Suc 0) 0xFF +
    group_value (Suc (Suc 0)) 0xFF + group_value (Suc (Suc (Suc 0))) 0xFF + group_value (Suc (Suc (Suc (Suc 0)))) 0x7F), 5)"
proof -
  from assms(1) have nth: "off < length data" "data ! off = b" "data ! Suc off = 0xFF"
    "data ! Suc (Suc off) = 0xFF" "data ! Suc (Suc (Suc off)) = 0xFF"
    "data ! Suc (Suc (Suc (Suc off))) = 0x7F"
    by (simp_all add: stands_Cons)
  have len: "off + 5 \<le> length data" using stands_length[OF assms(1)] by simp
  have "varint_loop data off (length data - off) 0 0 = Inr (unat (group_value 0 b + group_value (Suc 0) 0xFF +
      group_value (Suc (Suc 0)) 0xFF + group_value (Suc (Suc (Suc 0))) 0xFF +
      group_value (Suc (Suc (Suc (Suc 0)))) 0x7F), 5)"
    using nth len assms(2)
    by (simp add: varint_loop.simps[of _ _ _ 0] varint_loop.simps[of _ _ _ "Suc 0"]
        varint_loop.simps[of _ _ _ "Suc (Suc 0)"] varint_loop.simps[of _ _ _ "Suc (Suc (Suc 0))"]
        varint_loop.simps[of _ _ _ "Suc (Suc (Suc (Suc 0)))"] Let_def)
  with len show ?thesis by (simp add: parseVarInt_def parseVarInt_span_def)
qed

lemma parse_negative:
  "stands data off [0xFA, 0xFF, 0xFF, 0xFF, 0x7F] \<Longrightarrow> parseVarInt data off = Inr (18446744073709551610, 5)"
  "stands data off [0xF9, 0xFF, 0xFF, 0xFF, 0x7F] \<Longrightarrow> parseVarInt data off = Inr (18446744073709551609, 5)"
  using parse_five[of data off "0xFA"] parse_five[of data off "0xF9"]
  by (simp_all add: group_value_def low7_mod scast_eq)

end
