(* ===== verification/Wire_Types.thy ===== *)
theory Wire_Types
  imports Prelude
begin

text \<open>
  The two tag enumerations of the wire format (\<^verbatim>\<open>MessageMagic.hpp\<close>, \<^verbatim>\<open>MessageType.hpp\<close>),
  their codes, and the names the log and the error messages print. A cast of a byte to
  an enumeration is \<open>magic_of\<close> or \<open>type_of_byte\<close>: \<open>None\<close> is a byte that is no
  enumerator, which reaches the \<^verbatim>\<open>default\<close> of a switch.
\<close>

section \<open>Magics\<close>

datatype message_magic =
    MAGIC_END
  | TYPE_UINT | TYPE_INT | TYPE_F32 | TYPE_SEQ | TYPE_OBJECT_ID
  | TYPE_VARCHAR | TYPE_ARRAY | TYPE_OBJECT
  | TYPE_FD

fun magic_code :: "message_magic \<Rightarrow> byte" where
  "magic_code MAGIC_END = 0x00"
| "magic_code TYPE_UINT = 0x10"
| "magic_code TYPE_INT = 0x11"
| "magic_code TYPE_F32 = 0x12"
| "magic_code TYPE_SEQ = 0x13"
| "magic_code TYPE_OBJECT_ID = 0x14"
| "magic_code TYPE_VARCHAR = 0x20"
| "magic_code TYPE_ARRAY = 0x21"
| "magic_code TYPE_OBJECT = 0x22"
| "magic_code TYPE_FD = 0x40"

definition magics :: "message_magic list" where
  "magics = [MAGIC_END, TYPE_UINT, TYPE_INT, TYPE_F32, TYPE_SEQ, TYPE_OBJECT_ID,
             TYPE_VARCHAR, TYPE_ARRAY, TYPE_OBJECT, TYPE_FD]"

definition magic_of :: "byte \<Rightarrow> message_magic option" where
  "magic_of b = find (\<lambda>m. magic_code m = b) magics"

lemma magic_of_code [simp]: "magic_of (magic_code m) = Some m"
  by (cases m) (simp_all add: magic_of_def magics_def)

lemma magic_of_eq_Some [simp]: "magic_of b = Some m \<longleftrightarrow> b = magic_code m"
  using magic_of_code[of m] by (auto simp: magic_of_def find_Some_iff)

lemma magic_of_consts [simp]:
  "magic_of 0 = Some MAGIC_END" "magic_of 0x10 = Some TYPE_UINT" "magic_of 0x11 = Some TYPE_INT"
  "magic_of 0x12 = Some TYPE_F32" "magic_of 0x13 = Some TYPE_SEQ" "magic_of 0x14 = Some TYPE_OBJECT_ID"
  "magic_of 0x20 = Some TYPE_VARCHAR" "magic_of 0x21 = Some TYPE_ARRAY"
  "magic_of 0x22 = Some TYPE_OBJECT" "magic_of 0x40 = Some TYPE_FD"
  by simp_all

lemma magic_code_inject [simp]: "magic_code m = magic_code m' \<longleftrightarrow> m = m'"
  using magic_of_code by (metis option.inject)

lemma magic_code_zero [simp]: "magic_code m = 0 \<longleftrightarrow> m = MAGIC_END"
  using magic_code_inject[of m MAGIC_END] by simp

text \<open>\<^verbatim>\<open>magicToString\<close>, with the fall-through \<^verbatim>\<open>return "ERROR"\<close> for other bytes.\<close>

fun magicToString :: "byte \<Rightarrow> string" where
  "magicToString b =
     (case magic_of b of
        Some MAGIC_END \<Rightarrow> ''END''
      | Some TYPE_UINT \<Rightarrow> ''UINT''
      | Some TYPE_INT \<Rightarrow> ''INT''
      | Some TYPE_F32 \<Rightarrow> ''F32''
      | Some TYPE_SEQ \<Rightarrow> ''SEQUENCE''
      | Some TYPE_OBJECT_ID \<Rightarrow> ''OBJECT_ID''
      | Some TYPE_VARCHAR \<Rightarrow> ''VARCHAR''
      | Some TYPE_ARRAY \<Rightarrow> ''ARRAY''
      | Some TYPE_OBJECT \<Rightarrow> ''OBJECT''
      | Some TYPE_FD \<Rightarrow> ''FD''
      | None \<Rightarrow> ''ERROR'')"

text \<open>
  The magics whose payload is exactly four bytes: the group of case labels that
  \<^verbatim>\<open>CGenericProtocolMessage\<close> and \<^verbatim>\<open>IWireObject::called\<close> share.
\<close>

fun prim32 :: "message_magic \<Rightarrow> bool" where
  "prim32 m \<longleftrightarrow> m = TYPE_UINT \<or> m = TYPE_F32 \<or> m = TYPE_INT \<or> m = TYPE_OBJECT \<or> m = TYPE_SEQ"

section \<open>Message types\<close>

datatype message_type =
    MSG_INVALID
  | MSG_SUP | MSG_HANDSHAKE_BEGIN | MSG_HANDSHAKE_ACK | MSG_HANDSHAKE_PROTOCOLS
  | MSG_BIND_PROTOCOL | MSG_NEW_OBJECT | MSG_FATAL_PROTOCOL_ERROR
  | MSG_ROUNDTRIP_REQUEST | MSG_ROUNDTRIP_DONE
  | MSG_GENERIC_PROTOCOL_MESSAGE

fun type_code :: "message_type \<Rightarrow> byte" where
  "type_code MSG_INVALID = 0"
| "type_code MSG_SUP = 1"
| "type_code MSG_HANDSHAKE_BEGIN = 2"
| "type_code MSG_HANDSHAKE_ACK = 3"
| "type_code MSG_HANDSHAKE_PROTOCOLS = 4"
| "type_code MSG_BIND_PROTOCOL = 10"
| "type_code MSG_NEW_OBJECT = 11"
| "type_code MSG_FATAL_PROTOCOL_ERROR = 12"
| "type_code MSG_ROUNDTRIP_REQUEST = 13"
| "type_code MSG_ROUNDTRIP_DONE = 14"
| "type_code MSG_GENERIC_PROTOCOL_MESSAGE = 100"

definition message_types :: "message_type list" where
  "message_types =
     [MSG_INVALID, MSG_SUP, MSG_HANDSHAKE_BEGIN, MSG_HANDSHAKE_ACK, MSG_HANDSHAKE_PROTOCOLS,
      MSG_BIND_PROTOCOL, MSG_NEW_OBJECT, MSG_FATAL_PROTOCOL_ERROR, MSG_ROUNDTRIP_REQUEST,
      MSG_ROUNDTRIP_DONE, MSG_GENERIC_PROTOCOL_MESSAGE]"

definition type_of_byte :: "byte \<Rightarrow> message_type option" where
  "type_of_byte b = find (\<lambda>t. type_code t = b) message_types"

lemma type_of_byte_code [simp]: "type_of_byte (type_code t) = Some t"
  by (cases t) (simp_all add: type_of_byte_def message_types_def)

lemma type_of_byte_eq_Some [simp]: "type_of_byte b = Some t \<longleftrightarrow> b = type_code t"
  using type_of_byte_code[of t] by (auto simp: type_of_byte_def find_Some_iff)

lemma type_of_byte_consts [simp]:
  "type_of_byte 0 = Some MSG_INVALID" "type_of_byte 1 = Some MSG_SUP"
  "type_of_byte 2 = Some MSG_HANDSHAKE_BEGIN" "type_of_byte 3 = Some MSG_HANDSHAKE_ACK"
  "type_of_byte 4 = Some MSG_HANDSHAKE_PROTOCOLS" "type_of_byte 10 = Some MSG_BIND_PROTOCOL"
  "type_of_byte 11 = Some MSG_NEW_OBJECT" "type_of_byte 12 = Some MSG_FATAL_PROTOCOL_ERROR"
  "type_of_byte 13 = Some MSG_ROUNDTRIP_REQUEST" "type_of_byte 14 = Some MSG_ROUNDTRIP_DONE"
  "type_of_byte 100 = Some MSG_GENERIC_PROTOCOL_MESSAGE"
  by simp_all

lemma type_code_inject [simp]: "type_code t = type_code t' \<longleftrightarrow> t = t'"
  using type_of_byte_code by (metis option.inject)

fun messageTypeToStr :: "message_type \<Rightarrow> string" where
  "messageTypeToStr MSG_INVALID = ''INVALID''"
| "messageTypeToStr MSG_SUP = ''SUP''"
| "messageTypeToStr MSG_HANDSHAKE_BEGIN = ''HANDSHAKE_BEGIN''"
| "messageTypeToStr MSG_HANDSHAKE_ACK = ''HANDSHAKE_ACK''"
| "messageTypeToStr MSG_HANDSHAKE_PROTOCOLS = ''HANDSHAKE_PROTOCOLS''"
| "messageTypeToStr MSG_BIND_PROTOCOL = ''BIND_PROTOCOL''"
| "messageTypeToStr MSG_NEW_OBJECT = ''NEW_OBJECT''"
| "messageTypeToStr MSG_FATAL_PROTOCOL_ERROR = ''HW_MESSAGE_TYPE_FATAL_PROTOCOL_ERROR''"
| "messageTypeToStr MSG_GENERIC_PROTOCOL_MESSAGE = ''GENERIC_PROTOCOL_MESSAGE''"
| "messageTypeToStr MSG_ROUNDTRIP_REQUEST = ''HW_MESSAGE_TYPE_ROUNDTRIP_REQUEST''"
| "messageTypeToStr MSG_ROUNDTRIP_DONE = ''HW_MESSAGE_TYPE_ROUNDTRIP_DONE''"

end
