(* ===== verification/Codec.thy ===== *)
theory Codec
  imports Var_Int Wire_Types
begin

text \<open>
  The contract between the two ends of the wire: what \<^verbatim>\<open>CXxxMessage(args...)\<close> lays out,
  \<^verbatim>\<open>CXxxMessage(data, offset)\<close> reads back, wherever in a buffer the bytes stand. The
  message theories interpret these locales on the code's constructors; the dispatch loop
  relies on the bounded contract for its progress.
\<close>

text \<open>
  Each parsing constructor wraps its body in \<^verbatim>\<open>try { ... } catch (std::out_of_range&)\<close>
  and leaves \<^verbatim>\<open>m_len == 0\<close> on every early return: \<open>caught\<close> is that outcome, \<open>None\<close>
  for a length of zero. Neither \<^verbatim>\<open>std::length_error\<close> nor undefined behaviour is caught.
\<close>

definition caught :: "'a attempt \<Rightarrow> 'a option attempt" where
  "caught r =
     (case r of
        Inl Undefined \<Rightarrow> Inl Undefined
      | Inl LengthError \<Rightarrow> Inl LengthError
      | Inl _ \<Rightarrow> Inr None
      | Inr x \<Rightarrow> Inr (Some x))"

lemma caught_simps [simp]:
  "caught (Inl OutOfRange) = Inr None" "caught (Inl EarlyReturn) = Inr None"
  "caught (Inl Undefined) = Inl Undefined" "caught (Inl LengthError) = Inl LengthError" "caught (Inr x) = Inr (Some x)"
  by (simp_all add: caught_def)

lemma caught_eq_Some [simp]: "caught r = Inr (Some x) \<longleftrightarrow> r = Inr x"
  by (auto simp: caught_def split: sum.splits stop.splits)

lemma caught_eq_Inl [simp]: "caught r = Inl e \<longleftrightarrow> r = Inl e \<and> (e = Undefined \<or> e = LengthError)"
  by (auto simp: caught_def split: sum.splits stop.splits)

locale wire_codec =
  fixes enc :: "'m \<Rightarrow> byte list"
    and parse :: "byte list \<Rightarrow> nat \<Rightarrow> ('m \<times> nat) attempt"
    and ok :: "'m \<Rightarrow> bool"
  assumes parse_enc:
    "ok m \<Longrightarrow> stands data off (enc m) \<Longrightarrow> vec_ok data \<Longrightarrow> parse data off = Inr (m, length (enc m))"
begin

lemma caught_parse_enc:
  "ok m \<Longrightarrow> stands data off (enc m) \<Longrightarrow> vec_ok data \<Longrightarrow>
     caught (parse data off) = Inr (Some (m, length (enc m)))"
  by (simp add: parse_enc)

text \<open>No message of the type is a proper prefix of another: the stream needs no framing.\<close>

lemma prefix_free:
  assumes "ok m" "ok m'" "enc m @ xs = enc m' @ ys" "vec_ok (enc m @ xs)"
  shows "m = m' \<and> xs = ys"
proof -
  have "parse (enc m @ xs) 0 = Inr (m, length (enc m))"
    using assms(1,4) by (intro parse_enc) (simp_all add: stands_prefix)
  moreover have "parse (enc m' @ ys) 0 = Inr (m', length (enc m'))"
    using assms(2-4) by (intro parse_enc) (simp_all add: stands_prefix)
  ultimately have "m = m'" using assms(3) by simp
  with assms(3) show ?thesis by simp
qed

lemma enc_inject: "ok m \<Longrightarrow> ok m' \<Longrightarrow> enc m = enc m' \<Longrightarrow> vec_ok (enc m) \<Longrightarrow> m = m'"
  using prefix_free[of m m' "[]" "[]"] by simp

end

locale bounded_codec = wire_codec +
  assumes parse_bounds:
    "parse data off = Inr (m, n) \<Longrightarrow> 0 < n \<and> off + n \<le> length data \<and> data ! (off + n - 1) = 0"
begin

lemma caught_bounds:
  "caught (parse data off) = Inr (Some (m, n)) \<Longrightarrow> 0 < n \<and> off + n \<le> length data"
  using parse_bounds by simp

lemma no_parse_past_end: "length data \<le> off \<Longrightarrow> parse data off \<noteq> Inr r"
  using parse_bounds by (cases r) fastforce

end

end
