(* ===== verification/Generic_Message.thy ===== *)
theory Generic_Message
  imports Codec
begin

text \<open>
  \<^verbatim>\<open>CGenericProtocolMessage\<close>: the parsing constructor, which finds the end of a message whose
  arguments it does not know by skipping over tagged values, and takes the file
  descriptors they stand for off the queue of the read. Its cursor \<^verbatim>\<open>i\<close> is a \<^verbatim>\<open>size_t\<close>
  to which lengths from the wire are added unchecked, so the loop is a partial function on
  wrapping arithmetic: \<open>None\<close> is "does not return".
\<close>

section \<open>The parsing constructor\<close>

record generic_msg =
  gm_object :: u32
  gm_method :: u32
  gm_data :: "byte list"
  gm_fds :: "int list"

text \<open>\<^verbatim>\<open>constexpr\<close>-like bound of the constructor: arrays of this many elements are refused.\<close>

definition array_limit :: nat where
  "array_limit = 10000"

fun skip_strings :: "byte list \<Rightarrow> nat \<Rightarrow> nat \<Rightarrow> nat \<Rightarrow> nat \<Rightarrow> nat attempt" where
  "skip_strings data offset i arrMessageLen 0 = Inr arrMessageLen"
| "skip_strings data offset i arrMessageLen (Suc n) =
     bnd (parseVarInt_span data (sadd (sadd offset i) arrMessageLen)
            (ssub (ssub (length data) i) arrMessageLen)) (\<lambda>(strLen, strlenLen).
     skip_strings data offset i (sadd arrMessageLen (sadd strLen strlenLen)) n)"

fun take_fds :: "nat \<Rightarrow> int list \<Rightarrow> int list \<Rightarrow> (int list \<times> int list) attempt" where
  "take_fds 0 fds m_fds = Inr (fds, m_fds)"
| "take_fds (Suc n) fds m_fds =
     (case fds of
        [] \<Rightarrow> Inl EarlyReturn
      | fd # fds' \<Rightarrow> take_fds n fds' (m_fds @ [fd]))"

definition scan_array ::
  "byte list \<Rightarrow> nat \<Rightarrow> nat \<Rightarrow> int list \<Rightarrow> int list \<Rightarrow> (nat \<times> int list \<times> int list) attempt" where
  "scan_array data offset i fds m_fds =
     bnd (vec_at data (sadd (sadd offset i) 1)) (\<lambda>arrType.
     bnd (parseVarInt_span data (sadd (sadd offset i) 2) (ssub (length data) i)) (\<lambda>(arrLen, lenLen).
     let arrMessageLen = 2 + lenLen in
     bnd (ensure (\<not> array_limit \<le> arrLen)) (\<lambda>_.
     case magic_of arrType of
       None \<Rightarrow> Inl EarlyReturn
     | Some t \<Rightarrow>
         if prim32 t then Inr (sadd i (arrMessageLen + 4 * arrLen), fds, m_fds)
         else if t = TYPE_VARCHAR then
           bnd (skip_strings data offset i arrMessageLen arrLen) (\<lambda>arrMessageLen.
           Inr (sadd i arrMessageLen, fds, m_fds))
         else if t = TYPE_FD then
           bnd (take_fds arrLen fds m_fds) (\<lambda>(fds, m_fds).
           Inr (sadd i arrMessageLen, fds, m_fds))
         else Inl EarlyReturn)))"

definition scan_arg ::
  "byte list \<Rightarrow> nat \<Rightarrow> nat \<Rightarrow> byte \<Rightarrow> int list \<Rightarrow> int list \<Rightarrow> (nat \<times> int list \<times> int list) attempt" where
  "scan_arg data offset i b fds m_fds =
     (case magic_of b of
        None \<Rightarrow> Inl EarlyReturn
      | Some m \<Rightarrow>
          if prim32 m then Inr (sadd i 5, fds, m_fds)
          else if m = TYPE_VARCHAR then
            bnd (parseVarInt data (sadd (sadd offset i) 1)) (\<lambda>(a, b).
            Inr (sadd i (sadd (sadd a b) 1), fds, m_fds))
          else if m = TYPE_ARRAY then scan_array data offset i fds m_fds
          else if m = TYPE_FD then
            (case fds of
               [] \<Rightarrow> Inl EarlyReturn
             | fd # fds' \<Rightarrow> Inr (sadd i 1, fds', m_fds @ [fd]))
          else Inl EarlyReturn)"

partial_function (option) generic_scan ::
  "byte list \<Rightarrow> nat \<Rightarrow> nat \<Rightarrow> int list \<Rightarrow> int list \<Rightarrow> (stop + nat \<times> int list \<times> int list) option" where
  "generic_scan data offset i fds m_fds =
     obnd (vec_at data (sadd offset i)) (\<lambda>b.
       if b = magic_code MAGIC_END then Some (Inr (i, fds, m_fds))
       else obnd (scan_arg data offset i b fds m_fds) (\<lambda>(i', fds', m_fds').
              generic_scan data offset i' fds' m_fds'))"

definition generic_head :: "byte list \<Rightarrow> nat \<Rightarrow> (u32 \<times> u32) attempt" where
  "generic_head data offset =
     bnd (vec_at data (offset + 0)) (\<lambda>b0.
     bnd (ensure (b0 = type_code MSG_GENERIC_PROTOCOL_MESSAGE)) (\<lambda>_.
     bnd (vec_at data (offset + 1)) (\<lambda>b1.
     bnd (ensure (b1 = magic_code TYPE_OBJECT)) (\<lambda>_.
     bnd (at_u32 data (offset + 2)) (\<lambda>object.
     bnd (vec_at data (offset + 6)) (\<lambda>b6.
     bnd (ensure (b6 = magic_code TYPE_UINT)) (\<lambda>_.
     bnd (at_u32 data (offset + 7)) (\<lambda>method.
     Inr (object, method)))))))))"

text \<open>
  The result is the message, \<^verbatim>\<open>m_len\<close> and the descriptors left in the queue.
\<close>

definition parse_Generic ::
  "byte list \<Rightarrow> int list \<Rightarrow> nat \<Rightarrow> (stop + generic_msg \<times> nat \<times> int list) option" where
  "parse_Generic data fds offset =
     obnd (generic_head data offset) (\<lambda>(object, method).
     case generic_scan data offset 11 fds [] of
       None \<Rightarrow> None
     | Some r \<Rightarrow> Some (
         bnd r (\<lambda>(i, fds, m_fds).
         let m_len = sadd i 1 in
         bnd (mem_range data (11 + offset) (ssub m_len 11)) (\<lambda>dataSpan.
         Inr (\<lparr>gm_object = object, gm_method = method, gm_data = dataSpan, gm_fds = m_fds\<rparr>,
              m_len, fds)))))"

text \<open>\<^verbatim>\<open>resolveSeq\<close> on an outgoing message: patches the object id into the encoded bytes.\<close>

definition resolveSeq :: "u32 \<Rightarrow> byte list \<Rightarrow> byte list" where
  "resolveSeq oid m_data =
     (if 6 \<le> length m_data then take 2 m_data @ u32_bytes oid @ drop 6 m_data else m_data)"

section \<open>Argument sequences\<close>

text \<open>
  The values a generic message carries, and how each is laid out: the format that
  \<^verbatim>\<open>MessageMagic.hpp\<close> documents, in the form the sender writes. \<open>wire_ok\<close> is what the
  receiver accepts.
\<close>

datatype wire_arg =
    WPrim message_magic u32
  | WStr "byte list"
  | WFd int
  | WArrPrim message_magic "u32 list"
  | WArrStr "byte list list"
  | WArrFd "int list"

definition enc_bytes :: "byte list \<Rightarrow> byte list" where
  "enc_bytes s = encodeVarInt (length s) @ s"

fun wire_bytes :: "wire_arg \<Rightarrow> byte list" where
  "wire_bytes (WPrim m v) = [magic_code m] @ u32_bytes v"
| "wire_bytes (WStr s) = [magic_code TYPE_VARCHAR] @ enc_bytes s"
| "wire_bytes (WFd fd) = [magic_code TYPE_FD]"
| "wire_bytes (WArrPrim m vs) =
     [magic_code TYPE_ARRAY, magic_code m] @ encodeVarInt (length vs) @ concat (map u32_bytes vs)"
| "wire_bytes (WArrStr ss) =
     [magic_code TYPE_ARRAY, magic_code TYPE_VARCHAR] @ encodeVarInt (length ss) @ concat (map enc_bytes ss)"
| "wire_bytes (WArrFd fds) =
     [magic_code TYPE_ARRAY, magic_code TYPE_FD] @ encodeVarInt (length fds)"

fun wire_fds :: "wire_arg \<Rightarrow> int list" where
  "wire_fds (WFd fd) = [fd]"
| "wire_fds (WArrFd fds) = fds"
| "wire_fds _ = []"

fun wire_ok :: "wire_arg \<Rightarrow> bool" where
  "wire_ok (WPrim m v) = prim32 m"
| "wire_ok (WStr s) = (length s < 2 ^ 28)"
| "wire_ok (WFd fd) = True"
| "wire_ok (WArrPrim m vs) = (prim32 m \<and> length vs < array_limit)"
| "wire_ok (WArrStr ss) = (length ss < array_limit \<and> (\<forall>s \<in> set ss. length s < 2 ^ 28))"
| "wire_ok (WArrFd fds) = (length fds < array_limit)"

lemma wire_bytes_nonempty [simp]: "wire_bytes a \<noteq> []"
  by (cases a) simp_all

lemma hd_wire_bytes: "wire_ok a \<Longrightarrow> hd (wire_bytes a) \<noteq> 0"
  by (cases a) auto

lemma length_concat_prim [simp]: "length (concat (map u32_bytes vs)) = 4 * length vs"
  by (induction vs) simp_all

lemma length_enc_bytes: "length (enc_bytes s) = length (encodeVarInt (length s)) + length s"
  by (simp add: enc_bytes_def)

lemma take_fds_append: "take_fds (length xs) (xs @ rest) m = Inr (rest, m @ xs)"
  by (induction xs arbitrary: m) simp_all

lemma parse_span_stands:
  assumes "stands data p (encodeVarInt n)" "n < 2 ^ 28" "q = p"
    "p + len \<ge> length data \<or> length (encodeVarInt n) \<le> len"
  shows "parseVarInt_span data q len = Inr (n, length (encodeVarInt n))"
  using assms stands_length[OF assms(1)] by (auto intro!: parse_span_encode)

lemma skip_strings_stands:
  assumes "\<forall>s \<in> set ss. length s < 2 ^ 28" and "vec_ok data"
    and "stands data (off + i + n) (concat (map enc_bytes ss))"
  shows "skip_strings data off i n (length ss) = Inr (n + length (concat (map enc_bytes ss)))"
  using assms
proof (induction ss arbitrary: n)
  case Nil
  then show ?case by simp
next
  case (Cons s ss)
  let ?l = "length (encodeVarInt (length s))"
  have "stands data (off + i + n) (enc_bytes s)"
    using Cons.prems(3) by simp
  then have "stands data (off + i + n) (encodeVarInt (length s))"
    by (simp add: enc_bytes_def)
  moreover have "stands data (off + i + (n + (length s + ?l))) (concat (map enc_bytes ss))"
    using Cons.prems(3) by (simp add: length_enc_bytes ac_simps)
  ultimately have st: "stands data (off + i + n) (encodeVarInt (length s))"
    "stands data (off + i + (n + (length s + ?l))) (concat (map enc_bytes ss))" .
  have len: "off + i + n + ?l + length s \<le> length data" using stands_length[OF st(2)] by simp
  have big: "length data < 9223372036854775808" using Cons.prems(2) by (rule vec_okD)
  have "parseVarInt_span data (sadd (sadd off i) n) (ssub (ssub (length data) i) n) =
      Inr (length s, ?l)"
    using Cons.prems(1) len big by (intro parse_span_stands[OF st(1)]) (simp_all add: size_simps)
  moreover have "sadd n (sadd (length s) ?l) = n + (length s + ?l)"
    using len big by (simp add: size_simps)
  ultimately show ?case
    using Cons.IH[OF _ Cons.prems(2) st(2)] Cons.prems(1) by (simp add: length_enc_bytes)
qed

text \<open>
  The array case: the tag bytes and the count stand at \<open>off + i\<close>, the elements after them.
\<close>

lemma scan_array_stands:
  assumes st: "stands data (off + i) ([magic_code TYPE_ARRAY, magic_code t] @ encodeVarInt n @ body)"
    and n: "n < array_limit" and v: "vec_ok data"
    and body: "prim32 t \<Longrightarrow> length body = 4 * n \<and> fds' = fds \<and> m_fds' = m_fds"
      "t = TYPE_VARCHAR \<Longrightarrow> fds' = fds \<and> m_fds' = m_fds \<and>
         skip_strings data off i (2 + length (encodeVarInt n)) n =
           Inr (2 + length (encodeVarInt n) + length body)"
      "t = TYPE_FD \<Longrightarrow> body = [] \<and> take_fds n fds m_fds = Inr (fds', m_fds')"
    and t: "prim32 t \<or> t = TYPE_VARCHAR \<or> t = TYPE_FD"
  shows "scan_array data off i fds m_fds =
           Inr (i + length ([magic_code TYPE_ARRAY, magic_code t] @ encodeVarInt n @ body), fds', m_fds')"
proof -
  let ?l = "length (encodeVarInt n)"
  from st have parts: "stands data (off + i) [magic_code TYPE_ARRAY, magic_code t]"
    "stands data (off + i + 2) (encodeVarInt n)"
    by (simp_all only: stands_append) (simp_all add: eval_nat_numeral)
  have len: "off + i + 2 + ?l + length body \<le> length data" using stands_length[OF st] by simp
  have big: "length data < 9223372036854775808" using v by (rule vec_okD)
  have at: "vec_at data (sadd (sadd off i) 1) = Inr (magic_code t)"
    using vec_at_stands[OF parts(1), of 1] len big by (simp add: size_simps)
  have num: "parseVarInt_span data (sadd (sadd off i) 2) (ssub (length data) i) = Inr (n, ?l)"
    using n len big by (intro parse_span_stands[OF parts(2)]) (simp_all add: size_simps array_limit_def)
  have add: "sadd i (2 + ?l + length body) = i + (2 + ?l + length body)"
    using len big by (simp add: size_simps)
  have lim: "\<not> array_limit \<le> n" using n by simp
  consider "prim32 t" | "\<not> prim32 t" "t = TYPE_VARCHAR" | "\<not> prim32 t" "t \<noteq> TYPE_VARCHAR" "t = TYPE_FD"
    using t by blast
  then show ?thesis
  proof cases
    case 1
    with body(1) at num add lim show ?thesis by (simp add: scan_array_def Let_def del: prim32.simps)
  next
    case 2
    with body(2) at num add lim show ?thesis by (simp add: scan_array_def Let_def)
  next
    case 3
    with body(3) at num add lim show ?thesis by (simp add: scan_array_def Let_def)
  qed
qed

lemma scan_arg_stands:
  assumes ok: "wire_ok a" and st: "stands data (off + i) (wire_bytes a)" and v: "vec_ok data"
  shows "scan_arg data off i (hd (wire_bytes a)) (wire_fds a @ fds) m_fds =
           Inr (i + length (wire_bytes a), fds, m_fds @ wire_fds a)"
proof -
  have len: "off + i + length (wire_bytes a) \<le> length data" using st by (rule stands_length)
  have big: "length data < 9223372036854775808" using v by (rule vec_okD)
  show ?thesis
  proof (cases a)
    case (WPrim m x)
    with ok len big show ?thesis by (simp add: scan_arg_def size_simps)
  next
    case (WStr s)
    let ?l = "length (encodeVarInt (length s))"
    from st WStr have "stands data (Suc (off + i)) (encodeVarInt (length s))"
      by (simp add: stands_Cons enc_bytes_def)
    then have "parseVarInt data (Suc (off + i)) = Inr (length s, ?l)"
      using ok WStr by (intro parse_encode) simp_all
    with ok len big WStr show ?thesis by (simp add: scan_arg_def size_simps length_enc_bytes)
  next
    case (WFd fd)
    with len big show ?thesis by (simp add: scan_arg_def size_simps)
  next
    case (WArrPrim m vs)
    have "scan_array data off i fds m_fds = Inr (i + length (wire_bytes a), fds, m_fds)"
      unfolding WArrPrim wire_bytes.simps append_assoc
      using ok st v WArrPrim by (intro scan_array_stands) (simp_all del: prim32.simps, auto)
    with WArrPrim show ?thesis by (simp add: scan_arg_def)
  next
    case (WArrStr ss)
    let ?l = "length (encodeVarInt (length ss))"
    from st WArrStr have "stands data (off + i + (2 + ?l)) (concat (map enc_bytes ss))"
      by (simp add: stands_Cons ac_simps)
    then have "skip_strings data off i (2 + ?l) (length ss) = Inr (2 + ?l + length (concat (map enc_bytes ss)))"
      using ok v WArrStr by (intro skip_strings_stands) simp_all
    then have "scan_array data off i fds m_fds = Inr (i + length (wire_bytes a), fds, m_fds)"
      unfolding WArrStr wire_bytes.simps append_assoc
      using ok st v WArrStr by (intro scan_array_stands) simp_all
    with WArrStr show ?thesis by (simp add: scan_arg_def)
  next
    case (WArrFd xs)
    have "scan_array data off i (xs @ fds) m_fds = Inr (i + length (wire_bytes a), fds, m_fds @ xs)"
      unfolding WArrFd wire_bytes.simps
      using ok st v WArrFd scan_array_stands[of data off i TYPE_FD "length xs" "[]"]
      by (simp add: take_fds_append)
    with WArrFd show ?thesis by (simp add: scan_arg_def)
  qed
qed

definition wire_args :: "wire_arg list \<Rightarrow> byte list" where
  "wire_args args = concat (map wire_bytes args)"

definition wire_args_fds :: "wire_arg list \<Rightarrow> int list" where
  "wire_args_fds args = concat (map wire_fds args)"

lemma wire_args_simps [simp]:
  "wire_args [] = []" "wire_args (a # args) = wire_bytes a @ wire_args args"
  "wire_args_fds [] = []" "wire_args_fds (a # args) = wire_fds a @ wire_args_fds args"
  by (simp_all add: wire_args_def wire_args_fds_def)

lemma wire_args_append [simp]:
  "wire_args (xs @ ys) = wire_args xs @ wire_args ys"
  "wire_args_fds (xs @ ys) = wire_args_fds xs @ wire_args_fds ys"
  by (simp_all add: wire_args_def wire_args_fds_def)

lemma generic_scan_stands:
  assumes "list_all wire_ok args" and "stands data (off + i) (wire_args args @ [0])" and "vec_ok data"
  shows "generic_scan data off i (wire_args_fds args @ fds) m_fds =
           Some (Inr (i + length (wire_args args), fds, m_fds @ wire_args_fds args))"
  using assms
proof (induction args arbitrary: i m_fds)
  case Nil
  then have "off + i < length data" "data ! (off + i) = 0" by (simp_all add: stands_Cons)
  moreover from this(1) vec_okD[OF Nil.prems(3)] have "sadd off i = off + i" by (simp add: size_simps)
  ultimately show ?case by (subst generic_scan.simps) simp
next
  case (Cons a args)
  have ok: "wire_ok a" using Cons.prems(1) by simp
  have st: "stands data (off + i) (wire_bytes a)"
    "stands data (off + (i + length (wire_bytes a))) (wire_args args @ [0])"
    using Cons.prems(2) by (simp_all add: add.assoc)
  have len: "off + i < length data" using stands_length[OF st(2)] by (cases "wire_bytes a") auto
  with vec_okD[OF Cons.prems(3)] have "sadd off i = off + i" by (simp add: size_simps)
  moreover have "vec_at data (off + i) = Inr (hd (wire_bytes a))"
    using st(1) by (intro vec_at_stands_0) simp_all
  moreover note scan_arg_stands[OF ok st(1) Cons.prems(3), of "wire_args_fds args @ fds" m_fds]
  ultimately have "generic_scan data off i (wire_args_fds (a # args) @ fds) m_fds =
      generic_scan data off (i + length (wire_bytes a)) (wire_args_fds args @ fds) (m_fds @ wire_fds a)"
    using hd_wire_bytes[OF ok] by (subst generic_scan.simps) simp
  with Cons.IH[OF _ st(2) Cons.prems(3)] Cons.prems(1) show ?case by (simp add: add.assoc)
qed

definition enc_Generic :: "u32 \<Rightarrow> u32 \<Rightarrow> wire_arg list \<Rightarrow> byte list" where
  "enc_Generic object method args =
     [type_code MSG_GENERIC_PROTOCOL_MESSAGE, magic_code TYPE_OBJECT] @ u32_bytes object @
     [magic_code TYPE_UINT] @ u32_bytes method @ wire_args args @ [magic_code MAGIC_END]"

lemma length_enc_Generic [simp]: "length (enc_Generic object method args) = 12 + length (wire_args args)"
  by (simp add: enc_Generic_def)

lemma generic_head_stands:
  assumes "stands data off ([type_code MSG_GENERIC_PROTOCOL_MESSAGE, magic_code TYPE_OBJECT] @ u32_bytes object @
    [magic_code TYPE_UINT] @ u32_bytes meth)"
  shows "generic_head data off = Inr (object, meth)"
proof -
  from assms have parts: "stands data off [type_code MSG_GENERIC_PROTOCOL_MESSAGE, magic_code TYPE_OBJECT]"
    "stands data (off + 2) (u32_bytes object)" "stands data (off + 6) [magic_code TYPE_UINT]"
    "stands data (off + 7) (u32_bytes meth)"
    unfolding stands_append by (simp_all add: add.assoc eval_nat_numeral)
  have "vec_at data off = Inr 100" "vec_at data (off + 1) = Inr 0x22" "at_u32 data (off + 2) = Inr object"
    "vec_at data (off + 6) = Inr 0x10" "at_u32 data (off + 7) = Inr meth"
    using vec_at_stands[OF parts(1), of 0] vec_at_stands[OF parts(1), of 1]
      at_u32_stands[OF parts(2), of 0] vec_at_stands[OF parts(3), of 0] at_u32_stands[OF parts(4), of 0]
    by simp_all
  then show ?thesis by (simp add: generic_head_def del: add_2_eq_Suc')
qed

lemma parse_Generic_stands:
  assumes ok: "list_all wire_ok args" and st: "stands data off (enc_Generic object method args)"
    and v: "vec_ok data"
  shows "parse_Generic data (wire_args_fds args @ fds) off =
    Some (Inr (\<lparr>gm_object = object, gm_method = method, gm_data = wire_args args @ [0],
                gm_fds = wire_args_fds args\<rparr>, length (enc_Generic object method args), fds))"
proof -
  let ?a = "wire_args args @ [0]"
  let ?head = "[type_code MSG_GENERIC_PROTOCOL_MESSAGE, magic_code TYPE_OBJECT] @ u32_bytes object @
    [magic_code TYPE_UINT] @ u32_bytes method"
  from st have parts: "stands data off ?head" "stands data (off + 11) ?a"
    unfolding enc_Generic_def stands_append by (simp_all add: add.assoc eval_nat_numeral)
  have len: "off + 12 + length (wire_args args) \<le> length data" using stands_length[OF st] by simp
  have big: "length data < 9223372036854775808" using v by (rule vec_okD)
  have "generic_head data off = Inr (object, method)" by (rule generic_head_stands[OF parts(1)])
  moreover have "mem_range data (11 + off) (Suc (length (wire_args args))) = Inr ?a"
    using mem_range_stands[OF parts(2), of 0 "length ?a"] by (simp add: add.commute)
  moreover note generic_scan_stands[OF ok parts(2) v, of fds "[]"]
  ultimately show ?thesis
    using len big by (simp add: parse_Generic_def Let_def size_simps)
qed

section \<open>The scan as an induction\<close>

text \<open>Facts about a scan that returned, by the four ways an iteration goes.\<close>

lemma generic_scan_rule [consumes 1, case_names oob fin bad step]:
  assumes ret: "generic_scan data off i fds m = Some r"
    and oob: "\<And>i fds m e. vec_at data (sadd off i) = Inl e \<Longrightarrow> P i fds m (Inl e)"
    and fin: "\<And>i fds m. vec_at data (sadd off i) = Inr 0 \<Longrightarrow> P i fds m (Inr (i, fds, m))"
    and bad: "\<And>i fds m b e. vec_at data (sadd off i) = Inr b \<Longrightarrow> b \<noteq> 0 \<Longrightarrow>
      scan_arg data off i b fds m = Inl e \<Longrightarrow> P i fds m (Inl e)"
    and step: "\<And>i fds m b i' fds' m' r. vec_at data (sadd off i) = Inr b \<Longrightarrow> b \<noteq> 0 \<Longrightarrow>
      scan_arg data off i b fds m = Inr (i', fds', m') \<Longrightarrow> P i' fds' m' r \<Longrightarrow> P i fds m r"
  shows "P i fds m r"
proof -
  have "d = data \<longrightarrow> o' = off \<longrightarrow> P i fds m r"
    if "generic_scan d o' i fds m = Some r" for d o' i fds m r
  proof (rule generic_scan.raw_induct[where
        P = "\<lambda>d o' i fds m r. d = data \<longrightarrow> o' = off \<longrightarrow> P i fds m r", OF _ that], intro impI)
    fix f and d :: "byte list" and o' i fds m r
    assume IH: "\<And>d o' i fds m r. f d o' i fds m = Some r \<Longrightarrow> d = data \<longrightarrow> o' = off \<longrightarrow> P i fds m r"
      and eq: "obnd (vec_at d (sadd o' i)) (\<lambda>b. if b = magic_code MAGIC_END then Some (Inr (i, fds, m))
           else obnd (scan_arg d o' i b fds m) (\<lambda>(i', fds', m_fds'). f d o' i' fds' m_fds')) = Some r"
      and [simp]: "d = data" "o' = off"
    from eq show "P i fds m r"
      by (auto simp: obnd_eq_Some split: if_splits intro: oob fin bad step dest: IH)
  qed
  with ret show ?thesis by blast
qed

text \<open>Descriptors are moved from the queue to the message in order, none lost, none copied.\<close>

lemma take_fds_conserve: "take_fds n fds m = Inr (fds', m') \<Longrightarrow> m' @ fds' = m @ fds"
  by (induction n fds m rule: take_fds.induct) (auto split: list.splits)

lemma scan_arg_conserve:
  "scan_arg data off i b fds m = Inr (i', fds', m') \<Longrightarrow> m' @ fds' = m @ fds"
  by (auto simp: scan_arg_def scan_array_def bnd_eq_Inr Let_def
      split: option.splits if_splits list.splits dest!: take_fds_conserve)

lemma generic_scan_conserve_aux:
  "generic_scan data off i fds m = Some r \<Longrightarrow> r = Inr (i', fds', m') \<Longrightarrow> m' @ fds' = m @ fds"
  by (induction rule: generic_scan_rule) (auto dest!: scan_arg_conserve)

lemma generic_scan_conserve:
  "generic_scan data off i fds m = Some (Inr (i', fds', m')) \<Longrightarrow> m' @ fds' = m @ fds"
  using generic_scan_conserve_aux by blast

lemma parse_Generic_cases:
  assumes "parse_Generic data fds off = Some (Inr (msg, n, rest))"
  obtains i where "generic_head data off = Inr (gm_object msg, gm_method msg)"
    "generic_scan data off 11 fds [] = Some (Inr (i, rest, gm_fds msg))" "n = sadd i 1"
    "mem_range data (11 + off) (ssub n 11) = Inr (gm_data msg)"
  using assms by (auto simp: parse_Generic_def obnd_eq_Some bnd_eq_Inr Let_def split: option.splits)

lemma parse_Generic_conserve:
  "parse_Generic data fds off = Some (Inr (msg, n, rest)) \<Longrightarrow> gm_fds msg @ rest = fds"
  by (erule parse_Generic_cases) (auto dest: generic_scan_conserve)

text \<open>An argument whose length brings the cursor back to where it was is scanned forever.\<close>

lemma generic_scan_stuck:
  assumes "vec_at data (sadd off i) = Inr b" "b \<noteq> 0" "scan_arg data off i b fds m = Inr (i, fds, m)"
  shows "generic_scan data off i fds m = None"
proof (rule ccontr)
  assume "generic_scan data off i fds m \<noteq> None"
  then obtain r where "generic_scan data off i fds m = Some r" by blast
  from generic_scan_rule[where P = "\<lambda>i' fds' m' r. (i', fds', m') \<noteq> (i, fds, m)", OF this] assms
  show False by fastforce
qed

section \<open>Progress where no quantity is long\<close>

lemma skip_strings_bound:
  assumes "short_runs data"
  shows "skip_strings data off i n k = Inr n' \<Longrightarrow> n + k * 2 ^ 29 < 2 ^ 62 \<Longrightarrow> n \<le> n' \<and> n' \<le> n + k * 2 ^ 29"
proof (induction k arbitrary: n)
  case 0
  then show ?case by simp
next
  case (Suc k)
  then obtain a l where p: "parseVarInt_span data (sadd (sadd off i) n) (ssub (ssub (length data) i) n) = Inr (a, l)"
    and rest: "skip_strings data off i (sadd n (sadd a l)) k = Inr n'"
    by (auto simp: bnd_eq_Inr)
  from p assms have "l \<le> 4" "a < 2 ^ 28" by (auto dest: short_runs_span)
  with Suc.prems(2) have "sadd n (sadd a l) = n + (a + l)" "n + (a + l) + k * 2 ^ 29 < 2 ^ 62"
    "a + l \<le> 2 ^ 29"
    by (simp_all add: size_simps)
  with Suc.IH[OF _ this(2)] rest show ?case by simp
qed

lemma scan_array_progress:
  assumes sh: "short_runs data" and i: "i < 2 ^ 63"
    and scan: "scan_array data off i fds m = Inr (i', fds', m')"
  shows "i < i' \<and> i' \<le> i + 2 ^ 44"
proof -
  from scan obtain t a l where num: "parseVarInt_span data (sadd (sadd off i) 2) (ssub (length data) i) = Inr (a, l)"
    and a: "a < array_limit"
    and i': "i' = sadd i (2 + l + 4 * a) \<or> i' = sadd i (2 + l) \<or>
       (\<exists>n. skip_strings data off i (2 + l) a = Inr n \<and> i' = sadd i n)"
    by (auto simp: scan_array_def bnd_eq_Inr Let_def split: option.splits if_splits)
  from num sh have l: "l \<le> 4" by (auto dest: short_runs_span)
  have a': "a < 10000" using a by (simp add: array_limit_def)
  have "2 + l \<le> n \<and> n \<le> 2 + l + a * 2 ^ 29" if "skip_strings data off i (2 + l) a = Inr n" for n
    using that l a' by (intro skip_strings_bound[OF sh]) simp_all
  with i' i l a' show ?thesis by (auto simp: size_simps)
qed

lemma scan_arg_progress:
  assumes sh: "short_runs data" and i: "i < 2 ^ 63"
    and scan: "scan_arg data off i b fds m = Inr (i', fds', m')"
  shows "i < i' \<and> i' \<le> i + 2 ^ 44"
proof -
  from scan consider "i' = sadd i 5" | "i' = sadd i 1" | "scan_array data off i fds m = Inr (i', fds', m')"
    | a l where "parseVarInt data (sadd (sadd off i) 1) = Inr (a, l)" "i' = sadd i (sadd (sadd a l) 1)"
    by (auto simp: scan_arg_def bnd_eq_Inr split: option.splits if_splits list.splits)
  then show ?thesis
  proof cases
    case 3
    then show ?thesis by (rule scan_array_progress[OF sh i])
  next
    case 4
    from short_runs_parse[OF sh 4(1)] i 4(2) show ?thesis by (simp add: size_simps)
  qed (use i in \<open>simp_all add: size_simps\<close>)
qed

lemma generic_scan_returns:
  assumes "short_runs data" and "vec_ok data" and "off + i < length data + 2 ^ 44"
  shows "\<exists>r. generic_scan data off i fds m = Some r \<and>
           (\<forall>i' fds' m'. r = Inr (i', fds', m') \<longrightarrow> i \<le> i' \<and> off + i' < length data)"
  using assms(3)
proof (induction "length data + 2 ^ 44 - (off + i)" arbitrary: i fds m rule: less_induct)
  case less
  have big: "length data < 9223372036854775808" using assms(2) by (rule vec_okD)
  with less.prems have add: "sadd off i = off + i" by (simp add: size_simps)
  show ?case
  proof (cases "off + i < length data")
    case False
    with add show ?thesis by (subst generic_scan.simps) simp
  next
    case inside: True
    let ?b = "data ! (off + i)"
    have unfold: "generic_scan data off i fds m = (if ?b = 0 then Some (Inr (i, fds, m))
        else obnd (scan_arg data off i ?b fds m) (\<lambda>(i', fds', m'). generic_scan data off i' fds' m'))"
      using inside add by (subst generic_scan.simps) simp
    show ?thesis
    proof (cases "?b = 0")
      case True
      with unfold inside show ?thesis by simp
    next
      case b: False
      show ?thesis
      proof (cases "scan_arg data off i ?b fds m")
        case (Inl e)
        with unfold b show ?thesis by simp
      next
        case (Inr t)
        obtain i' fds' m' where t: "t = (i', fds', m')" by (cases t)
        have prog: "i < i'" "i' \<le> i + 2 ^ 44"
          using scan_arg_progress[OF assms(1) _ Inr[unfolded t]] inside big by simp_all
        have smaller: "length data + 2 ^ 44 - (off + i') < length data + 2 ^ 44 - (off + i)"
          "off + i' < length data + 2 ^ 44"
          using prog inside by simp_all
        have eq: "generic_scan data off i fds m = generic_scan data off i' fds' m'"
          using unfold b Inr t by simp
        obtain r where r: "generic_scan data off i' fds' m' = Some r"
          and ext: "\<forall>j fds'' m''. r = Inr (j, fds'', m'') \<longrightarrow> i' \<le> j \<and> off + j < length data"
          using less.hyps[OF smaller] by blast
        from ext prog(1) have "\<forall>j fds'' m''. r = Inr (j, fds'', m'') \<longrightarrow> i \<le> j \<and> off + j < length data"
          by auto
        with r eq show ?thesis by simp
      qed
    qed
  qed
qed

lemma parse_Generic_returns:
  assumes "short_runs data" and v: "vec_ok data" and off: "off < length data"
  shows "\<exists>r. parse_Generic data fds off = Some r \<and>
           (\<forall>msg n rest. r = Inr (msg, n, rest) \<longrightarrow> 12 \<le> n \<and> off + n \<le> length data \<and> length (gm_data msg) = n - 11)"
proof -
  obtain r where r: "generic_scan data off 11 fds [] = Some r"
    and ext: "\<forall>i fds' m'. r = Inr (i, fds', m') \<longrightarrow> 11 \<le> i \<and> off + i < length data"
    using generic_scan_returns[OF assms(1,2), of off 11 fds "[]"] off by auto
  have ret: "\<exists>r. parse_Generic data fds off = Some r"
    by (cases "generic_head data off") (auto simp: parse_Generic_def r split: prod.splits)
  have "12 \<le> n \<and> off + n \<le> length data \<and> length (gm_data msg) = n - 11"
    if "parse_Generic data fds off = Some (Inr (msg, n, rest))" for msg n rest
  proof -
    from that obtain i where "r = Inr (i, rest, gm_fds msg)" "n = sadd i 1"
      and span: "mem_range data (11 + off) (ssub n 11) = Inr (gm_data msg)"
      by (rule parse_Generic_cases) (simp add: r)
    moreover from this ext vec_okD[OF v] have "n = i + 1" "11 \<le> i" "off + i < length data"
      by (simp_all add: size_simps)
    moreover from this vec_okD[OF v] have "ssub n 11 = n - 11" by (simp add: size_simps)
    moreover from this span have "gm_data msg = take (n - 11) (drop (11 + off) data)"
      by (simp add: mem_range_eq_Inr)
    ultimately show ?thesis by simp
  qed
  with ret show ?thesis by blast
qed

section \<open>No string is built\<close>

lemma skip_strings_no_throw [simp]: "skip_strings data off i n k \<noteq> Inl LengthError"
  by (induction k arbitrary: n) (auto simp: bnd_eq_Inl)

lemma take_fds_no_throw [simp]: "take_fds n fds m \<noteq> Inl LengthError"
  by (induction n arbitrary: fds m) (auto split: list.splits)

lemma scan_arg_no_throw [simp]: "scan_arg data off i b fds m \<noteq> Inl LengthError"
  by (auto simp: scan_arg_def scan_array_def bnd_eq_Inl vec_at_eq_Inl Let_def
      split: option.splits if_splits list.splits)

lemma generic_scan_no_throw: "generic_scan data off i fds m = Some r \<Longrightarrow> r \<noteq> Inl LengthError"
  by (induction rule: generic_scan_rule) (auto simp: vec_at_eq_Inl)

lemma parse_Generic_no_throw [simp]: "parse_Generic data fds off \<noteq> Some (Inl LengthError)"
proof
  assume "parse_Generic data fds off = Some (Inl LengthError)"
  then show False
    by (auto simp: parse_Generic_def generic_head_def obnd_eq_Some bnd_eq_Inl vec_at_eq_Inl at_u32_def mem_u32_def
        mem_range_eq_Inl Let_def dest: generic_scan_no_throw split: option.splits)
qed

end
