(* ===== verification/Argument_Layout.thy ===== *)
theory Argument_Layout
  imports Generic_Message
begin

text \<open>
  Where the arguments of a generic message stand in its bytes: a relation between a buffer,
  the position of an argument, its value and the position after it. Unlike \<open>wire_bytes\<close> it
  does not fix the encoding of the lengths, so it holds of every message the receiver
  accepts. Both passes of \<^verbatim>\<open>IWireObject::called\<close> are proved against it.
\<close>

section \<open>Complete variable-length quantities\<close>

lemma varint_loop_local:
  "varint_loop data start len i r = Inr (v, l) \<Longrightarrow> l < len \<Longrightarrow> l \<le> len' \<Longrightarrow> start' + l \<le> length data' \<Longrightarrow>
     (\<And>k. k < l \<Longrightarrow> data' ! (start' + k) = data ! (start + k)) \<Longrightarrow>
     varint_loop data' start' len' i r = Inr (v, l)"
proof (induction data start len i r rule: varint_loop.induct)
  case (1 data start len i r)
  have bound: "start + i < length data" "i * 7 < 32"
    using "1.prems"(1) by (auto simp: varint_loop.simps[of data start len i r] vec_idx_eq_Inr split: sum.splits if_splits)
  have il: "i < l" using varint_loop_extent[OF "1.prems"(1)] by simp
  have same: "data' ! (start' + i) = data ! (start + i)" "start' + i < length data'"
    using "1.prems"(4,5) il by simp_all
  show ?case
  proof (cases "Suc i < len \<and> bit (data ! (start + i)) 7")
    case True
    with bound "1.prems"(1)
    have step: "varint_loop data start len (Suc i) (r + group_value i (data ! (start + i))) = Inr (v, l)"
      by (simp add: varint_loop.simps[of data start len i r] Let_def)
    from varint_loop_extent[OF step] have "Suc i < len'" using "1.prems"(3) by simp
    with "1.IH"[OF _ _ refl _ step "1.prems"(2-5)] bound True same show ?thesis
      by (simp add: varint_loop.simps[of data' start' len' i r] Let_def)
  next
    case False
    with bound "1.prems"(1) have "v = unat (r + group_value i (data ! (start + i)))" "l = Suc i"
      by (auto simp: varint_loop.simps[of data start len i r] Let_def)
    with bound same False "1.prems"(2) show ?thesis
      by (simp add: varint_loop.simps[of data' start' len' i r] Let_def)
  qed
qed

text \<open>The quantity at \<open>p\<close> ends with a byte whose continuation bit is clear.\<close>

definition varint_at :: "byte list \<Rightarrow> nat \<Rightarrow> nat \<Rightarrow> nat \<Rightarrow> bool" where
  "varint_at data p v l \<longleftrightarrow> p + l \<le> length data \<and> parseVarInt_span data p (Suc l) = Inr (v, l)"

lemma varint_at_length: "varint_at data p v l \<Longrightarrow> 0 < l \<and> p + l \<le> length data"
  by (auto simp: varint_at_def dest: parse_span_extent)

lemma parse_span_at: "varint_at data p v l \<Longrightarrow> l \<le> len \<Longrightarrow> parseVarInt_span data p len = Inr (v, l)"
  unfolding varint_at_def parseVarInt_span_def by (auto intro: varint_loop_local)

lemma parse_span_complete:
  "parseVarInt_span data p len = Inr (v, l) \<Longrightarrow> l < len \<Longrightarrow> varint_at data p v l"
  using parse_span_extent[of data p len v l]
  unfolding varint_at_def parseVarInt_span_def by (auto intro: varint_loop_local)

lemma varint_at_encode: "stands data p (encodeVarInt n) \<Longrightarrow> n < 2 ^ 28 \<Longrightarrow>
    varint_at data p n (length (encodeVarInt n))"
  using parse_span_stands[of data p n p "Suc (length (encodeVarInt n))"] stands_length[of data p "encodeVarInt n"]
  by (simp add: varint_at_def)

section \<open>Cutting a buffer\<close>

definition slice :: "byte list \<Rightarrow> nat \<Rightarrow> nat \<Rightarrow> byte list" where
  "slice data b n = take n (drop b data)"

lemma length_slice [simp]: "b + n \<le> length data \<Longrightarrow> length (slice data b n) = n"
  by (simp add: slice_def)

lemma nth_slice: "b + n \<le> length data \<Longrightarrow> k < n \<Longrightarrow> slice data b n ! k = data ! (b + k)"
  by (simp add: slice_def)

lemma stands_slice:
  assumes "stands data (b + p) xs" "p + length xs \<le> n" "b + n \<le> length data"
  shows "stands (slice data b n) p xs"
proof -
  have "take (length xs) (drop p (slice data b n)) = take (length xs) (drop (b + p) data)"
    using assms(2) by (simp add: slice_def drop_take add.commute min_def)
  with assms show ?thesis by (simp add: stands_def)
qed

lemma varint_at_slice:
  assumes "varint_at data (b + p) v l" "p + l \<le> n" "b + n \<le> length data"
  shows "varint_at (slice data b n) p v l"
  using assms nth_slice[OF assms(3)] unfolding varint_at_def parseVarInt_span_def
  by (auto intro!: varint_loop_local[of data "b + p" "Suc l" 0 0 v l] simp: add.assoc)

section \<open>Arguments\<close>

inductive strs_at :: "byte list \<Rightarrow> nat \<Rightarrow> byte list list \<Rightarrow> nat \<Rightarrow> bool" for data where
  no_strs: "strs_at data p [] p"
| a_str: "varint_at data p (length s) l \<Longrightarrow> stands data (p + l) s \<Longrightarrow>
    strs_at data (p + l + length s) ss q \<Longrightarrow> strs_at data p (s # ss) q"

inductive_simps strs_at_simps: "strs_at data p [] q" "strs_at data p (s # ss) q"

inductive arg_at :: "byte list \<Rightarrow> nat \<Rightarrow> wire_arg \<Rightarrow> nat \<Rightarrow> bool" for data where
  at_prim: "prim32 m \<Longrightarrow> stands data p ([magic_code m] @ u32_bytes v) \<Longrightarrow> arg_at data p (WPrim m v) (p + 5)"
| at_str: "stands data p [magic_code TYPE_VARCHAR] \<Longrightarrow> strs_at data (p + 1) [s] q \<Longrightarrow>
    arg_at data p (WStr s) q"
| at_fd: "stands data p [magic_code TYPE_FD] \<Longrightarrow> arg_at data p (WFd fd) (p + 1)"
| at_arr_prim: "prim32 m \<Longrightarrow> stands data p [magic_code TYPE_ARRAY, magic_code m] \<Longrightarrow>
    varint_at data (p + 2) (length vs) l \<Longrightarrow> length vs < array_limit \<Longrightarrow>
    stands data (p + 2 + l) (concat (map u32_bytes vs)) \<Longrightarrow>
    arg_at data p (WArrPrim m vs) (p + 2 + l + 4 * length vs)"
| at_arr_str: "stands data p [magic_code TYPE_ARRAY, magic_code TYPE_VARCHAR] \<Longrightarrow>
    varint_at data (p + 2) (length ss) l \<Longrightarrow> length ss < array_limit \<Longrightarrow>
    strs_at data (p + 2 + l) ss q \<Longrightarrow> arg_at data p (WArrStr ss) q"
| at_arr_fd: "stands data p [magic_code TYPE_ARRAY, magic_code TYPE_FD] \<Longrightarrow>
    varint_at data (p + 2) (length fds) l \<Longrightarrow> length fds < array_limit \<Longrightarrow>
    arg_at data p (WArrFd fds) (p + 2 + l)"

inductive_cases arg_atE:
  "arg_at data p (WPrim m v) q" "arg_at data p (WStr s) q" "arg_at data p (WFd fd) q"
  "arg_at data p (WArrPrim m vs) q" "arg_at data p (WArrStr ss) q" "arg_at data p (WArrFd fds) q"

inductive args_at :: "byte list \<Rightarrow> nat \<Rightarrow> wire_arg list \<Rightarrow> nat \<Rightarrow> bool" for data where
  no_args: "args_at data p [] p"
| an_arg: "arg_at data p a q \<Longrightarrow> args_at data q args r \<Longrightarrow> args_at data p (a # args) r"

inductive_simps args_at_simps: "args_at data p [] q" "args_at data p (a # args) q"

text \<open>The whole argument block of a message: the arguments and the \<^verbatim>\<open>END\<close> after them.\<close>

definition block_at :: "byte list \<Rightarrow> nat \<Rightarrow> wire_arg list \<Rightarrow> bool" where
  "block_at data p args \<longleftrightarrow> (\<exists>q. args_at data p args q \<and> q < length data \<and> data ! q = 0)"

lemma strs_at_le: "strs_at data p ss q \<Longrightarrow> p \<le> q \<and> (p \<le> length data \<longrightarrow> q \<le> length data)"
  by (induction rule: strs_at.induct) (auto dest: stands_length varint_at_length)

lemma arg_at_less: "arg_at data p a q \<Longrightarrow> p < q \<and> q \<le> length data"
  by (induction rule: arg_at.induct)
    (auto dest!: stands_length varint_at_length strs_at_le simp: length_concat_prim)

lemma args_at_le: "args_at data p args q \<Longrightarrow> p \<le> q"
  by (induction rule: args_at.induct) (auto dest: arg_at_less)

subsection \<open>Inside a slice\<close>

lemma strs_at_slice:
  "strs_at data p' ss q' \<Longrightarrow> p' = b + p \<Longrightarrow> q' \<le> b + n \<Longrightarrow> b + n \<le> length data \<Longrightarrow>
     strs_at (slice data b n) p ss (q' - b)"
proof (induction arbitrary: p rule: strs_at.induct)
  case (no_strs p)
  then show ?case by (simp add: strs_at.no_strs)
next
  case (a_str p' s l ss q')
  have "p' + l + length s \<le> q'" using strs_at_le[OF a_str.hyps(3)] by simp
  with a_str show ?case
    by (intro strs_at.a_str[of _ _ _ l]) (auto intro: varint_at_slice stands_slice simp: add.assoc)
qed

lemma arg_at_slice:
  assumes "arg_at data p' a q'" and p: "p' = b + p" and n: "q' \<le> b + n" "b + n \<le> length data"
  shows "arg_at (slice data b n) p a (q' - b)"
  using assms(1)
proof cases
  case (at_prim m v)
  with p n have "arg_at (slice data b n) p (WPrim m v) (p + 5)"
    by (intro arg_at.at_prim stands_slice) simp_all
  with at_prim p show ?thesis by simp
next
  case (at_str s)
  have "b + p + 1 \<le> q'" using strs_at_le[OF at_str(3)] p by simp
  with at_str p n show ?thesis
    by (simp only:) (intro arg_at.at_str stands_slice strs_at_slice[of _ _ _ q']; simp)
next
  case (at_fd fd)
  with p n have "arg_at (slice data b n) p (WFd fd) (p + 1)"
    by (intro arg_at.at_fd stands_slice) simp_all
  with at_fd p show ?thesis by simp
next
  case (at_arr_prim m vs l)
  with p n have "arg_at (slice data b n) p (WArrPrim m vs) (p + 2 + l + 4 * length vs)"
    by (intro arg_at.at_arr_prim stands_slice varint_at_slice) (simp_all add: add.assoc del: prim32.simps)
  with at_arr_prim p show ?thesis by (simp add: add.assoc)
next
  case (at_arr_str ss l)
  have "b + p + 2 + l \<le> q'" using strs_at_le[OF at_arr_str(5)] p by simp
  with at_arr_str p n show ?thesis
    by (simp only:) (intro arg_at.at_arr_str[of _ _ _ l] stands_slice varint_at_slice
        strs_at_slice[of _ _ _ q']; simp add: add.assoc)
next
  case (at_arr_fd fds l)
  with p n have "arg_at (slice data b n) p (WArrFd fds) (p + 2 + l)"
    by (intro arg_at.at_arr_fd stands_slice varint_at_slice) (simp_all add: add.assoc)
  with at_arr_fd p show ?thesis by (simp add: add.assoc)
qed

lemma args_at_slice:
  "args_at data p' args q' \<Longrightarrow> p' = b + p \<Longrightarrow> q' \<le> b + n \<Longrightarrow> b + n \<le> length data \<Longrightarrow>
     args_at (slice data b n) p args (q' - b)"
proof (induction arbitrary: p rule: args_at.induct)
  case (no_args p)
  then show ?case by (simp add: args_at.no_args)
next
  case (an_arg p' a q args r)
  have q: "p' < q" "q \<le> r" using arg_at_less[OF an_arg.hyps(1)] args_at_le[OF an_arg.hyps(2)] by simp_all
  have "arg_at (slice data b n) p a (q - b)"
    using an_arg.hyps(1) an_arg.prems q by (intro arg_at_slice) simp_all
  moreover have "args_at (slice data b n) (q - b) args (r - b)"
    using an_arg.IH[of "q - b"] an_arg.prems q by simp
  ultimately show ?case by (rule args_at.an_arg)
qed

section \<open>What the sender writes\<close>

lemma strs_at_enc:
  "stands data p (concat (map enc_bytes ss)) \<Longrightarrow> \<forall>s \<in> set ss. length s < 2 ^ 28 \<Longrightarrow>
     strs_at data p ss (p + length (concat (map enc_bytes ss)))"
proof (induction ss arbitrary: p)
  case Nil
  then show ?case by (simp add: no_strs)
next
  case (Cons s ss)
  let ?l = "length (encodeVarInt (length s))"
  have st: "stands data p (encodeVarInt (length s))" "stands data (p + ?l) s"
    "stands data (p + ?l + length s) (concat (map enc_bytes ss))"
    using Cons.prems(1) by (simp_all add: enc_bytes_def[of s] add.assoc)
  have "strs_at data (p + ?l + length s) ss (p + ?l + length s + length (concat (map enc_bytes ss)))"
    using Cons.IH[OF st(3)] Cons.prems(2) by simp
  with st(2) varint_at_encode[OF st(1)] Cons.prems(2) have "strs_at data p (s # ss) (p + ?l + length s + length (concat (map enc_bytes ss)))"
    by (intro a_str) simp_all
  then show ?case by (simp add: length_enc_bytes add.assoc)
qed

lemma arg_at_wire_bytes:
  assumes "wire_ok a" and st: "stands data p (wire_bytes a)"
  shows "arg_at data p a (p + length (wire_bytes a))"
proof (cases a)
  case (WPrim m v)
  with assms at_prim[of m data p v] show ?thesis by simp
next
  case (WStr s)
  with st have "stands data p [magic_code TYPE_VARCHAR]" "stands data (p + 1) (concat (map enc_bytes [s]))"
    by (simp_all add: stands_Cons)
  with assms(1) WStr show ?thesis
    using strs_at_enc[of data "p + 1" "[s]"] by (auto intro!: at_str)
next
  case (WFd fd)
  with assms at_fd[of data p fd] show ?thesis by simp
next
  case (WArrPrim m vs)
  let ?l = "length (encodeVarInt (length vs))"
  from st WArrPrim have "stands data p [magic_code TYPE_ARRAY, magic_code m]"
    "stands data (p + 2) (encodeVarInt (length vs))" "stands data (p + 2 + ?l) (concat (map u32_bytes vs))"
    unfolding WArrPrim wire_bytes.simps stands_append by (simp_all add: add.assoc eval_nat_numeral)
  with assms(1) WArrPrim have "arg_at data p a (p + 2 + ?l + 4 * length vs)"
    by (simp only:) (intro at_arr_prim varint_at_encode; simp add: array_limit_def del: prim32.simps)
  with WArrPrim show ?thesis by (simp add: add.assoc)
next
  case (WArrStr ss)
  let ?l = "length (encodeVarInt (length ss))"
  from st WArrStr have "stands data p [magic_code TYPE_ARRAY, magic_code TYPE_VARCHAR]"
    "stands data (p + 2) (encodeVarInt (length ss))" "stands data (p + 2 + ?l) (concat (map enc_bytes ss))"
    unfolding WArrStr wire_bytes.simps stands_append by (simp_all add: add.assoc eval_nat_numeral)
  with assms(1) WArrStr have "arg_at data p a (p + 2 + ?l + length (concat (map enc_bytes ss)))"
    by (simp only:) (intro at_arr_str[where l = ?l] varint_at_encode strs_at_enc; simp add: array_limit_def)
  with WArrStr show ?thesis by (simp add: add.assoc)
next
  case (WArrFd fds)
  let ?l = "length (encodeVarInt (length fds))"
  from st WArrFd have "stands data p [magic_code TYPE_ARRAY, magic_code TYPE_FD]"
    "stands data (p + 2) (encodeVarInt (length fds))"
    unfolding WArrFd wire_bytes.simps stands_append by (simp_all add: add.assoc eval_nat_numeral)
  with assms(1) WArrFd have "arg_at data p a (p + 2 + ?l)"
    by (simp only:) (intro at_arr_fd varint_at_encode; simp add: array_limit_def)
  with WArrFd show ?thesis by (simp add: add.assoc)
qed

lemma args_at_wire_args:
  "list_all wire_ok args \<Longrightarrow> stands data p (wire_args args) \<Longrightarrow>
     args_at data p args (p + length (wire_args args))"
proof (induction args arbitrary: p)
  case Nil
  then show ?case by (simp add: no_args)
next
  case (Cons a args)
  then have "arg_at data p a (p + length (wire_bytes a))" by (intro arg_at_wire_bytes) simp_all
  moreover have "args_at data (p + length (wire_bytes a)) args (p + length (wire_bytes a) + length (wire_args args))"
    using Cons by simp
  ultimately show ?case by (simp add: an_arg add.assoc)
qed

lemma block_at_wire_args:
  "list_all wire_ok args \<Longrightarrow> stands data p (wire_args args @ [0]) \<Longrightarrow> block_at data p args"
  unfolding block_at_def by (auto simp: stands_Cons intro!: exI args_at_wire_args)

section \<open>What the receiver accepts\<close>

lemma u32_bytes_bytes_u32: "length bs = 4 \<Longrightarrow> u32_bytes (bytes_u32 bs) = bs"
proof -
  assume "length bs = 4"
  then obtain a b c d where bs: "bs = [a, b, c, d]"
    by (auto simp: eval_nat_numeral length_Suc_conv)
  have bit: "8 \<le> n \<Longrightarrow> \<not> bit x n" for x :: byte and n
    using bit_imp_le_length[of x n] by auto
  show ?thesis
    unfolding bs bytes_u32_def u32_bytes_def
    by (auto intro!: bit_word_eqI simp: bit_simps bit)
qed

lemma stands_u32: "p + 4 \<le> length data \<Longrightarrow> \<exists>v. stands data p (u32_bytes v)"
  by (rule exI[of _ "bytes_u32 (take 4 (drop p data))"])
    (simp add: u32_bytes_bytes_u32 stands_def)

lemma stands_u32s:
  "p + 4 * n \<le> length data \<Longrightarrow> \<exists>vs. length vs = n \<and> stands data p (concat (map u32_bytes vs))"
proof (induction n arbitrary: p)
  case 0
  then show ?case by simp
next
  case (Suc n)
  then obtain v where "stands data p (u32_bytes v)" using stands_u32[of p data] by auto
  moreover obtain vs where "length vs = n" "stands data (p + 4) (concat (map u32_bytes vs))"
    using Suc.IH[of "p + 4"] Suc.prems by auto
  ultimately show ?case by (intro exI[of _ "v # vs"]) simp
qed

lemma stands_take: "p + n \<le> length data \<Longrightarrow> stands data p (take n (drop p data))"
  by (simp add: stands_def)

lemma skip_strings_at:
  assumes sh: "short_runs data" and v: "vec_ok data"
  shows "skip_strings data off i n k = Inr n' \<Longrightarrow> n + k * 2 ^ 29 < 2 ^ 62 \<Longrightarrow> off + i + n' < length data \<Longrightarrow>
     \<exists>ss. length ss = k \<and> strs_at data (off + i + n) ss (off + i + n')"
proof (induction k arbitrary: n)
  case 0
  then show ?case by (auto intro: no_strs)
next
  case (Suc k)
  have big: "length data < 9223372036854775808" using v by (rule vec_okD)
  have mono: "n \<le> n'" using skip_strings_bound[OF sh Suc.prems(1,2)] by simp
  from Suc.prems(1) obtain a l where p: "parseVarInt_span data (sadd (sadd off i) n) (ssub (ssub (length data) i) n) = Inr (a, l)"
    and rest: "skip_strings data off i (sadd n (sadd a l)) k = Inr n'"
    by (auto simp: bnd_eq_Inr)
  from p sh have "l \<le> 4" "a < 2 ^ 28" by (auto dest: short_runs_span)
  with Suc.prems(2) have add: "sadd n (sadd a l) = n + l + a" and lim: "n + l + a + k * 2 ^ 29 < 2 ^ 62"
    by (simp_all add: size_simps)
  note rest = rest[unfolded add]
  have n': "n + l + a \<le> n'" using skip_strings_bound[OF sh rest lim] by simp
  have pos: "sadd (sadd off i) n = off + i + n" "ssub (ssub (length data) i) n = length data - i - n"
    using mono Suc.prems(3) big by (simp_all add: size_simps)
  have at: "varint_at data (off + i + n) a l"
    using p n' Suc.prems(3) unfolding pos by (intro parse_span_complete[of _ _ "length data - i - n"]) simp_all
  obtain ss where "length ss = k" "strs_at data (off + i + (n + l + a)) ss (off + i + n')"
    using Suc.IH[OF rest lim Suc.prems(3)] by blast
  moreover have "stands data (off + i + n + l) (take a (drop (off + i + n + l) data))"
    using n' Suc.prems(3) by (intro stands_take) simp
  ultimately show ?case
    using at n' Suc.prems(3)
    by (intro exI[of _ "take a (drop (off + i + n + l) data) # ss"])
      (auto intro!: a_str[of _ _ _ l] simp: add.assoc)
qed

lemma take_fds_taken:
  "take_fds n fds m = Inr (fds', m') \<Longrightarrow> \<exists>xs. length xs = n \<and> m' = m @ xs"
proof (induction n fds m rule: take_fds.induct)
  case (2 n fds m)
  then obtain fd rest where "fds = fd # rest" "take_fds n rest (m @ [fd]) = Inr (fds', m')"
    by (auto split: list.splits)
  with "2.IH" obtain xs where "length xs = n" "m' = m @ fd # xs" by auto
  then show ?case by (intro exI[of _ "fd # xs"]) simp
qed simp

lemma scan_array_at:
  assumes sh: "short_runs data" and v: "vec_ok data" and tag: "stands data (off + i) [magic_code TYPE_ARRAY]"
    and scan: "scan_array data off i fds m = Inr (i', fds', m')" and fin: "off + i' < length data"
  shows "\<exists>a. arg_at data (off + i) a (off + i') \<and> m' = m @ wire_fds a"
proof -
  have big: "length data < 9223372036854775808" using v by (rule vec_okD)
  have i: "off + i < length data" using stands_length[OF tag] by simp
  then have less: "i < i'" using scan_array_progress[OF sh _ scan] big by simp
  have pos: "sadd (sadd off i) 1 = off + i + 1" "sadd (sadd off i) 2 = off + i + 2"
    "ssub (length data) i = length data - i"
    using i big by (simp_all add: size_simps)
  from scan obtain b t a l where t: "off + i + 1 < length data" "data ! (off + i + 1) = magic_code t"
    and num: "parseVarInt_span data (off + i + 2) (length data - i) = Inr (a, l)" and a: "a < array_limit"
    and elems: "prim32 t \<and> i' = sadd i (2 + l + 4 * a) \<and> m' = m \<or>
      t = TYPE_VARCHAR \<and> m' = m \<and> (\<exists>n. skip_strings data off i (2 + l) a = Inr n \<and> i' = sadd i n) \<or>
      t = TYPE_FD \<and> take_fds a fds m = Inr (fds', m') \<and> i' = sadd i (2 + l)"
    unfolding scan_array_def pos
    by (auto simp: bnd_eq_Inr vec_at_eq_Inr Let_def split: option.splits if_splits)
  from num sh have l: "0 < l" "l \<le> 4" by (auto dest: short_runs_span parse_span_extent)
  have small: "sadd i (2 + l + 4 * a) = i + 2 + l + 4 * a" "sadd i (2 + l) = i + 2 + l"
    using i big l a by (simp_all add: size_simps array_limit_def)
  have head: "stands data (off + i) [magic_code TYPE_ARRAY, magic_code t]"
    using tag t by (simp add: stands_Cons)
  have num': "off + i + 2 + l < length data \<Longrightarrow> varint_at data (off + i + 2) a l"
    using num by (intro parse_span_complete[of _ _ "length data - i"]) simp_all
  from elems consider "prim32 t" "i' = sadd i (2 + l + 4 * a)" "m' = m"
    | n where "t = TYPE_VARCHAR" "m' = m" "skip_strings data off i (2 + l) a = Inr n" "i' = sadd i n"
    | "t = TYPE_FD" "take_fds a fds m = Inr (fds', m')" "i' = sadd i (2 + l)"
    by blast
  then show ?thesis
  proof cases
    case 1
    then have e: "i' = i + 2 + l + 4 * a" using small by simp
    obtain vs where vs: "length vs = a" "stands data (off + i + 2 + l) (concat (map u32_bytes vs))"
      using stands_u32s[of "off + i + 2 + l" a data] e fin by auto
    have "arg_at data (off + i) (WArrPrim t vs) (off + i + 2 + l + 4 * length vs)"
      using 1(1) head num' a vs e fin by (intro at_arr_prim) simp_all
    with e vs 1(3) show ?thesis by (intro exI[of _ "WArrPrim t vs"]) (simp add: add.assoc)
  next
    case 2
    have n: "2 + l \<le> n" "n \<le> 2 + l + a * 2 ^ 29"
      using skip_strings_bound[OF sh 2(3)] l a by (simp_all add: array_limit_def)
    then have e: "i' = i + n" using 2(4) i big l a by (simp add: size_simps array_limit_def)
    obtain ss where ss: "length ss = a" "strs_at data (off + i + (2 + l)) ss (off + i + n)"
      using skip_strings_at[OF sh v 2(3)] l a e fin by (auto simp: array_limit_def)
    have "arg_at data (off + i) (WArrStr ss) (off + i')"
      using 2(1) head num' a ss e n fin by (intro at_arr_str[where l = l]) (simp_all add: add.assoc)
    with 2(2) show ?thesis by (intro exI[of _ "WArrStr ss"]) simp
  next
    case 3
    then have e: "i' = i + 2 + l" using small by simp
    obtain xs where xs: "length xs = a" "m' = m @ xs" using take_fds_taken[OF 3(2)] by blast
    have "arg_at data (off + i) (WArrFd xs) (off + i + 2 + l)"
      using 3(1) head num' a xs(1) e fin by (intro at_arr_fd) simp_all
    with e xs(2) show ?thesis by (intro exI[of _ "WArrFd xs"]) (simp add: add.assoc)
  qed
qed

lemma scan_arg_at:
  assumes sh: "short_runs data" and v: "vec_ok data" and i: "off + i < length data"
    and scan: "scan_arg data off i (data ! (off + i)) fds m = Inr (i', fds', m')"
    and fin: "off + i' < length data"
  shows "\<exists>a. arg_at data (off + i) a (off + i') \<and> m' = m @ wire_fds a"
proof -
  have big: "length data < 9223372036854775808" using v by (rule vec_okD)
  have add: "sadd i 5 = i + 5" "sadd i 1 = i + 1" "sadd (sadd off i) 1 = off + i + 1"
    using i big by (simp_all add: size_simps)
  from scan obtain t where t: "data ! (off + i) = magic_code t"
    and "prim32 t \<and> i' = i + 5 \<and> m' = m \<or>
      t = TYPE_VARCHAR \<and> m' = m \<and> (\<exists>a l. parseVarInt data (off + i + 1) = Inr (a, l) \<and> i' = sadd i (sadd (sadd a l) 1)) \<or>
      t = TYPE_ARRAY \<and> scan_array data off i fds m = Inr (i', fds', m') \<or>
      t = TYPE_FD \<and> i' = i + 1 \<and> (\<exists>fd. m' = m @ [fd])"
    unfolding scan_arg_def add
    by (auto simp: bnd_eq_Inr split: option.splits if_splits list.splits)
  then consider "prim32 t" "i' = i + 5" "m' = m"
    | a l where "t = TYPE_VARCHAR" "m' = m" "parseVarInt data (off + i + 1) = Inr (a, l)" "i' = sadd i (sadd (sadd a l) 1)"
    | "t = TYPE_ARRAY" "scan_array data off i fds m = Inr (i', fds', m')"
    | fd where "t = TYPE_FD" "i' = i + 1" "m' = m @ [fd]"
    by blast
  then show ?thesis
  proof cases
    case 1
    obtain w where "stands data (off + i + 1) (u32_bytes w)"
      using stands_u32[of "off + i + 1" data] 1(2) fin by auto
    with 1(1) t i have "arg_at data (off + i) (WPrim t w) (off + i + 5)"
      by (intro at_prim) (simp_all add: stands_Cons del: prim32.simps)
    with 1 show ?thesis by (intro exI[of _ "WPrim t w"]) (simp add: add.assoc)
  next
    case 2
    from short_runs_parse[OF sh 2(3)] have "l \<le> 4" "a < 2 ^ 28" by simp_all
    with 2(4) i big have e: "i' = i + 1 + l + a" by (simp add: size_simps)
    with fin 2(3) have "parseVarInt_span data (off + i + 1) (length data - (off + i + 1)) = Inr (a, l)"
      by (simp add: parseVarInt_def)
    then have at: "varint_at data (off + i + 1) a l"
      using e fin by (intro parse_span_complete[of _ _ "length data - (off + i + 1)"]) simp_all
    let ?s = "take a (drop (off + i + 1 + l) data)"
    have "stands data (off + i + 1 + l) ?s" using e fin by (intro stands_take) simp
    moreover have "length ?s = a" using e fin by simp
    ultimately have "strs_at data (off + i + 1) [?s] (off + i + 1 + l + a)"
      using at a_str[of data "off + i + 1" ?s l "[]"] no_strs by auto
    with 2(1) t i e have "arg_at data (off + i) (WStr ?s) (off + i')"
      by (intro at_str) (simp_all add: stands_Cons add.assoc)
    with 2(2) show ?thesis by (intro exI[of _ "WStr ?s"]) simp
  next
    case 3
    then show ?thesis using t i by (intro scan_array_at[OF sh v _ 3(2) fin]) (simp add: stands_Cons)
  next
    case 4
    then have "arg_at data (off + i) (WFd fd) (off + i')"
      using t i at_fd[of data "off + i" fd] by (simp add: stands_Cons)
    with 4 show ?thesis by (intro exI[of _ "WFd fd"]) simp
  qed
qed

lemma generic_scan_at_aux:
  assumes sh: "short_runs data" and v: "vec_ok data"
  shows "generic_scan data off i fds m = Some r \<Longrightarrow> off + i < length data + 2 ^ 44 \<Longrightarrow>
     (\<forall>j fds' m'. r = Inr (j, fds', m') \<longrightarrow> off + j < length data \<and> data ! (off + j) = 0 \<and> i \<le> j \<and>
       (\<exists>args. args_at data (off + i) args (off + j) \<and> m' = m @ wire_args_fds args))"
proof (induction rule: generic_scan_rule)
  case (oob i fds m e)
  then show ?case by simp
next
  case (fin i fds m)
  with vec_okD[OF v] have "sadd off i = off + i" by (simp add: size_simps)
  with fin have "off + i < length data \<and> data ! (off + i) = 0" by (simp add: vec_at_eq_Inr)
  then show ?case by (auto intro!: exI[of _ "[]"] no_args)
next
  case (bad i fds m b e)
  then show ?case by simp
next
  case (step i fds m b i' fds' m' r)
  have "sadd off i = off + i" using step.prems vec_okD[OF v] by (simp add: size_simps)
  with step.hyps(1) have i: "off + i < length data" "b = data ! (off + i)" by (simp_all add: vec_at_eq_Inr)
  have prog: "i < i'" "i' \<le> i + 2 ^ 44"
    using scan_arg_progress[OF sh _ step.hyps(3)] i(1) vec_okD[OF v] by simp_all
  show ?case
  proof (intro allI impI)
    fix j fds'' m''
    assume "r = Inr (j, fds'', m'')"
    with step.IH i(1) prog obtain args where j: "off + j < length data" "data ! (off + j) = 0" "i' \<le> j"
      and args: "args_at data (off + i') args (off + j)" "m'' = m' @ wire_args_fds args"
      by auto
    obtain a where a: "arg_at data (off + i) a (off + i')" "m' = m @ wire_fds a"
      using scan_arg_at[OF sh v i(1) step.hyps(3)[unfolded i(2)]] j by auto
    have "args_at data (off + i) (a # args) (off + j)" using a(1) args(1) by (rule an_arg)
    moreover have "m'' = m @ wire_args_fds (a # args)" using a(2) args(2) by simp
    ultimately have "\<exists>args. args_at data (off + i) args (off + j) \<and> m'' = m @ wire_args_fds args"
      by blast
    with j prog(1) show "off + j < length data \<and> data ! (off + j) = 0 \<and> i \<le> j \<and>
       (\<exists>args. args_at data (off + i) args (off + j) \<and> m'' = m @ wire_args_fds args)"
      by simp
  qed
qed

text \<open>A message the receiver accepts is an argument block, with its descriptors.\<close>

lemma parse_Generic_block:
  assumes sh: "short_runs data" and v: "vec_ok data" and off: "off < length data"
    and parse: "parse_Generic data fds off = Some (Inr (msg, n, rest))"
  shows "\<exists>args. block_at (gm_data msg) 0 args \<and> gm_fds msg = wire_args_fds args"
proof -
  from parse obtain j where scan: "generic_scan data off 11 fds [] = Some (Inr (j, rest, gm_fds msg))"
    and n: "n = sadd j 1" and span: "mem_range data (11 + off) (ssub n 11) = Inr (gm_data msg)"
    by (rule parse_Generic_cases)
  from generic_scan_at_aux[OF sh v scan] off
  obtain args where j: "off + j < length data" "data ! (off + j) = 0" "11 \<le> j"
    and args: "args_at data (off + 11) args (off + j)" "gm_fds msg = wire_args_fds args"
    by auto
  have "n = j + 1" using n j vec_okD[OF v] by (simp add: size_simps)
  with j vec_okD[OF v] have "ssub n 11 = j - 10" by (simp add: size_simps)
  with span have d: "gm_data msg = slice data (off + 11) (j - 10)"
    by (simp add: mem_range_eq_Inr slice_def add.commute)
  have "args_at (gm_data msg) 0 args (off + j - (off + 11))"
    unfolding d using j args(1) by (intro args_at_slice[of _ "off + 11"]) simp_all
  moreover have "off + j - (off + 11) < length (gm_data msg)" "gm_data msg ! (off + j - (off + 11)) = 0"
    unfolding d using j by (simp_all add: nth_slice)
  ultimately show ?thesis using args(2) unfolding block_at_def by blast
qed
end
