(* ===== verification/Protocol_Spec.thy ===== *)
theory Protocol_Spec
  imports Wire_Types
begin

text \<open>
  The data the generated code hands to the library (\<^verbatim>\<open>Types.hpp\<close>, \<^verbatim>\<open>Spec.hpp\<close>,
  \<^verbatim>\<open>ServerImpl.hpp\<close>, \<^verbatim>\<open>ClientImpl.hpp\<close>, \<^verbatim>\<open>ServerSpec.hpp\<close>), and the decimal numbers
  \<^verbatim>\<open>std::format\<close> prints and \<^verbatim>\<open>std::stoul\<close> reads.
\<close>

section \<open>Protocols\<close>

text \<open>\<^verbatim>\<open>SMethod\<close>: \<open>m_params\<close> are magic codes, an \<^verbatim>\<open>ARRAY\<close> followed by its element type.\<close>

record spec_method =
  m_idx :: u32
  m_params :: "byte list"
  m_returnsType :: string
  m_since :: u32
  m_isDestructor :: bool

record object_spec =
  objectName :: string
  c2s :: "spec_method list"
  s2c :: "spec_method list"

record protocol_spec =
  specName :: string
  specVer :: u32
  spec_objects :: "object_spec list"

text \<open>
  An implementation registered with a socket. \<open>oi_onBind\<close> is the user's callback, by the
  number under which the environment of the model knows it.
\<close>

record object_impl =
  oi_objectName :: string
  oi_version :: u32
  oi_onBind :: "nat option"

record protocol_impl =
  protocol :: protocol_spec
  implementation :: "object_impl list"

text \<open>The client's \<^verbatim>\<open>CServerSpec\<close> answers \<^verbatim>\<open>objects()\<close> with the empty vector.\<close>

definition server_spec :: "string \<Rightarrow> u32 \<Rightarrow> protocol_spec" where
  "server_spec name ver = \<lparr>specName = name, specVer = ver, spec_objects = []\<rparr>"

section \<open>Decimal numbers\<close>

definition digit_char :: "nat \<Rightarrow> char" where
  "digit_char d = char_of (48 + d)"

definition is_digit :: "char \<Rightarrow> bool" where
  "is_digit c \<longleftrightarrow> 48 \<le> (of_char c :: nat) \<and> (of_char c :: nat) \<le> 57"

fun dec :: "nat \<Rightarrow> string" where
  "dec n = (if n < 10 then [digit_char n] else dec (n div 10) @ [digit_char (n mod 10)])"

declare dec.simps [simp del]

definition dec_u32 :: "u32 \<Rightarrow> string" where
  "dec_u32 v = dec (unat v)"

fun read_dec :: "nat \<Rightarrow> string \<Rightarrow> nat" where
  "read_dec acc [] = acc"
| "read_dec acc (c # cs) = (if is_digit c then read_dec (acc * 10 + (of_char c - 48)) cs else acc)"

lemma of_char_digit_char [simp]: "d < 10 \<Longrightarrow> of_char (digit_char d) = 48 + d" for d :: nat
  by (simp add: digit_char_def)

lemma is_digit_digit_char [simp]: "d < 10 \<Longrightarrow> is_digit (digit_char d)"
  by (simp add: is_digit_def)

lemma read_dec_append:
  "list_all is_digit cs \<Longrightarrow> read_dec acc (cs @ ds) = read_dec (read_dec acc cs) ds"
  by (induction cs arbitrary: acc) simp_all

lemma dec_digits: "list_all is_digit (dec n)"
proof (induction n rule: dec.induct)
  case (1 n)
  then show ?case by (subst dec.simps) simp
qed

lemma read_dec_dec [simp]: "read_dec 0 (dec n) = n"
proof (induction n rule: dec.induct)
  case (1 n)
  then show ?case by (subst dec.simps) (simp add: read_dec_append dec_digits)
qed

lemma dec_nonempty [simp]: "dec n \<noteq> []"
  by (subst dec.simps) simp

end
