(* ===== verification/Wire_Object.thy ===== *)
theory Wire_Object
  imports Generic_Message Protocol_Spec
begin

text \<open>
  \<^verbatim>\<open>IWireObject\<close>: the marshalling of a call into a generic message, and the checking and
  unmarshalling of a received one into the argument vector of an \<^verbatim>\<open>ffi_call\<close>. The parts of
  \<^verbatim>\<open>call\<close> and \<^verbatim>\<open>called\<close> that touch the socket (sending, errors, destruction) are applied to
  the results defined here by the theories of the two ends.
\<close>

section \<open>State\<close>

text \<open>
  A listener is a function pointer, here a number; \<open>None\<close> is \<^verbatim>\<open>nullptr\<close>. An object whose
  creation failed has no specification.
\<close>

record wire_object =
  w_listeners :: "nat option list"
  w_id :: u32
  w_version :: u32
  w_seq :: u32
  w_destroyed :: bool
  w_protocolName :: string
  w_spec :: "object_spec option"

definition listen :: "u32 \<Rightarrow> nat option \<Rightarrow> wire_object \<Rightarrow> wire_object attempt" where
  "listen mid fn obj =
     (let ls = w_listeners obj;
          n = unat (mid + 1);
          ls = (if length ls \<le> unat mid then take n ls @ replicate (n - length ls) None else ls)
      in if unat mid < length ls then Inr (obj\<lparr>w_listeners := ls[unat mid := fn]\<rparr>)
         else Inl OutOfRange)"

section \<open>Calling: marshalling\<close>

text \<open>
  What the caller passes through the ellipsis: 32-bit integers (\<^verbatim>\<open>uint32_t\<close>, \<^verbatim>\<open>int32_t\<close>,
  object ids), a float by its bits, a C string (the bytes in memory, of which the code uses
  those before the first NUL), a descriptor, and a pointer with a count. Reading an argument
  as another type than was passed is undefined.
\<close>

datatype va =
    VaU32 u32
  | VaF32 u32
  | VaStr "byte list"
  | VaFd int
  | VaArr32 "u32 list"
  | VaArrStr "byte list list"
  | VaArrFd "int list"

definition c_str :: "byte list \<Rightarrow> byte list" where
  "c_str s = takeWhile (\<lambda>b. b \<noteq> 0) s"

datatype marshalled =
    Marshalled "byte list" "int list"
  | MarshalFailed

definition enc_c_str :: "byte list \<Rightarrow> byte list" where
  "enc_c_str s = encodeVarInt (length (c_str s)) @ c_str s"

fun encode_array :: "byte \<Rightarrow> va \<Rightarrow> (byte list \<times> int list) option attempt" where
  "encode_array t v =
     (case magic_of t of
        Some m \<Rightarrow>
          if m = TYPE_UINT \<or> m = TYPE_INT \<or> m = TYPE_F32 \<or> m = TYPE_OBJECT then
            (case v of
               VaArr32 vs \<Rightarrow> Inr (Some (encodeVarInt (length vs) @ concat (map u32_bytes vs), []))
             | _ \<Rightarrow> Inl Undefined)
          else if m = TYPE_FD then
            (case v of
               VaArrFd fds \<Rightarrow> Inr (Some (encodeVarInt (length fds), fds))
             | _ \<Rightarrow> Inl Undefined)
          else if m = TYPE_VARCHAR then
            (case v of
               VaArrStr ss \<Rightarrow> Inr (Some (encodeVarInt (length ss) @ concat (map enc_c_str ss), []))
             | _ \<Rightarrow> Inl Undefined)
          else Inr None
      | None \<Rightarrow> Inr None)"

fun encode_params :: "byte list \<Rightarrow> va list \<Rightarrow> byte list \<Rightarrow> int list \<Rightarrow> marshalled attempt" where
  "encode_params [] vas data fds = Inr (Marshalled data fds)"
| "encode_params (p # ps) vas data fds =
     (case magic_of p of
        Some m \<Rightarrow>
          if m = TYPE_UINT \<or> m = TYPE_INT \<or> m = TYPE_OBJECT then
            (case vas of
               VaU32 v # vas' \<Rightarrow> encode_params ps vas' (data @ [magic_code m] @ u32_bytes v) fds
             | _ \<Rightarrow> Inl Undefined)
          else if m = TYPE_F32 then
            (case vas of
               VaF32 v # vas' \<Rightarrow> encode_params ps vas' (data @ [magic_code TYPE_F32] @ u32_bytes v) fds
             | _ \<Rightarrow> Inl Undefined)
          else if m = TYPE_VARCHAR then
            (case vas of
               VaStr s # vas' \<Rightarrow>
                 encode_params ps vas' (data @ [magic_code TYPE_VARCHAR] @ enc_c_str s) fds
             | _ \<Rightarrow> Inl Undefined)
          else if m = TYPE_ARRAY then
            (case ps of
               [] \<Rightarrow> Inl OutOfRange
             | arrType # ps' \<Rightarrow>
                 (case vas of
                    [] \<Rightarrow> Inl Undefined
                  | v # vas' \<Rightarrow>
                      bnd (encode_array arrType v) (\<lambda>r. case r of
                        None \<Rightarrow> Inr MarshalFailed
                      | Some (body, fds') \<Rightarrow>
                          encode_params ps' vas' (data @ [magic_code TYPE_ARRAY, arrType] @ body) (fds @ fds'))))
          else if m = TYPE_FD then
            (case vas of
               VaFd fd # vas' \<Rightarrow> encode_params ps vas' (data @ [magic_code TYPE_FD]) (fds @ [fd])
             | _ \<Rightarrow> Inl Undefined)
          else encode_params ps vas data fds
      | None \<Rightarrow> encode_params ps vas data fds)"

text \<open>The three guards before anything is encoded, with the text of the error each raises.\<close>

definition call_error :: "bool \<Rightarrow> wire_object \<Rightarrow> spec_method list \<Rightarrow> u32 \<Rightarrow> string option" where
  "call_error server obj methods mid =
     (if length methods \<le> unat mid then
        Some (''core protocol error: invalid method '' @ dec_u32 mid @ '' for object '' @ dec_u32 (w_id obj))
      else
        let method = methods ! unat mid in
        if m_since method > w_version obj then
          Some (''method '' @ dec_u32 mid @ '' since '' @ dec_u32 (m_since method) @ '' but has '' @
                dec_u32 (w_version obj))
        else if m_returnsType method \<noteq> [] \<and> server then
          Some (''invalid method spec '' @ dec_u32 mid @ '' for object '' @ dec_u32 (w_id obj) @
                '' -> server cannot call returnsType methods'')
        else None)"

text \<open>
  The message a call that passes the guards builds; \<open>seqVal\<close> is the sequence the client
  drew for the object the method returns.
\<close>

definition call_message ::
  "wire_object \<Rightarrow> spec_method \<Rightarrow> u32 \<Rightarrow> u32 \<Rightarrow> va list \<Rightarrow> marshalled attempt" where
  "call_message obj method mid seqVal vas =
     (let data = [type_code MSG_GENERIC_PROTOCOL_MESSAGE, magic_code TYPE_OBJECT] @
                 u32_bytes (w_id obj) @ [magic_code TYPE_UINT] @ u32_bytes mid;
          data = (if m_returnsType method \<noteq> [] then data @ [magic_code TYPE_SEQ] @ u32_bytes seqVal else data)
      in bnd (encode_params (m_params method) vas data []) (\<lambda>r. case r of
           MarshalFailed \<Rightarrow> Inr MarshalFailed
         | Marshalled data fds \<Rightarrow> Inr (Marshalled (data @ [magic_code MAGIC_END]) fds)))"

section \<open>Being called: checking\<close>

text \<open>The libffi types, and \<^verbatim>\<open>FFI::ffiTypeFrom\<close> with its \<^verbatim>\<open>nullptr\<close> for other magics.\<close>

datatype ffi_type = FfiPointer | FfiUint32 | FfiSint32 | FfiFloat | FfiNull

definition ffiTypeFrom :: "byte \<Rightarrow> ffi_type" where
  "ffiTypeFrom b =
     (case magic_of b of
        Some TYPE_UINT \<Rightarrow> FfiUint32
      | Some TYPE_OBJECT \<Rightarrow> FfiUint32
      | Some TYPE_SEQ \<Rightarrow> FfiUint32
      | Some TYPE_FD \<Rightarrow> FfiSint32
      | Some TYPE_INT \<Rightarrow> FfiSint32
      | Some TYPE_F32 \<Rightarrow> FfiFloat
      | Some TYPE_VARCHAR \<Rightarrow> FfiPointer
      | Some TYPE_ARRAY \<Rightarrow> FfiPointer
      | _ \<Rightarrow> FfiNull)"

definition mismatch_error :: "u32 \<Rightarrow> nat \<Rightarrow> byte \<Rightarrow> byte \<Rightarrow> string" where
  "mismatch_error mid i expected got =
     ''method '' @ dec_u32 mid @ '' param idx '' @ dec i @ '' should be '' @ magicToString expected @
     '' but was '' @ magicToString got"

definition array_error :: string where
  "array_error = ''failed demarshaling array message''"

fun check_strings :: "byte list \<Rightarrow> nat \<Rightarrow> nat \<Rightarrow> nat \<Rightarrow> (string + nat) attempt" where
  "check_strings data dataI arrMessageLen 0 = Inr (Inr arrMessageLen)"
| "check_strings data dataI arrMessageLen (Suc n) =
     (if length data < sadd dataI arrMessageLen then Inr (Inl array_error)
      else
        bnd (parseVarInt_span data (sadd dataI arrMessageLen) (ssub (ssub (length data) dataI) arrMessageLen))
          (\<lambda>(strLen, strlenLen). check_strings data dataI (sadd arrMessageLen (sadd strLen strlenLen)) n))"

text \<open>
  An array parameter: \<open>t\<close> is the element type of the specification and \<open>i\<close> the index the
  specification has it at. The span for the count starts at \<open>dataI + 2\<close> and is
  \<^verbatim>\<open>data.size() - i\<close> long. The result is how far \<open>dataI\<close> moves.
\<close>

definition check_array :: "u32 \<Rightarrow> byte list \<Rightarrow> nat \<Rightarrow> byte \<Rightarrow> nat \<Rightarrow> byte \<Rightarrow> (string + nat) attempt" where
  "check_array mid data dataI wire i t =
     bnd (vec_idx data (sadd dataI 1)) (\<lambda>wireType.
     if t \<noteq> wireType then Inr (Inl (mismatch_error mid i (magic_code TYPE_ARRAY) wire))
     else
       bnd (parseVarInt_span data (sadd dataI 2) (ssub (length data) i)) (\<lambda>(arrLen, lenLen).
       let arrMessageLen = 2 + lenLen in
       if 10000 < arrLen then
         Inr (Inl (''method '' @ dec_u32 mid @ '' param idx '' @ dec i @ '' max array size of 10000 exceeded''))
       else
         (case magic_of t of
            None \<Rightarrow> Inr (Inl array_error)
          | Some m \<Rightarrow>
              if prim32 m then Inr (Inr (arrMessageLen + 4 * arrLen))
              else if m = TYPE_VARCHAR then check_strings data dataI arrMessageLen arrLen
              else if m = TYPE_FD then Inr (Inr arrMessageLen)
              else Inr (Inl array_error))))"

fun check_params ::
  "u32 \<Rightarrow> byte list \<Rightarrow> nat \<Rightarrow> byte list \<Rightarrow> nat \<Rightarrow> ffi_type list \<Rightarrow> (string + ffi_type list) attempt" where
  "check_params mid data i [] dataI types = Inr (Inr types)"
| "check_params mid data i (p # ps) dataI types =
     bnd (vec_idx data dataI) (\<lambda>wire.
     if p \<noteq> wire then Inr (Inl (mismatch_error mid i p wire))
     else
       let types = types @ [ffiTypeFrom p] in
       case magic_of p of
         None \<Rightarrow> check_params mid data (Suc i) ps dataI types
       | Some m \<Rightarrow>
           if m = MAGIC_END then
             (case ps of
                [] \<Rightarrow> Inr (Inr types)
              | _ # ps' \<Rightarrow> check_params mid data (Suc (Suc i)) ps' dataI types)
           else if m = TYPE_FD then check_params mid data (Suc i) ps (sadd dataI 1) types
           else if prim32 m then check_params mid data (Suc i) ps (sadd dataI 5) types
           else if m = TYPE_VARCHAR then
             bnd (parseVarInt_span data (sadd dataI 1) (ssub (length data) dataI)) (\<lambda>(a, b).
             check_params mid data (Suc i) ps (sadd dataI (sadd (sadd a b) 1)) types)
           else if m = TYPE_ARRAY then
             (case ps of
                [] \<Rightarrow> Inl OutOfRange
              | t # ps' \<Rightarrow>
                  bnd (check_array mid data dataI wire (Suc i) t) (\<lambda>r. case r of
                    Inl e \<Rightarrow> Inr (Inl e)
                  | Inr arrMessageLen \<Rightarrow>
                      check_params mid data (Suc (Suc i)) ps' (sadd dataI arrMessageLen) (types @ [FfiUint32])))
           else Inr (Inl ''object type is not impld''))"

section \<open>Being called: unmarshalling\<close>

text \<open>
  The buffers of the argument vector, by what the callee reads from them: itself, a 32-bit
  value, a C string, a pointer to the elements of an array.
\<close>

datatype avalue =
    AvSelf
  | AvU32 u32
  | AvS32 u32
  | AvFloat u32
  | AvFd int
  | AvStr "byte list"
  | AvPtr32 "u32 list"
  | AvPtrStr "byte list list"
  | AvPtrFd "int list"

fun read_u32_array :: "byte list \<Rightarrow> nat \<Rightarrow> nat \<Rightarrow> u32 list attempt" where
  "read_u32_array data p 0 = Inr []"
| "read_u32_array data p (Suc n) =
     bnd (mem_u32 data p) (\<lambda>v. bnd (read_u32_array data (p + 4) n) (\<lambda>vs. Inr (v # vs)))"

fun read_str_array :: "byte list \<Rightarrow> nat \<Rightarrow> nat \<Rightarrow> nat \<Rightarrow> (byte list list \<times> nat) attempt" where
  "read_str_array data i arrMessageLen 0 = Inr ([], arrMessageLen)"
| "read_str_array data i arrMessageLen (Suc n) =
     bnd (parseVarInt_span data (i + arrMessageLen) (ssub (length data) i)) (\<lambda>(strLen, strlenLen).
     bnd (copy_string data (i + arrMessageLen + strlenLen) strLen) (\<lambda>str.
     bnd (read_str_array data i (arrMessageLen + strlenLen + strLen) n) (\<lambda>(strs, arrMessageLen).
     Inr (str # strs, arrMessageLen))))"

fun read_fd_array :: "int list \<Rightarrow> nat \<Rightarrow> nat \<Rightarrow> int list attempt" where
  "read_fd_array fds fdNo 0 = Inr []"
| "read_fd_array fds fdNo (Suc n) =
     bnd (vec_at fds fdNo) (\<lambda>fd. bnd (read_fd_array fds (Suc fdNo) n) (\<lambda>xs. Inr (fd # xs)))"

definition decode_elems ::
  "byte list \<Rightarrow> int list \<Rightarrow> nat \<Rightarrow> nat \<Rightarrow> byte \<Rightarrow> nat \<Rightarrow> nat \<Rightarrow>
   (string + avalue list \<times> nat \<times> nat) attempt" where
  "decode_elems data fds i fdNo arrType arrLen arrMessageLen =
     (let sizeSlot = AvU32 (of_nat arrLen) in
      case magic_of arrType of
        None \<Rightarrow> Inr (Inl array_error)
      | Some m \<Rightarrow>
          if prim32 m then
            bnd (read_u32_array data (i + arrMessageLen) arrLen) (\<lambda>vs.
            Inr (Inr ([AvPtr32 vs, sizeSlot], i + arrMessageLen + 4 * arrLen, fdNo)))
          else if m = TYPE_VARCHAR then
            bnd (read_str_array data i arrMessageLen arrLen) (\<lambda>(strs, arrMessageLen).
            Inr (Inr ([AvPtrStr strs, sizeSlot], i + arrMessageLen, fdNo)))
          else if m = TYPE_FD then
            bnd (read_fd_array fds fdNo arrLen) (\<lambda>xs.
            Inr (Inr ([AvPtrFd xs, sizeSlot], i + arrMessageLen, fdNo + arrLen)))
          else Inr (Inl array_error))"

definition decode_array ::
  "byte list \<Rightarrow> int list \<Rightarrow> nat \<Rightarrow> nat \<Rightarrow> (string + avalue list \<times> nat \<times> nat) attempt" where
  "decode_array data fds i fdNo =
     bnd (vec_idx data (i + 1)) (\<lambda>arrType.
     bnd (parseVarInt_span data (i + 2) (ssub (length data) i)) (\<lambda>(arrLen, lenLen).
     decode_elems data fds i fdNo arrType arrLen (2 + lenLen)))"

text \<open>
  One iteration on a tag that is neither \<^verbatim>\<open>END\<close> nor unknown: the buffers it appends, and the
  indices after the \<^verbatim>\<open>++i\<close> of the loop. The additions cannot wrap where a value follows:
  the bytes were read.
\<close>

definition decode_one ::
  "byte list \<Rightarrow> int list \<Rightarrow> nat \<Rightarrow> nat \<Rightarrow> message_magic \<Rightarrow> (string + avalue list \<times> nat \<times> nat) attempt" where
  "decode_one data fds i fdNo m =
     (if m = TYPE_UINT \<or> m = TYPE_OBJECT \<or> m = TYPE_SEQ then
        bnd (mem_u32 data (i + 1)) (\<lambda>v. Inr (Inr ([AvU32 v], i + 5, fdNo)))
      else if m = TYPE_F32 then
        bnd (mem_u32 data (i + 1)) (\<lambda>v. Inr (Inr ([AvFloat v], i + 5, fdNo)))
      else if m = TYPE_INT then
        bnd (mem_u32 data (i + 1)) (\<lambda>v. Inr (Inr ([AvS32 v], i + 5, fdNo)))
      else if m = TYPE_VARCHAR then
        bnd (parseVarInt_span data (i + 1) (ssub (ssub (length data) i) 1)) (\<lambda>(strLen, len).
        bnd (copy_string data (i + len + 1) strLen) (\<lambda>str.
        Inr (Inr ([AvStr str], i + strLen + len + 1, fdNo))))
      else if m = TYPE_ARRAY then decode_array data fds i fdNo
      else if m = TYPE_FD then
        bnd (vec_at fds fdNo) (\<lambda>fd. Inr (Inr ([AvFd fd], i + 1, Suc fdNo)))
      else Inr (Inl ''object type is not impld''))"

lemma read_str_array_mono:
  "read_str_array data i n k = Inr (strs, n') \<Longrightarrow> n \<le> n'"
proof (induction k arbitrary: n strs)
  case 0
  then show ?case by simp
next
  case (Suc k)
  then obtain a l ss where "read_str_array data i (n + l + a) k = Inr (ss, n')"
    by (auto simp: bnd_eq_Inr)
  with Suc.IH show ?case by fastforce
qed

lemma decode_elems_progress:
  assumes "decode_elems data fds i fdNo t a n = Inr (Inr (vs, i', fdNo'))" and "0 < n"
  shows "i < i'"
proof (cases "magic_of t")
  case None
  with assms show ?thesis by (simp add: decode_elems_def)
next
  case (Some m)
  with assms have "i' = i + n + 4 * a \<or> i' = i + n \<or>
     (\<exists>strs n'. read_str_array data i n a = Inr (strs, n') \<and> i' = i + n')"
    by (auto simp: decode_elems_def bnd_eq_Inr Let_def split: if_splits)
  then show ?thesis using read_str_array_mono[of data i n a] assms(2) by fastforce
qed

lemma decode_array_progress:
  "decode_array data fds i fdNo = Inr (Inr (vs, i', fdNo')) \<Longrightarrow> i < i'"
  by (auto simp: decode_array_def bnd_eq_Inr dest: decode_elems_progress)

lemma decode_one_progress:
  assumes "decode_one data fds i fdNo m = Inr (Inr (vs, i', fdNo'))"
  shows "i < i'"
proof (cases "m = TYPE_ARRAY")
  case True
  with assms show ?thesis by (intro decode_array_progress) (simp add: decode_one_def)
next
  case False
  with assms show ?thesis
    unfolding decode_one_def by (auto simp: bnd_eq_Inr split: if_splits)
qed

function decode_args ::
  "byte list \<Rightarrow> int list \<Rightarrow> nat \<Rightarrow> nat \<Rightarrow> avalue list \<Rightarrow> (string + avalue list) attempt" where
  "decode_args data fds i fdNo avalues =
     (if length data \<le> i then Inr (Inr avalues)
      else
        case magic_of (data ! i) of
          None \<Rightarrow> decode_args data fds (Suc i) fdNo avalues
        | Some m \<Rightarrow>
            if m = MAGIC_END then Inr (Inr avalues)
            else
              (case decode_one data fds i fdNo m of
                 Inl e \<Rightarrow> Inl e
               | Inr (Inl msg) \<Rightarrow> Inr (Inl msg)
               | Inr (Inr (vs, i', fdNo')) \<Rightarrow> decode_args data fds i' fdNo' (avalues @ vs)))"
  by pat_completeness auto
termination
  by (relation "measure (\<lambda>(data, fds, i, fdNo, av). length data - i)")
    (auto dest: decode_one_progress)

declare decode_args.simps [simp del]

section \<open>Being called\<close>

text \<open>
  \<open>prep\<close> stands for \<^verbatim>\<open>ffi_prep_cif(...) == FFI_OK\<close>. \<open>CalledInvoke\<close> is the \<^verbatim>\<open>ffi_call\<close> of
  the registered function with as many buffers as the call interface has types; fewer are
  a read past the vector of buffers.
\<close>

datatype called_result =
    CalledError string
  | CalledErrd
  | CalledIgnored spec_method
  | CalledInvoke nat "avalue list" spec_method

definition wire_params :: "spec_method \<Rightarrow> byte list" where
  "wire_params method =
     (if m_returnsType method \<noteq> [] then [magic_code TYPE_SEQ] else []) @ m_params method"

definition called ::
  "(ffi_type list \<Rightarrow> bool) \<Rightarrow> wire_object \<Rightarrow> spec_method list \<Rightarrow> u32 \<Rightarrow> byte list \<Rightarrow> int list \<Rightarrow>
   called_result attempt" where
  "called prep obj methods mid data fds =
     (if length methods \<le> unat mid then
        Inr (CalledError (''invalid method '' @ dec_u32 mid @ '' for object '' @ dec_u32 (w_id obj)))
      else
        let method = methods ! unat mid in
        case (if length (w_listeners obj) \<le> unat mid then None else w_listeners obj ! unat mid) of
          None \<Rightarrow> Inr (CalledIgnored method)
        | Some fn \<Rightarrow>
            if m_since method > w_version obj then
              Inr (CalledError (''method '' @ dec_u32 mid @ '' since '' @ dec_u32 (m_since method) @
                                '' but has '' @ dec_u32 (w_version obj)))
            else
              bnd (check_params mid data 0 (wire_params method) 0 [FfiPointer]) (\<lambda>r. case r of
                Inl msg \<Rightarrow> Inr (CalledError msg)
              | Inr types \<Rightarrow>
                  if \<not> prep types then Inr CalledErrd
                  else
                    bnd (decode_args data fds 0 0 [AvSelf]) (\<lambda>r. case r of
                      Inl msg \<Rightarrow> Inr (CalledError msg)
                    | Inr avalues \<Rightarrow>
                        if length avalues < length types then Inl Undefined
                        else Inr (CalledInvoke fn (take (length types) avalues) method))))"

end
