(* ===== verification/Remote_Call.thy ===== *)
theory Remote_Call
  imports Argument_Layout Wire_Object
begin

text \<open>
  A call from end to end: what \<^verbatim>\<open>IWireObject::call\<close> puts on the wire, what
  \<^verbatim>\<open>CGenericProtocolMessage\<close> takes off it, and what \<^verbatim>\<open>IWireObject::called\<close> hands to the
  registered function. Both directions go through the argument blocks of
  \<open>Argument_Layout\<close>: every accepted message is one, and every sent message is one.
\<close>

section \<open>The parameters, types and values of an argument\<close>

fun arg_params :: "wire_arg \<Rightarrow> byte list" where
  "arg_params (WPrim m v) = [magic_code m]"
| "arg_params (WStr s) = [magic_code TYPE_VARCHAR]"
| "arg_params (WFd fd) = [magic_code TYPE_FD]"
| "arg_params (WArrPrim m vs) = [magic_code TYPE_ARRAY, magic_code m]"
| "arg_params (WArrStr ss) = [magic_code TYPE_ARRAY, magic_code TYPE_VARCHAR]"
| "arg_params (WArrFd fds) = [magic_code TYPE_ARRAY, magic_code TYPE_FD]"

fun arg_types :: "wire_arg \<Rightarrow> ffi_type list" where
  "arg_types (WPrim m v) = [ffiTypeFrom (magic_code m)]"
| "arg_types (WStr s) = [FfiPointer]"
| "arg_types (WFd fd) = [FfiSint32]"
| "arg_types _ = [FfiPointer, FfiUint32]"

fun arg_values :: "wire_arg \<Rightarrow> avalue list" where
  "arg_values (WPrim m v) = [if m = TYPE_F32 then AvFloat v else if m = TYPE_INT then AvS32 v else AvU32 v]"
| "arg_values (WStr s) = [AvStr s]"
| "arg_values (WFd fd) = [AvFd fd]"
| "arg_values (WArrPrim m vs) = [AvPtr32 vs, AvU32 (of_nat (length vs))]"
| "arg_values (WArrStr ss) = [AvPtrStr ss, AvU32 (of_nat (length ss))]"
| "arg_values (WArrFd fds) = [AvPtrFd fds, AvU32 (of_nat (length fds))]"

text \<open>The buffer an argument occupies has the size and kind its libffi type says.\<close>

fun ffi_fits :: "ffi_type \<Rightarrow> avalue \<Rightarrow> bool" where
  "ffi_fits FfiPointer v \<longleftrightarrow>
     (case v of AvSelf \<Rightarrow> True | AvStr _ \<Rightarrow> True | AvPtr32 _ \<Rightarrow> True | AvPtrStr _ \<Rightarrow> True | AvPtrFd _ \<Rightarrow> True | _ \<Rightarrow> False)"
| "ffi_fits FfiUint32 v \<longleftrightarrow> (case v of AvU32 _ \<Rightarrow> True | _ \<Rightarrow> False)"
| "ffi_fits FfiSint32 v \<longleftrightarrow> (case v of AvS32 _ \<Rightarrow> True | AvFd _ \<Rightarrow> True | _ \<Rightarrow> False)"
| "ffi_fits FfiFloat v \<longleftrightarrow> (case v of AvFloat _ \<Rightarrow> True | _ \<Rightarrow> False)"
| "ffi_fits FfiNull v \<longleftrightarrow> False"

text \<open>A parameter list of a specification: known types, and an element type after each array.\<close>

fun params_ok :: "byte list \<Rightarrow> bool" where
  "params_ok [] = True"
| "params_ok (p # ps) =
     (case magic_of p of
        None \<Rightarrow> False
      | Some m \<Rightarrow>
          if m = TYPE_ARRAY then
            (case ps of
               [] \<Rightarrow> False
             | t # ps' \<Rightarrow>
                 (case magic_of t of
                    None \<Rightarrow> False
                  | Some e \<Rightarrow> prim32 e \<or> e = TYPE_VARCHAR \<or> e = TYPE_FD) \<and> params_ok ps')
          else (prim32 m \<or> m = TYPE_VARCHAR \<or> m = TYPE_FD) \<and> params_ok ps)"

abbreviation args_params :: "wire_arg list \<Rightarrow> byte list" where
  "args_params args \<equiv> concat (map arg_params args)"

abbreviation args_types :: "wire_arg list \<Rightarrow> ffi_type list" where
  "args_types args \<equiv> concat (map arg_types args)"

abbreviation args_values :: "wire_arg list \<Rightarrow> avalue list" where
  "args_values args \<equiv> concat (map arg_values args)"

lemma arg_at_kind:
  "arg_at data p a q \<Longrightarrow>
     (case a of WPrim m _ \<Rightarrow> prim32 m | WArrPrim m _ \<Rightarrow> prim32 m | _ \<Rightarrow> True)"
  by (induction rule: arg_at.induct) simp_all

lemma arg_fits:
  "arg_at data p a q \<Longrightarrow> list_all2 ffi_fits (arg_types a) (arg_values a)"
  by (drule arg_at_kind) (cases a; auto simp: ffiTypeFrom_def)

lemma length_arg_types_values: "length (arg_types a) = length (arg_values a)"
  by (cases a) simp_all

lemma args_fit: "args_at data p args q \<Longrightarrow> list_all2 ffi_fits (args_types args) (args_values args)"
  by (induction rule: args_at.induct) (auto dest: arg_fits intro: list_all2_appendI)

fun arg_magic :: "wire_arg \<Rightarrow> message_magic" where
  "arg_magic (WPrim m v) = m"
| "arg_magic (WStr s) = TYPE_VARCHAR"
| "arg_magic (WFd fd) = TYPE_FD"
| "arg_magic _ = TYPE_ARRAY"

fun elem_magic :: "wire_arg \<Rightarrow> message_magic option" where
  "elem_magic (WArrPrim m vs) = Some m"
| "elem_magic (WArrStr ss) = Some TYPE_VARCHAR"
| "elem_magic (WArrFd fds) = Some TYPE_FD"
| "elem_magic _ = None"

lemma arg_params_magics:
  "arg_params a = magic_code (arg_magic a) # (case elem_magic a of None \<Rightarrow> [] | Some t \<Rightarrow> [magic_code t])"
  by (cases a) simp_all

lemma elem_magic_array: "elem_magic a = Some t \<Longrightarrow> arg_magic a = TYPE_ARRAY"
  by (cases a) simp_all

lemma arg_at_magic:
  "arg_at data p a q \<Longrightarrow> p < length data \<and> data ! p = magic_code (arg_magic a) \<and> arg_magic a \<noteq> MAGIC_END \<and>
     (elem_magic a = None \<longrightarrow> arg_magic a \<noteq> TYPE_ARRAY)"
  by (induction rule: arg_at.induct) (auto simp: stands_Cons)

lemma arg_at_elem:
  "arg_at data p a q \<Longrightarrow> elem_magic a = Some t \<Longrightarrow> p + 1 < length data \<and> data ! (p + 1) = magic_code t"
  by (induction rule: arg_at.induct) (auto simp: stands_Cons)

lemma args_at_prefix: "args_at data p args q \<Longrightarrow> args = pre @ post \<Longrightarrow> \<exists>r. args_at data p pre r"
proof (induction arbitrary: pre rule: args_at.induct)
  case (no_args p)
  then show ?case by (auto intro: args_at.no_args)
next
  case (an_arg p a q args r)
  then show ?case by (cases pre) (auto intro: args_at.intros)
qed

section \<open>Checking an argument block\<close>

lemma check_strings_at:
  "strs_at data p ss q \<Longrightarrow> p = i + n \<Longrightarrow> q < length data \<Longrightarrow> vec_ok data \<Longrightarrow>
     check_strings data i n (length ss) = Inr (Inr (q - i))"
proof (induction arbitrary: n rule: strs_at.induct)
  case (no_strs p)
  then show ?case by simp
next
  case (a_str p s l ss q)
  have big: "length data < 9223372036854775808" using a_str.prems(3) by (rule vec_okD)
  have q: "p + l + length s \<le> q" using strs_at_le[OF a_str.hyps(3)] by simp
  have "parseVarInt_span data (sadd i n) (ssub (ssub (length data) i) n) = Inr (length s, l)"
    using a_str.hyps(1) a_str.prems q big by (intro parse_span_at) (simp_all add: size_simps)
  moreover have "sadd n (sadd (length s) l) = n + (l + length s)" "sadd i n = i + n"
    using a_str.prems q big by (simp_all add: size_simps)
  ultimately show ?case
    using a_str.IH[of "n + (l + length s)"] a_str.prems q by simp
qed

lemma check_array_at:
  assumes at: "stands data p [magic_code TYPE_ARRAY, magic_code t]" "varint_at data (p + 2) a l"
    and lim: "a < array_limit" "q < length data" "j \<le> p + 1" and v: "vec_ok data"
    and elems: "prim32 t \<and> q = p + 2 + l + 4 * a \<or>
      t = TYPE_VARCHAR \<and> (\<exists>ss. length ss = a \<and> strs_at data (p + 2 + l) ss q) \<or>
      t = TYPE_FD \<and> q = p + 2 + l"
  shows "check_array mid data p w j (magic_code t) = Inr (Inr (q - p))"
proof -
  have big: "length data < 9223372036854775808" using v by (rule vec_okD)
  have len: "p + 2 + l \<le> length data" using varint_at_length[OF at(2)] by simp
  have pos: "sadd p 1 = p + 1" "sadd p 2 = p + 2" "ssub (length data) j = length data - j"
    using len lim big by (simp_all add: size_simps)
  have head: "vec_idx data (p + 1) = Inr (magic_code t)"
    using vec_idx_stands[OF at(1), of 1] by simp
  have num: "parseVarInt_span data (p + 2) (length data - j) = Inr (a, l)"
    using len lim by (intro parse_span_at[OF at(2)]) simp
  from lim have a: "\<not> 10000 < a" by (simp add: array_limit_def)
  from elems show ?thesis
  proof (elim disjE conjE exE)
    assume "prim32 t" "q = p + 2 + l + 4 * a"
    with head num a show ?thesis unfolding check_array_def pos by (simp add: Let_def del: prim32.simps)
  next
    fix ss
    assume "t = TYPE_VARCHAR" "length ss = a" "strs_at data (p + 2 + l) ss q"
    moreover from this check_strings_at[of data "p + 2 + l" ss q p "2 + l"] lim v
    have "check_strings data p (2 + l) a = Inr (Inr (q - p))" by (simp add: add.assoc)
    ultimately show ?thesis using head num a unfolding check_array_def pos by (simp add: Let_def)
  next
    assume "t = TYPE_FD" "q = p + 2 + l"
    with head num a show ?thesis unfolding check_array_def pos by (simp add: Let_def)
  qed
qed

lemma check_params_array:
  assumes at: "stands data p [magic_code TYPE_ARRAY, magic_code t]" "varint_at data (p + 2) a l"
    and lim: "a < array_limit" "q < length data" "j \<le> p" "p \<le> q" and v: "vec_ok data"
    and elems: "prim32 t \<and> q = p + 2 + l + 4 * a \<or>
      t = TYPE_VARCHAR \<and> (\<exists>ss. length ss = a \<and> strs_at data (p + 2 + l) ss q) \<or>
      t = TYPE_FD \<and> q = p + 2 + l"
  shows "check_params mid data j ([magic_code TYPE_ARRAY, magic_code t] @ ps) p types =
     check_params mid data (j + 2) ps q (types @ [FfiPointer, FfiUint32])"
proof -
  have "vec_idx data p = Inr (magic_code TYPE_ARRAY)" using vec_idx_stands[OF at(1), of 0] by simp
  moreover have "check_array mid data p (magic_code TYPE_ARRAY) (Suc j) (magic_code t) = Inr (Inr (q - p))"
    using lim by (intro check_array_at[OF at lim(1,2) _ v elems]) simp
  moreover have "sadd p (q - p) = q" using lim vec_okD[OF v] by (simp add: size_simps)
  ultimately show ?thesis by (simp add: ffiTypeFrom_def)
qed

lemma check_params_step:
  assumes "arg_at data p a q" and q: "q < length data" and j: "j \<le> p" and v: "vec_ok data"
  shows "check_params mid data j (arg_params a @ ps) p types =
     check_params mid data (j + length (arg_params a)) ps q (types @ arg_types a)"
  using assms(1)
proof cases
  case (at_prim m v')
  then have "vec_idx data p = Inr (magic_code m)" using vec_idx_stands[OF at_prim(4), of 0] by simp
  moreover have "sadd p 5 = p + 5" using at_prim(2) q vec_okD[OF v] by (simp add: size_simps)
  ultimately show ?thesis using at_prim by auto
next
  case (at_str s)
  then obtain l where s: "varint_at data (p + 1) (length s) l" "q = p + 1 + l + length s"
    by (auto simp: strs_at_simps)
  have "vec_idx data p = Inr (magic_code TYPE_VARCHAR)" using vec_idx_stands[OF at_str(2), of 0] by simp
  moreover have "parseVarInt_span data (p + 1) (length data - p) = Inr (length s, l)"
    using s q by (intro parse_span_at[OF s(1)]) simp
  moreover have "sadd p 1 = p + 1" "ssub (length data) p = length data - p"
    "sadd p (sadd (sadd (length s) l) 1) = q"
    using s q vec_okD[OF v] by (simp_all add: size_simps)
  ultimately show ?thesis using at_str(1) by (simp add: ffiTypeFrom_def)
next
  case (at_fd fd)
  then have "vec_idx data p = Inr (magic_code TYPE_FD)" using vec_idx_stands[OF at_fd(3), of 0] by simp
  moreover have "sadd p 1 = p + 1" using at_fd(2) q vec_okD[OF v] by (simp add: size_simps)
  ultimately show ?thesis using at_fd by (simp add: ffiTypeFrom_def)
next
  case (at_arr_prim m vs l)
  then show ?thesis
    using check_params_array[OF at_arr_prim(4,5,6) q j _ v, of mid ps types] arg_at_less[OF assms(1)] by simp
next
  case (at_arr_str ss l)
  have "\<exists>ts. length ts = length ss \<and> strs_at data (p + 2 + l) ts q" using at_arr_str(5) by blast
  with check_params_array[OF at_arr_str(2,3,4) q j _ v, of mid ps types] arg_at_less[OF assms(1)] at_arr_str(1)
  show ?thesis by simp
next
  case (at_arr_fd fds l)
  then show ?thesis
    using check_params_array[OF at_arr_fd(3,4,5) q j _ v, of mid ps types] arg_at_less[OF assms(1)] by simp
qed

lemma length_arg_params: "length (arg_params a) \<le> 2"
  by (cases a) simp_all

lemma arg_at_extent: "arg_at data p a q \<Longrightarrow> p + length (arg_params a) \<le> q"
  by (induction rule: arg_at.induct) (auto dest: strs_at_le)

lemma check_params_args:
  "args_at data p args q \<Longrightarrow> q < length data \<Longrightarrow> j \<le> p \<Longrightarrow> vec_ok data \<Longrightarrow>
     check_params mid data j (args_params args @ ps) p types =
     check_params mid data (j + length (args_params args)) ps q (types @ args_types args)"
proof (induction arbitrary: j types rule: args_at.induct)
  case (no_args p)
  then show ?case by simp
next
  case (an_arg p a q args r)
  have "q < length data" using args_at_le[OF an_arg.hyps(2)] an_arg.prems(1) by simp
  with check_params_step[OF an_arg.hyps(1) _ an_arg.prems(2,3)] an_arg.IH[OF an_arg.prems(1) _ an_arg.prems(3)]
    arg_at_extent[OF an_arg.hyps(1)] an_arg.prems(2)
  show ?case by (simp add: add.assoc)
qed

text \<open>
  Conversely the check passes only when the parameters are those of an initial segment of
  the block; otherwise it ends in the text of a protocol error.
\<close>

lemma params_ok_arg_params:
  "arg_at data p a q \<Longrightarrow> params_ok (arg_params a @ ps) \<Longrightarrow> params_ok ps"
  by (drule arg_at_magic) (auto simp: arg_params_magics split: option.splits if_splits dest: elem_magic_array)

lemma params_ok_Cons_nonzero: "params_ok (p # ps) \<Longrightarrow> p \<noteq> 0"
  by auto

lemma check_params_other:
  assumes at: "arg_at data p a q" and v: "vec_ok data" and q: "q < length data"
    and ok: "params_ok (x # ps)" and ne: "\<not> (\<exists>ps'. x # ps = arg_params a @ ps')"
  shows "\<exists>e. check_params mid data j (x # ps) p types = Inr (Inl e)"
proof (cases "x = magic_code (arg_magic a)")
  case False
  with arg_at_magic[OF at] show ?thesis by simp
next
  case x: True
  obtain t where t: "elem_magic a = Some t" using ne x by (cases "elem_magic a") (auto simp: arg_params_magics)
  note arr = elem_magic_array[OF t]
  obtain y ps' where y: "ps = y # ps'" "y \<noteq> magic_code t"
    using ok ne x t arr by (cases ps) (auto simp: arg_params_magics)
  have "sadd p 1 = p + 1" using q arg_at_less[OF at] vec_okD[OF v] by (simp add: size_simps)
  with arg_at_elem[OF at t] y(2) have "\<exists>e. check_array mid data p x (Suc j) y = Inr (Inl e)"
    by (simp add: check_array_def)
  with arg_at_magic[OF at] x arr y(1) show ?thesis by auto
qed

lemma check_params_prefix:
  "args_at data p args q \<Longrightarrow> q < length data \<Longrightarrow> data ! q = 0 \<Longrightarrow> j \<le> p \<Longrightarrow> vec_ok data \<Longrightarrow> params_ok ps \<Longrightarrow>
     (\<exists>e. check_params mid data j ps p types = Inr (Inl e)) \<or>
     (\<exists>pre post. args = pre @ post \<and> ps = args_params pre \<and>
        check_params mid data j ps p types = Inr (Inr (types @ args_types pre)))"
proof (induction arbitrary: j types ps rule: args_at.induct)
  case (no_args p)
  show ?case
  proof (cases ps)
    case (Cons x xs)
    with no_args params_ok_Cons_nonzero[of x xs] show ?thesis by auto
  qed simp
next
  case (an_arg p a q args r)
  have q: "q < length data" using args_at_le[OF an_arg.hyps(2)] an_arg.prems(1) by simp
  show ?case
  proof (cases ps)
    case Nil
    then show ?thesis by (intro disjI2) (rule exI[of _ "[]"], simp)
  next
    case (Cons x xs)
    show ?thesis
    proof (cases "\<exists>ps'. x # xs = arg_params a @ ps'")
      case False
      with check_params_other[OF an_arg.hyps(1) an_arg.prems(4) q] an_arg.prems(5) Cons
      show ?thesis by blast
    next
      case True
      then obtain ps' where ps: "ps = arg_params a @ ps'" using Cons by auto
      have step: "check_params mid data j ps p types =
          check_params mid data (j + length (arg_params a)) ps' q (types @ arg_types a)"
        unfolding ps by (rule check_params_step[OF an_arg.hyps(1) q an_arg.prems(3,4)])
      have j: "j + length (arg_params a) \<le> q" using arg_at_extent[OF an_arg.hyps(1)] an_arg.prems(3) by simp
      have "params_ok ps'" using params_ok_arg_params[OF an_arg.hyps(1)] an_arg.prems(5) ps by blast
      from an_arg.IH[OF an_arg.prems(1,2) j an_arg.prems(4) this, of "types @ arg_types a"]
      show ?thesis
      proof (elim disjE exE conjE, goal_cases)
        case (1 e)
        with step show ?case by auto
      next
        case (2 pre post)
        with step ps show ?case by (intro disjI2 exI[of _ "a # pre"] exI[of _ post]) simp
      qed
    qed
  qed
qed

section \<open>Unmarshalling an argument block\<close>

lemma read_u32_array_stands:
  "stands data p (concat (map u32_bytes vs)) \<Longrightarrow> read_u32_array data p (length vs) = Inr vs"
proof (induction vs arbitrary: p)
  case (Cons v vs)
  then have "stands data p (u32_bytes v)" "stands data (p + 4) (concat (map u32_bytes vs))" by simp_all
  with Cons.IH mem_u32_stands[of data p "u32_bytes v" 0] show ?case by simp
qed simp

lemma read_str_array_at:
  "strs_at data p ss q \<Longrightarrow> p = i + n \<Longrightarrow> q < length data \<Longrightarrow> vec_ok data \<Longrightarrow>
     read_str_array data i n (length ss) = Inr (ss, q - i)"
proof (induction arbitrary: n rule: strs_at.induct)
  case (no_strs p)
  then show ?case by simp
next
  case (a_str p s l ss q)
  have q: "p + l + length s \<le> q" using strs_at_le[OF a_str.hyps(3)] by simp
  have "parseVarInt_span data (i + n) (ssub (length data) i) = Inr (length s, l)"
    using a_str.hyps(1) a_str.prems(1,2) q vec_okD[OF a_str.prems(3)]
    by (intro parse_span_at) (simp_all add: size_simps)
  moreover have "copy_string data (i + n + l) (length s) = Inr s"
    using mem_range_stands[OF a_str.hyps(2), of 0 "length s"] a_str.prems(1,2) q vec_okD[OF a_str.prems(3)]
    by (simp add: copy_string_small)
  moreover have "p + l + length s = i + (n + l + length s)" using a_str.prems(1) by simp
  ultimately show ?case using a_str.IH[OF _ a_str.prems(2,3)] by (simp add: add.assoc)
qed

lemma read_fd_array_stands:
  "stands fds k xs \<Longrightarrow> read_fd_array fds k (length xs) = Inr xs"
  by (induction xs arbitrary: k) (simp_all add: stands_Cons)

lemma decode_array_at:
  assumes at: "stands data p [magic_code TYPE_ARRAY, magic_code t]" "varint_at data (p + 2) a l"
    and v: "vec_ok data"
  shows "decode_array data fds p k = decode_elems data fds p k (magic_code t) a (2 + l)"
proof -
  have "vec_idx data (p + 1) = Inr (magic_code t)" using vec_idx_stands[OF at(1), of 1] by simp
  moreover have "parseVarInt_span data (p + 2) (ssub (length data) p) = Inr (a, l)"
    using varint_at_length[OF at(2)] vec_okD[OF v]
    by (intro parse_span_at[OF at(2)]) (auto simp: ssub_small)
  ultimately show ?thesis by (simp add: decode_array_def)
qed

lemma decode_one_at:
  assumes at: "arg_at data p a q" and q: "q < length data" and v: "vec_ok data"
    and fds: "stands fds k (wire_fds a)" and m: "m = arg_magic a"
  shows "decode_one data fds p k m = Inr (Inr (arg_values a, q, k + length (wire_fds a)))"
  using at
proof cases
  case (at_prim m' w)
  then have "stands data p [magic_code m']" "stands data (p + 1) (u32_bytes w)" by (simp_all add: stands_Cons)
  with mem_u32_stands[OF this(2), of 0] have "mem_u32 data (p + 1) = Inr w" by simp
  with at_prim m show ?thesis by (auto simp: decode_one_def)
next
  case (at_str s)
  then obtain l where s: "varint_at data (p + 1) (length s) l" "stands data (p + 1 + l) s" "q = p + 1 + l + length s"
    by (auto simp: strs_at_simps)
  have "parseVarInt_span data (p + 1) (ssub (ssub (length data) p) 1) = Inr (length s, l)"
    using s q vec_okD[OF v] by (intro parse_span_at[OF s(1)]) (simp add: size_simps)
  moreover have "copy_string data (p + l + 1) (length s) = Inr s"
    using mem_range_stands[OF s(2), of 0 "length s"] s(3) q vec_okD[OF v] by (simp add: ac_simps copy_string_small)
  ultimately show ?thesis using at_str(1) s(3) m by (simp add: decode_one_def)
next
  case (at_fd fd)
  with m fds show ?thesis by (simp add: decode_one_def stands_Cons)
next
  case (at_arr_prim m' vs l)
  have "decode_array data fds p k = Inr (Inr ([AvPtr32 vs, AvU32 (of_nat (length vs))], q, k))"
    using decode_array_at[OF at_arr_prim(4,5) v] read_u32_array_stands[OF at_arr_prim(7)] at_arr_prim(2,3)
    by (simp add: decode_elems_def Let_def add.assoc del: prim32.simps)
  then show ?thesis using at_arr_prim(1) m by (simp add: decode_one_def)
next
  case (at_arr_str ss l)
  have "read_str_array data p (2 + l) (length ss) = Inr (ss, q - p)"
    using at_arr_str(5) q v by (intro read_str_array_at) (simp_all add: add.assoc)
  then have "decode_array data fds p k = Inr (Inr ([AvPtrStr ss, AvU32 (of_nat (length ss))], q, k))"
    using decode_array_at[OF at_arr_str(2,3) v] arg_at_less[OF at]
    by (simp add: decode_elems_def Let_def)
  then show ?thesis using at_arr_str(1) m by (simp add: decode_one_def)
next
  case (at_arr_fd xs l)
  have "decode_array data fds p k = Inr (Inr ([AvPtrFd xs, AvU32 (of_nat (length xs))], q, k + length xs))"
    using decode_array_at[OF at_arr_fd(3,4) v] read_fd_array_stands[of fds k xs] fds at_arr_fd(1,2)
    by (simp add: decode_elems_def Let_def)
  then show ?thesis using at_arr_fd(1) m by (simp add: decode_one_def)
qed

lemma decode_args_at:
  "args_at data p args q \<Longrightarrow> q < length data \<Longrightarrow> data ! q = 0 \<Longrightarrow> vec_ok data \<Longrightarrow>
     stands fds k (wire_args_fds args) \<Longrightarrow>
     decode_args data fds p k av = Inr (Inr (av @ args_values args))"
proof (induction arbitrary: k av rule: args_at.induct)
  case (no_args p)
  then show ?case by (subst decode_args.simps) simp
next
  case (an_arg p a q args r)
  have q: "q < length data" using args_at_le[OF an_arg.hyps(2)] an_arg.prems(1) by simp
  have fds: "stands fds k (wire_fds a)" "stands fds (k + length (wire_fds a)) (wire_args_fds args)"
    using an_arg.prems(4) by simp_all
  have "decode_args data fds p k av =
      decode_args data fds q (k + length (wire_fds a)) (av @ arg_values a)"
    using arg_at_magic[OF an_arg.hyps(1)] decode_one_at[OF an_arg.hyps(1) q an_arg.prems(3) fds(1) refl]
    by (subst decode_args.simps) simp
  with an_arg.IH[OF an_arg.prems(1-3) fds(2)] show ?case by simp
qed

section \<open>Marshalling\<close>

text \<open>
  What a caller may pass: the receiver's limits, no sequence (the library draws them), and C
  strings, which end at their first NUL. \<open>arg_va\<close> is the variadic argument for a value.
\<close>

fun call_ok :: "wire_arg \<Rightarrow> bool" where
  "call_ok (WPrim m v) = (prim32 m \<and> m \<noteq> TYPE_SEQ)"
| "call_ok (WStr s) = (length s < 2 ^ 28 \<and> 0 \<notin> set s)"
| "call_ok (WFd fd) = True"
| "call_ok (WArrPrim m vs) = (prim32 m \<and> m \<noteq> TYPE_SEQ \<and> length vs < array_limit)"
| "call_ok (WArrStr ss) = (length ss < array_limit \<and> (\<forall>s \<in> set ss. length s < 2 ^ 28 \<and> 0 \<notin> set s))"
| "call_ok (WArrFd fds) = (length fds < array_limit)"

fun arg_va :: "wire_arg \<Rightarrow> va" where
  "arg_va (WPrim m v) = (if m = TYPE_F32 then VaF32 v else VaU32 v)"
| "arg_va (WStr s) = VaStr (s @ [0])"
| "arg_va (WFd fd) = VaFd fd"
| "arg_va (WArrPrim m vs) = VaArr32 vs"
| "arg_va (WArrStr ss) = VaArrStr (map (\<lambda>s. s @ [0]) ss)"
| "arg_va (WArrFd fds) = VaArrFd fds"

lemma call_ok_wire_ok: "call_ok a \<Longrightarrow> wire_ok a"
  by (cases a) auto

lemma c_str_terminated [simp]: "0 \<notin> set s \<Longrightarrow> c_str (s @ 0 # junk) = s"
  unfolding c_str_def by (induction s) auto

lemma enc_c_str_terminated: "0 \<notin> set s \<Longrightarrow> enc_c_str (s @ [0]) = enc_bytes s"
  by (simp add: enc_c_str_def enc_bytes_def)

lemma encode_params_step:
  assumes "call_ok a"
  shows "encode_params (arg_params a @ ps) (arg_va a # vas) data fds =
           encode_params ps vas (data @ wire_bytes a) (fds @ wire_fds a)"
proof (cases a)
  case (WPrim m v)
  with assms show ?thesis by auto
next
  case (WStr s)
  with assms show ?thesis by (simp add: enc_c_str_terminated)
next
  case (WFd fd)
  then show ?thesis by simp
next
  case (WArrPrim m vs)
  with assms show ?thesis by auto
next
  case (WArrStr ss)
  with assms have "map (\<lambda>s. enc_c_str (s @ [0])) ss = map enc_bytes ss"
    by (auto simp: enc_c_str_terminated)
  with WArrStr show ?thesis by (simp add: o_def cong: map_cong)
next
  case (WArrFd xs)
  then show ?thesis by simp
qed

lemma encode_params_args:
  "list_all call_ok args \<Longrightarrow> encode_params (args_params args) (map arg_va args) data fds =
     Inr (Marshalled (data @ wire_args args) (fds @ wire_args_fds args))"
proof (induction args arbitrary: data fds)
  case (Cons a args)
  then show ?case by (simp add: encode_params_step)
qed simp

text \<open>The arguments on the wire: the sequence of a \<^verbatim>\<open>returns\<close> method comes first.\<close>

definition sent_args :: "spec_method \<Rightarrow> u32 \<Rightarrow> wire_arg list \<Rightarrow> wire_arg list" where
  "sent_args method seqVal args =
     (if m_returnsType method \<noteq> [] then [WPrim TYPE_SEQ seqVal] else []) @ args"

lemma call_message_args:
  assumes "m_params method = args_params args" and "list_all call_ok args"
  shows "call_message obj method mid seqVal (map arg_va args) =
    Inr (Marshalled (enc_Generic (w_id obj) mid (sent_args method seqVal args)) (wire_args_fds args))"
  using assms by (simp add: call_message_def encode_params_args sent_args_def enc_Generic_def)

section \<open>Being called\<close>

lemma listener_some:
  "mid < length ls \<Longrightarrow> ls ! mid = Some fn \<Longrightarrow> (if length ls \<le> mid then None else ls ! mid) = Some fn"
  by simp

text \<open>
  \<^verbatim>\<open>called\<close> on an argument block: never a read outside the message, never an exception; the
  function is invoked with values that fit the types of the call interface.
\<close>

lemma called_block:
  assumes blk: "block_at data 0 args" and v: "vec_ok data" and fds: "stands fds 0 (wire_args_fds args)"
    and ok: "unat mid < length methods \<Longrightarrow> params_ok (m_params (methods ! unat mid))"
  shows "\<exists>r. called prep obj methods mid data fds = Inr r \<and>
    (\<forall>fn vals method. r = CalledInvoke fn vals method \<longrightarrow>
       (\<exists>pre post. args = pre @ post \<and> wire_params method = args_params pre \<and> vals = AvSelf # args_values pre))"
proof -
  from blk obtain q where at: "args_at data 0 args q" and q: "q < length data" "data ! q = 0"
    by (auto simp: block_at_def)
  have dec: "decode_args data fds 0 0 [AvSelf] = Inr (Inr (AvSelf # args_values args))"
    using decode_args_at[OF at q v fds] by simp
  let ?meth = "methods ! unat mid"
  have chk: "(\<exists>e. check_params mid data 0 (wire_params ?meth) 0 [FfiPointer] = Inr (Inl e)) \<or>
     (\<exists>pre post. args = pre @ post \<and> wire_params ?meth = args_params pre \<and>
        check_params mid data 0 (wire_params ?meth) 0 [FfiPointer] = Inr (Inr ([FfiPointer] @ args_types pre)))"
    if "unat mid < length methods"
    using ok[OF that] by (intro check_params_prefix[OF at q _ v]) (auto simp: wire_params_def)
  have len: "length (args_types pre) = length (args_values pre)" for pre
    by (induction pre) (auto simp: length_arg_types_values)
  show ?thesis
    unfolding called_def Let_def
    using chk dec by (auto split: option.split simp: len) blast
qed

section \<open>Properties\<close>

text \<open>C1. A call made with arguments its method declares arrives: wherever in a receive buffer
  the bytes land, the receiver takes the message out with exactly its length and its
  descriptors, and calls the registered function with the values that were passed (after
  the sequence, when the method returns an object).\<close>

theorem remote_call_delivered:
  assumes "unat mid < length methods" and "method = methods ! unat mid"
    and "m_params method = args_params args" and "list_all call_ok args"
    and "unat mid < length (w_listeners peer)" and "w_listeners peer ! unat mid = Some fn"
    and "m_since method \<le> w_version peer"
    and "prep (FfiPointer # args_types (sent_args method seqVal args))"
    and "vec_ok (before @ enc_Generic (w_id obj) mid (sent_args method seqVal args) @ after)"
  shows "\<exists>msg fds m.
    call_message obj method mid seqVal (map arg_va args) = Inr (Marshalled msg fds) \<and>
    parse_Generic (before @ msg @ after) (fds @ queue) (length before) = Some (Inr (m, length msg, queue)) \<and>
    gm_object m = w_id obj \<and> gm_method m = mid \<and>
    called prep peer methods mid (gm_data m) (gm_fds m) =
      Inr (CalledInvoke fn (AvSelf # args_values (sent_args method seqVal args)) method)"
proof -
  let ?args = "sent_args method seqVal args"
  let ?msg = "enc_Generic (w_id obj) mid ?args" and ?fds = "wire_args_fds args"
  let ?m = "\<lparr>gm_object = w_id obj, gm_method = mid, gm_data = wire_args ?args @ [0], gm_fds = ?fds\<rparr>"
  have ok: "list_all wire_ok ?args"
    using assms(4) by (auto simp: sent_args_def list_all_iff dest: call_ok_wire_ok)
  have fds: "wire_args_fds ?args = ?fds" by (simp add: sent_args_def)
  have parse: "parse_Generic (before @ ?msg @ after) (?fds @ queue) (length before) =
      Some (Inr (?m, length ?msg, queue))"
    using parse_Generic_stands[OF ok stands_mid assms(9), of queue] by (simp only: fds)
  have v: "vec_ok (gm_data ?m)" using assms(9) by (simp add: vec_ok_def)
  have at: "args_at (gm_data ?m) 0 ?args (length (wire_args ?args))"
    using args_at_wire_args[OF ok, of "gm_data ?m" 0] by (simp add: stands_prefix)
  have params: "wire_params method = args_params ?args @ []"
    using assms(3) by (simp add: wire_params_def sent_args_def)
  have chk: "check_params mid (gm_data ?m) 0 (wire_params method) 0 [FfiPointer] =
      Inr (Inr (FfiPointer # args_types ?args))"
    using check_params_args[OF at _ _ v, of 0 mid "[]"] unfolding params by simp
  have dec: "decode_args (gm_data ?m) (gm_fds ?m) 0 0 [AvSelf] = Inr (Inr (AvSelf # args_values ?args))"
    using decode_args_at[OF at _ _ v, of "gm_fds ?m" 0] by (simp add: fds)
  have len: "length (args_types as) = length (args_values as)" for as
    by (induction as) (simp_all add: length_arg_types_values)
  have "called prep peer methods mid (gm_data ?m) (gm_fds ?m) =
      Inr (CalledInvoke fn (AvSelf # args_values ?args) method)"
    using assms(1,2,5,6,7,8) chk dec by (simp add: called_def Let_def len linorder_not_less)
  with call_message_args[OF assms(3,4)] parse show ?thesis by fastforce
qed

definition example_method :: spec_method where
  "example_method = \<lparr>m_idx = 0, m_params = [0x10, 0x20, 0x21, 0x40], m_returnsType = ''my_object'',
     m_since = 1, m_isDestructor = False\<rparr>"

definition example_object :: wire_object where
  "example_object = \<lparr>w_listeners = [Some 5], w_id = 3, w_version = 1, w_seq = 1, w_destroyed = False,
     w_protocolName = ''my_protocol'', w_spec = None\<rparr>"

theorem remote_call_delivered_witness:
  "\<exists>msg fds m.
    call_message example_object example_method 0 9 [VaU32 7, VaStr [104, 105, 0], VaArrFd [4, 5]] =
      Inr (Marshalled msg fds) \<and>
    parse_Generic ([0] @ msg @ [13, 0x10]) (fds @ [6]) (length [0 :: byte]) = Some (Inr (m, length msg, [6])) \<and>
    gm_object m = w_id example_object \<and> gm_method m = 0 \<and>
    called (\<lambda>_. True) example_object [example_method] 0 (gm_data m) (gm_fds m) =
      Inr (CalledInvoke 5 [AvSelf, AvU32 9, AvU32 7, AvStr [104, 105], AvPtrFd [4, 5], AvU32 2] example_method)"
proof -
  let ?args = "[WPrim TYPE_UINT 7, WStr [104, 105], WArrFd [4, 5]]"
  have "vec_ok ([0] @ enc_Generic (w_id example_object) 0 (sent_args example_method 9 ?args) @ [13, 0x10])"
    using length_encodeVarInt(1)[of "Suc (Suc 0)"]
    by (simp add: vec_ok_def sent_args_def example_method_def enc_bytes_def)
  from remote_call_delivered[of 0 "[example_method]" example_method ?args example_object 5 "\<lambda>_. True" 9,
      OF _ _ _ _ _ _ _ _ this, of "[6]"]
  show ?thesis by (simp add: sent_args_def example_method_def example_object_def array_limit_def)
qed

lemma accepted_call_fits:
  assumes "short_runs buffer" and "vec_ok buffer" and "off < length buffer"
    and "parse_Generic buffer queue off = Some (Inr (m, n, rest))"
    and "\<forall>method \<in> set methods. params_ok (m_params method)"
  shows "\<exists>r. called prep obj methods (gm_method m) (gm_data m) (gm_fds m) = Inr r \<and>
    (\<forall>fn vals method. r = CalledInvoke fn vals method \<longrightarrow>
       (\<exists>args. wire_params method = args_params args \<and> vals = AvSelf # args_values args \<and>
          list_all2 ffi_fits (FfiPointer # args_types args) vals))"
proof -
  obtain args where blk: "block_at (gm_data m) 0 args" and fds: "gm_fds m = wire_args_fds args"
    using parse_Generic_block[OF assms(1-4)] by blast
  obtain r where "parse_Generic buffer queue off = Some r"
    "\<forall>m n rest. r = Inr (m, n, rest) \<longrightarrow> 12 \<le> n \<and> off + n \<le> length buffer \<and> length (gm_data m) = n - 11"
    using parse_Generic_returns[OF assms(1-3)] by blast
  with assms(2,4) have v: "vec_ok (gm_data m)" by (auto simp: vec_ok_def)
  have "stands (gm_fds m) 0 (wire_args_fds args)" by (simp add: fds)
  from called_block[OF blk v this, of "gm_method m" methods prep obj] assms(5)
  obtain r where r: "called prep obj methods (gm_method m) (gm_data m) (gm_fds m) = Inr r"
    and inv: "\<forall>fn vals method. r = CalledInvoke fn vals method \<longrightarrow>
       (\<exists>pre post. args = pre @ post \<and> wire_params method = args_params pre \<and> vals = AvSelf # args_values pre)"
    by auto
  from blk obtain q where at: "args_at (gm_data m) 0 args q" by (auto simp: block_at_def)
  have fit: "list_all2 ffi_fits (args_types pre) (args_values pre)" if "args = pre @ post" for pre post
    using at that by (auto dest: args_at_prefix args_fit)
  show ?thesis
    using r inv fit by (intro exI[of _ r]) fastforce
qed


text \<open>C8. No message the parser accepts can make the demarshalling of a call read outside the
  message, run out of descriptors or throw: it ends in a protocol error, is ignored, or
  calls the function with one buffer per type of the call interface, each of the kind the
  type says. The buffer must hold no run of four continuation bytes.\<close>

theorem received_call_safe:
  assumes "short_runs buffer" and "vec_ok buffer" and "off < length buffer"
    and "parse_Generic buffer queue off = Some (Inr (m, n, rest))"
    and "\<forall>method \<in> set methods. params_ok (m_params method)"
  shows "\<exists>r. called prep obj methods (gm_method m) (gm_data m) (gm_fds m) = Inr r \<and>
    (\<forall>fn vals method. r = CalledInvoke fn vals method \<longrightarrow>
       (\<exists>args. wire_params method = args_params args \<and> vals = AvSelf # args_values args \<and>
          list_all2 ffi_fits (FfiPointer # args_types args) vals))"
  using assms by (rule accepted_call_fits)

theorem received_call_safe_witness:
  "\<exists>r. called (\<lambda>_. True) example_object [example_method] 0
     ([0x13, 9, 0, 0, 0, 0x10, 7, 0, 0, 0, 0x20, 2, 104, 105, 0x21, 0x40, 1, 0]) [4] = Inr r"
proof -
  let ?b = "[100, 0x22, 3, 0, 0, 0, 0x10, 0, 0, 0, 0, 0x13, 9, 0, 0, 0, 0x10, 7, 0, 0, 0, 0x20, 2, 104, 105,
     0x21, 0x40, 1, 0] :: byte list"
  let ?args = "[WPrim TYPE_SEQ 9, WPrim TYPE_UINT 7, WStr [104, 105], WArrFd [4]]"
  have v: "vec_ok ?b" by (simp add: vec_ok_def)
  have bytes: "wire_args ?args = [0x13, 9, 0, 0, 0, 0x10, 7, 0, 0, 0, 0x20, 2, 104, 105, 0x21, 0x40, 1]"
    by (simp add: enc_bytes_def encodeVarInt_vlq vlq.simps u32_bytes_def drop_bit_eq_div)
  have enc: "?b = enc_Generic 3 0 ?args"
    by (simp only: enc_Generic_def bytes) (simp add: u32_bytes_def)
  let ?m = "\<lparr>gm_object = 3, gm_method = 0, gm_data = wire_args ?args @ [0], gm_fds = wire_args_fds ?args\<rparr>"
  have "parse_Generic ?b (wire_args_fds ?args @ []) 0 = Some (Inr (?m, length (enc_Generic 3 0 ?args), []))"
    by (rule parse_Generic_stands[OF _ _ v]) (simp_all add: array_limit_def enc del: wire_args_simps)
  moreover have "short_runs ?b" by (simp add: short_runs_def list_all_iff bit_numeral_word_iff)
  moreover have "\<forall>method \<in> set [example_method]. params_ok (m_params method)"
    by (simp add: example_method_def)
  ultimately have "\<exists>r. called (\<lambda>_. True) example_object [example_method] (gm_method ?m) (gm_data ?m) (gm_fds ?m) = Inr r"
    using received_call_safe[of ?b 0 _ ?m _ _ "[example_method]" "\<lambda>_. True" example_object, OF _ v]
    by fastforce
  then show ?thesis unfolding generic_msg.select_convs bytes by simp
qed

end
