(* ===== verification/Control_Messages.thy ===== *)
theory Control_Messages
  imports Codec
begin

text \<open>
  The nine control messages (\<^verbatim>\<open>src/core/message/messages/*.cpp\<close>). For each: \<open>enc_X\<close> is
  the sending constructor's \<^verbatim>\<open>m_data\<close>; \<open>parse_X\<close> the parsing constructor's body, which
  returns the fields and \<^verbatim>\<open>m_len\<close>; \<open>ok_X\<close> the contents the format can carry; and an
  interpretation of the codec contract. The copies kept for \<^verbatim>\<open>HW_TRACE\<close> are not modelled.
\<close>

section \<open>Hello\<close>

definition enc_Hello :: "unit \<Rightarrow> byte list" where
  "enc_Hello _ =
     [type_code MSG_SUP, magic_code TYPE_VARCHAR, 0x03] @ bytes_of ''VAX'' @ [magic_code MAGIC_END]"

definition parse_Hello :: "byte list \<Rightarrow> nat \<Rightarrow> (unit \<times> nat) attempt" where
  "parse_Hello data offset =
     bnd (vec_at data offset) (\<lambda>_.
     bnd (mem_range data offset 7) (\<lambda>got.
     bnd (ensure (got = enc_Hello ())) (\<lambda>_.
     Inr ((), 7))))"

definition ok_Hello :: "unit \<Rightarrow> bool" where
  "ok_Hello _ = True"

lemma length_enc_Hello [simp]: "length (enc_Hello u) = 7"
  by (simp add: enc_Hello_def)

lemma enc_Hello_last: "enc_Hello u ! 6 = 0"
  by (simp add: enc_Hello_def bytes_of_def)

interpretation hello: bounded_codec enc_Hello parse_Hello ok_Hello
proof unfold_locales
  fix m :: unit and data :: "byte list" and off
  assume st: "stands data off (enc_Hello m)"
  then have "mem_range data off 7 = Inr (enc_Hello m)" by (simp add: stands_def mem_range_def)
  moreover have "off < length data" using stands_length[OF st] by simp
  ultimately show "parse_Hello data off = Inr (m, length (enc_Hello m))"
    by (simp add: parse_Hello_def)
next
  fix data :: "byte list" and off n and m :: unit
  assume "parse_Hello data off = Inr (m, n)"
  then have n: "n = 7" and len: "off + 7 \<le> length data" and got: "take 7 (drop off data) = enc_Hello ()"
    by (auto simp: parse_Hello_def attempt_iffs)
  from len got have "stands data off (enc_Hello ())" by (simp add: stands_def)
  from stands_nth[OF this, of 6] have "data ! (off + 6) = 0" by (simp add: enc_Hello_last)
  with n len show "0 < n \<and> off + n \<le> length data \<and> data ! (off + n - 1) = 0" by (simp add: add.commute)
qed

section \<open>Handshake begin\<close>

definition enc_HandshakeBegin :: "u32 list \<Rightarrow> byte list" where
  "enc_HandshakeBegin versions =
     [type_code MSG_HANDSHAKE_BEGIN, magic_code TYPE_ARRAY, magic_code TYPE_UINT] @
     encodeVarInt (length versions) @ concat (map u32_bytes versions) @ [magic_code MAGIC_END]"

fun read_u32s :: "byte list \<Rightarrow> nat \<Rightarrow> nat \<Rightarrow> u32 list attempt" where
  "read_u32s data p 0 = Inr []"
| "read_u32s data p (Suc n) =
     bnd (at_u32 data p) (\<lambda>v. bnd (read_u32s data (p + 4) n) (\<lambda>vs. Inr (v # vs)))"

definition parse_HandshakeBegin :: "byte list \<Rightarrow> nat \<Rightarrow> (u32 list \<times> nat) attempt" where
  "parse_HandshakeBegin data offset =
     bnd (vec_at data (offset + 0)) (\<lambda>b0.
     bnd (ensure (b0 = type_code MSG_HANDSHAKE_BEGIN)) (\<lambda>_.
     bnd (vec_at data (offset + 1)) (\<lambda>b1.
     bnd (ensure (b1 = magic_code TYPE_ARRAY)) (\<lambda>_.
     bnd (vec_at data (offset + 2)) (\<lambda>b2.
     bnd (ensure (b2 = magic_code TYPE_UINT)) (\<lambda>_.
     let needle = 3 in
     bnd (parseVarInt data (offset + needle)) (\<lambda>(nVers, varIntLen).
     let needle = needle + varIntLen in
     bnd (ensure (\<not> 256 \<le> nVers)) (\<lambda>_.
     bnd (read_u32s data (offset + needle) nVers) (\<lambda>versions.
     let needle = needle + nVers * 4 in
     bnd (vec_at data (offset + needle)) (\<lambda>e.
     bnd (ensure (e = magic_code MAGIC_END)) (\<lambda>_.
     Inr (versions, needle + 1))))))))))))"

definition ok_HandshakeBegin :: "u32 list \<Rightarrow> bool" where
  "ok_HandshakeBegin versions \<longleftrightarrow> length versions < 256"

lemma read_u32s_stands:
  "stands data p (concat (map u32_bytes vs)) \<Longrightarrow> read_u32s data p (length vs) = Inr vs"
proof (induction vs arbitrary: p)
  case Nil
  then show ?case by simp
next
  case (Cons v vs)
  then have "stands data p (u32_bytes v)" and "stands data (p + 4) (concat (map u32_bytes vs))"
    by simp_all
  with Cons.IH at_u32_stands[of data p "u32_bytes v" 0] show ?case by simp
qed

lemma read_u32s_length:
  "read_u32s data p n = Inr vs \<Longrightarrow> length vs = n \<and> (n = 0 \<or> p + n * 4 \<le> length data)"
proof (induction n arbitrary: p vs)
  case 0
  then show ?case by simp
next
  case (Suc n)
  then obtain v ws where "p + 4 \<le> length data" "read_u32s data (p + 4) n = Inr ws" "vs = v # ws"
    by (auto simp: attempt_iffs)
  with Suc.IH[of "p + 4" ws] show ?case by auto
qed

lemma length_concat_u32 [simp]: "length (concat (map u32_bytes vs)) = 4 * length vs"
  by (induction vs) simp_all

interpretation handshake_begin: bounded_codec enc_HandshakeBegin parse_HandshakeBegin ok_HandshakeBegin
proof unfold_locales
  fix m data off
  assume ok: "ok_HandshakeBegin m" and st: "stands data off (enc_HandshakeBegin m)"
  let ?h = "[type_code MSG_HANDSHAKE_BEGIN, magic_code TYPE_ARRAY, magic_code TYPE_UINT]"
  let ?l = "encodeVarInt (length m)"
  from st have parts: "stands data off ?h" "stands data (off + 3) ?l"
    "stands data (off + 3 + length ?l) (concat (map u32_bytes m))"
    "stands data (off + 3 + length ?l + 4 * length m) [0]"
    unfolding enc_HandshakeBegin_def stands_append by (simp_all add: add.assoc eval_nat_numeral)
  from parts(2) ok have "parseVarInt data (off + 3) = Inr (length m, length ?l)"
    by (intro parse_encode) (simp_all add: ok_HandshakeBegin_def)
  moreover note read_u32s_stands[OF parts(3)]
  ultimately show "parse_HandshakeBegin data off = Inr (m, length (enc_HandshakeBegin m))"
    using vec_at_stands[OF parts(1), of 0] vec_at_stands[OF parts(1), of 1]
      vec_at_stands[OF parts(1), of 2] vec_at_stands[OF parts(4), of 0] ok
    by (simp add: parse_HandshakeBegin_def enc_HandshakeBegin_def ok_HandshakeBegin_def
        add.assoc mult.commute)
next
  fix data off m n
  assume "parse_HandshakeBegin data off = Inr (m, n)"
  then obtain l k where "n = (3 + l + k * 4) + 1"
    "off + (3 + l + k * 4) < length data" "data ! (off + (3 + l + k * 4)) = 0"
    by (auto simp: parse_HandshakeBegin_def attempt_iffs Let_def)
  then show "0 < n \<and> off + n \<le> length data \<and> data ! (off + n - 1) = 0" by (simp add: ac_simps)
qed

section \<open>Handshake acknowledgement\<close>

definition enc_HandshakeAck :: "u32 \<Rightarrow> byte list" where
  "enc_HandshakeAck version =
     [type_code MSG_HANDSHAKE_ACK, magic_code TYPE_UINT] @ u32_bytes version @ [magic_code MAGIC_END]"

definition parse_HandshakeAck :: "byte list \<Rightarrow> nat \<Rightarrow> (u32 \<times> nat) attempt" where
  "parse_HandshakeAck data offset =
     bnd (vec_at data (offset + 0)) (\<lambda>b0.
     bnd (ensure (b0 = type_code MSG_HANDSHAKE_ACK)) (\<lambda>_.
     bnd (vec_at data (offset + 1)) (\<lambda>b1.
     bnd (ensure (b1 = magic_code TYPE_UINT)) (\<lambda>_.
     let needle = 2 in
     bnd (vec_at data (offset + needle + 4)) (\<lambda>e.
     bnd (ensure (e = magic_code MAGIC_END)) (\<lambda>_.
     bnd (ensure (\<not> ssub (ssub (length data) offset) needle < 4)) (\<lambda>_.
     bnd (at_u32 data (offset + needle)) (\<lambda>version.
     let needle = needle + 4 in
     Inr (version, needle + 1)))))))))"

definition ok_HandshakeAck :: "u32 \<Rightarrow> bool" where
  "ok_HandshakeAck _ = True"

interpretation handshake_ack: bounded_codec enc_HandshakeAck parse_HandshakeAck ok_HandshakeAck
proof unfold_locales
  fix m and data :: "byte list" and off
  assume st: "stands data off (enc_HandshakeAck m)" and v: "vec_ok data"
  have len: "off + 7 \<le> length data" using stands_length[OF st] by (simp add: enc_HandshakeAck_def)
  have "vec_at data off = Inr 3" "vec_at data (off + 1) = Inr 0x10" "vec_at data (off + 6) = Inr 0"
    "at_u32 data (off + 2) = Inr m"
    using vec_at_stands[OF st, of 0] vec_at_stands[OF st, of 1] vec_at_stands[OF st, of 6]
      at_u32_stands[OF st, of 2] by (simp_all add: enc_HandshakeAck_def nth_append)
  with len vec_okD[OF v] show "parse_HandshakeAck data off = Inr (m, length (enc_HandshakeAck m))"
    by (simp add: parse_HandshakeAck_def enc_HandshakeAck_def size_simps add.assoc del: add_2_eq_Suc')
next
  fix data :: "byte list" and off n and m :: u32
  assume "parse_HandshakeAck data off = Inr (m, n)"
  then show "0 < n \<and> off + n \<le> length data \<and> data ! (off + n - 1) = 0"
    by (auto simp: parse_HandshakeAck_def attempt_iffs Let_def)
qed

section \<open>Handshake protocols\<close>

definition enc_string :: "string \<Rightarrow> byte list" where
  "enc_string s = encodeVarInt (length s) @ bytes_of s"

definition enc_HandshakeProtocols :: "string list \<Rightarrow> byte list" where
  "enc_HandshakeProtocols protocols =
     [type_code MSG_HANDSHAKE_PROTOCOLS, magic_code TYPE_ARRAY, magic_code TYPE_VARCHAR] @
     encodeVarInt (length protocols) @ concat (map enc_string protocols) @ [magic_code MAGIC_END]"

text \<open>
  The loop over the elements returns the strings and how far \<^verbatim>\<open>needle\<close> advanced. After
  the view over the string is known to lie in the buffer the additions cannot wrap.
\<close>

fun read_strings :: "byte list \<Rightarrow> nat \<Rightarrow> nat \<Rightarrow> nat \<Rightarrow> (string list \<times> nat) attempt" where
  "read_strings data offset needle 0 = Inr ([], needle)"
| "read_strings data offset needle (Suc n) =
     bnd (parseVarInt data (offset + needle)) (\<lambda>(strLen, strLenLen).
     bnd (vec_at data (offset + needle + strLenLen)) (\<lambda>_.
     bnd (copy_string data (offset + needle + strLenLen) strLen) (\<lambda>str.
     bnd (read_strings data offset (needle + (strLen + strLenLen)) n) (\<lambda>(strs, needle).
     Inr (string_of str # strs, needle)))))"

definition parse_HandshakeProtocols :: "byte list \<Rightarrow> nat \<Rightarrow> (string list \<times> nat) attempt" where
  "parse_HandshakeProtocols data offset =
     bnd (vec_at data (offset + 0)) (\<lambda>b0.
     bnd (ensure (b0 = type_code MSG_HANDSHAKE_PROTOCOLS)) (\<lambda>_.
     bnd (vec_at data (offset + 1)) (\<lambda>b1.
     bnd (ensure (b1 = magic_code TYPE_ARRAY)) (\<lambda>_.
     bnd (vec_at data (offset + 2)) (\<lambda>b2.
     bnd (ensure (b2 = magic_code TYPE_VARCHAR)) (\<lambda>_.
     let needle = 3 in
     bnd (parseVarInt data (offset + needle)) (\<lambda>(els, varIntLen).
     let needle = needle + varIntLen in
     bnd (ensure (\<not> 2048 \<le> els)) (\<lambda>_.
     bnd (read_strings data offset needle els) (\<lambda>(protocols, needle).
     bnd (vec_at data (offset + needle)) (\<lambda>e.
     bnd (ensure (e = magic_code MAGIC_END)) (\<lambda>_.
     Inr (protocols, needle + 1))))))))))))"

definition ok_string :: "string \<Rightarrow> bool" where
  "ok_string s \<longleftrightarrow> length s < 2 ^ 28"

definition ok_HandshakeProtocols :: "string list \<Rightarrow> bool" where
  "ok_HandshakeProtocols protocols \<longleftrightarrow> length protocols < 2048 \<and> list_all ok_string protocols"

lemma length_enc_string: "length (enc_string s) = length s + length (encodeVarInt (length s))"
  by (simp add: enc_string_def)

lemma enc_string_parts:
  assumes "ok_string s" and "stands data p (enc_string s)"
  shows "parseVarInt data p = Inr (length s, length (encodeVarInt (length s)))"
    and "copy_string data (p + length (encodeVarInt (length s))) (length s) = Inr (bytes_of s)"
proof -
  from assms(2) have st: "stands data p (encodeVarInt (length s))"
    "stands data (p + length (encodeVarInt (length s))) (bytes_of s)"
    by (simp_all add: enc_string_def)
  show "parseVarInt data p = Inr (length s, length (encodeVarInt (length s)))"
    using st(1) assms(1) by (intro parse_encode) (simp_all add: ok_string_def)
  show "copy_string data (p + length (encodeVarInt (length s))) (length s) = Inr (bytes_of s)"
    using mem_range_stands[OF st(2), of 0 "length s"] assms(1) by (simp add: copy_string_small ok_string_def)
qed

lemma read_strings_stands:
  assumes "list_all ok_string ss" and "stands data (offset + needle) (concat (map enc_string ss) @ [e])"
  shows "read_strings data offset needle (length ss) =
           Inr (ss, needle + length (concat (map enc_string ss)))"
  using assms
proof (induction ss arbitrary: needle)
  case Nil
  then show ?case by simp
next
  case (Cons s ss)
  let ?l = "length (encodeVarInt (length s))"
  have st: "stands data (offset + needle) (enc_string s)"
    "stands data (offset + (needle + (length s + ?l))) (concat (map enc_string ss) @ [e])"
    using Cons.prems(2) by (simp_all add: length_enc_string ac_simps)
  have "offset + needle + ?l < length data"
    using stands_length[OF st(2)] by simp
  with Cons.prems(1) enc_string_parts[OF _ st(1)] Cons.IH[OF _ st(2)] show ?case
    by (simp add: length_enc_string add.assoc)
qed

interpretation handshake_protocols:
  bounded_codec enc_HandshakeProtocols parse_HandshakeProtocols ok_HandshakeProtocols
proof unfold_locales
  fix m data off
  assume ok: "ok_HandshakeProtocols m" and st: "stands data off (enc_HandshakeProtocols m)"
  let ?h = "[type_code MSG_HANDSHAKE_PROTOCOLS, magic_code TYPE_ARRAY, magic_code TYPE_VARCHAR]"
  let ?l = "encodeVarInt (length m)" and ?s = "concat (map enc_string m)"
  from st have parts: "stands data off ?h" "stands data (off + 3) ?l"
    "stands data (off + (3 + length ?l)) (?s @ [0])"
    "stands data (off + (3 + length ?l + length ?s)) [0]"
    unfolding enc_HandshakeProtocols_def stands_append by (simp_all add: add.assoc eval_nat_numeral)
  from parts(2) ok have "parseVarInt data (off + 3) = Inr (length m, length ?l)"
    by (intro parse_encode) (simp_all add: ok_HandshakeProtocols_def)
  moreover have "read_strings data off (3 + length ?l) (length m) = Inr (m, 3 + length ?l + length ?s)"
    using ok parts(3) by (intro read_strings_stands[where e = 0]) (simp_all add: ok_HandshakeProtocols_def)
  ultimately show "parse_HandshakeProtocols data off = Inr (m, length (enc_HandshakeProtocols m))"
    using vec_at_stands[OF parts(1), of 0] vec_at_stands[OF parts(1), of 1]
      vec_at_stands[OF parts(1), of 2] vec_at_stands[OF parts(4), of 0] ok
    by (simp add: parse_HandshakeProtocols_def enc_HandshakeProtocols_def ok_HandshakeProtocols_def
        add.assoc)
next
  fix data off m n
  assume "parse_HandshakeProtocols data off = Inr (m, n)"
  then obtain p where "n = p + 1" "off + p < length data" "data ! (off + p) = 0"
    by (auto simp: parse_HandshakeProtocols_def attempt_iffs Let_def)
  then show "0 < n \<and> off + n \<le> length data \<and> data ! (off + n - 1) = 0" by simp
qed

section \<open>Bind protocol\<close>

record bind_msg =
  bind_protocol :: string
  bind_seq :: u32
  bind_version :: u32

definition enc_BindProtocol :: "bind_msg \<Rightarrow> byte list" where
  "enc_BindProtocol m =
     [type_code MSG_BIND_PROTOCOL, magic_code TYPE_UINT] @ u32_bytes (bind_seq m) @
     [magic_code TYPE_VARCHAR] @ enc_string (bind_protocol m) @
     [magic_code TYPE_UINT] @ u32_bytes (bind_version m) @ [magic_code MAGIC_END]"

definition parse_BindProtocol :: "byte list \<Rightarrow> nat \<Rightarrow> (bind_msg \<times> nat) attempt" where
  "parse_BindProtocol data offset =
     bnd (vec_at data (offset + 0)) (\<lambda>b0.
     bnd (ensure (b0 = type_code MSG_BIND_PROTOCOL)) (\<lambda>_.
     bnd (vec_at data (offset + 1)) (\<lambda>b1.
     bnd (ensure (b1 = magic_code TYPE_UINT)) (\<lambda>_.
     bnd (at_u32 data (offset + 2)) (\<lambda>seq.
     bnd (vec_at data (offset + 6)) (\<lambda>b6.
     bnd (ensure (b6 = magic_code TYPE_VARCHAR)) (\<lambda>_.
     let needle = 7 in
     bnd (parseVarInt data (offset + needle)) (\<lambda>(strLen, varIntLen).
     let needle = needle + varIntLen in
     bnd (vec_at data (offset + needle)) (\<lambda>_.
     bnd (copy_string data (offset + needle) strLen) (\<lambda>protocol.
     let needle = needle + strLen in
     bnd (vec_at data (offset + needle)) (\<lambda>b.
     bnd (ensure (b = magic_code TYPE_UINT)) (\<lambda>_.
     bnd (at_u32 data (offset + needle + 1)) (\<lambda>version.
     bnd (ensure (version \<noteq> 0)) (\<lambda>_.
     let needle = needle + 5 in
     bnd (vec_at data (offset + needle)) (\<lambda>e.
     bnd (ensure (e = magic_code MAGIC_END)) (\<lambda>_.
     Inr (\<lparr>bind_protocol = string_of protocol, bind_seq = seq, bind_version = version\<rparr>,
          needle + 1)))))))))))))))))"

definition ok_BindProtocol :: "bind_msg \<Rightarrow> bool" where
  "ok_BindProtocol m \<longleftrightarrow> ok_string (bind_protocol m) \<and> bind_version m \<noteq> 0"

interpretation bind_protocol_msg: bounded_codec enc_BindProtocol parse_BindProtocol ok_BindProtocol
proof unfold_locales
  fix m data off
  assume ok: "ok_BindProtocol m" and st: "stands data off (enc_BindProtocol m)"
  let ?s = "bind_protocol m"
  let ?l = "length (encodeVarInt (length ?s))"
  let ?q = "off + (7 + (?l + length ?s))"
  from st have parts: "stands data off [type_code MSG_BIND_PROTOCOL, magic_code TYPE_UINT]"
    "stands data (off + 2) (u32_bytes (bind_seq m))" "stands data (off + 6) [magic_code TYPE_VARCHAR]"
    "stands data (off + 7) (enc_string ?s)" "stands data ?q [magic_code TYPE_UINT]"
    "stands data (?q + 1) (u32_bytes (bind_version m))" "stands data (?q + 5) [0]"
    unfolding enc_BindProtocol_def stands_append by (simp_all add: enc_string_def add.assoc eval_nat_numeral)
  have len: "?q + 6 \<le> length data" using stands_length[OF parts(7)] by simp
  have str: "parseVarInt data (off + 7) = Inr (length ?s, ?l)"
    "copy_string data (off + (7 + ?l)) (length ?s) = Inr (bytes_of ?s)"
    using enc_string_parts[OF _ parts(4)] ok by (simp_all add: ok_BindProtocol_def add.assoc)
  from parts have eqs: "vec_at data off = Inr 10" "vec_at data (off + 1) = Inr 0x10"
    "at_u32 data (off + 2) = Inr (bind_seq m)" "vec_at data (off + 6) = Inr 0x20"
    "vec_at data ?q = Inr 0x10" "at_u32 data (?q + 1) = Inr (bind_version m)" "vec_at data (?q + 5) = Inr 0"
    using vec_at_stands[OF parts(1), of 0] vec_at_stands[OF parts(1), of 1]
      at_u32_stands[OF parts(2), of 0] vec_at_stands[OF parts(3), of 0]
      vec_at_stands[OF parts(5), of 0] at_u32_stands[OF parts(6), of 0]
      vec_at_stands[OF parts(7), of 0]
    by simp_all
  with str ok len show "parse_BindProtocol data off = Inr (m, length (enc_BindProtocol m))"
    by (simp add: parse_BindProtocol_def enc_BindProtocol_def enc_string_def ok_BindProtocol_def
        add.assoc del: add_2_eq_Suc')
next
  fix data off m n
  assume "parse_BindProtocol data off = Inr (m, n)"
  then obtain p where "n = 13 + p" "off + (12 + p) < length data" "data ! (off + (12 + p)) = 0"
    by (auto simp: parse_BindProtocol_def attempt_iffs Let_def add.assoc)
  then show "0 < n \<and> off + n \<le> length data \<and> data ! (off + n - 1) = 0" by (simp add: ac_simps)
qed

section \<open>New object\<close>

record new_object_msg =
  no_seq :: u32
  no_id :: u32

definition enc_NewObject :: "new_object_msg \<Rightarrow> byte list" where
  "enc_NewObject m =
     [type_code MSG_NEW_OBJECT, magic_code TYPE_UINT] @ u32_bytes (no_id m) @
     [magic_code TYPE_UINT] @ u32_bytes (no_seq m) @ [magic_code MAGIC_END]"

definition parse_NewObject :: "byte list \<Rightarrow> nat \<Rightarrow> (new_object_msg \<times> nat) attempt" where
  "parse_NewObject data offset =
     bnd (vec_at data (offset + 0)) (\<lambda>b0.
     bnd (ensure (b0 = type_code MSG_NEW_OBJECT)) (\<lambda>_.
     bnd (vec_at data (offset + 1)) (\<lambda>b1.
     bnd (ensure (b1 = magic_code TYPE_UINT)) (\<lambda>_.
     bnd (ensure (\<not> ssub (ssub (length data) offset) 2 < 4)) (\<lambda>_.
     bnd (at_u32 data (offset + 2)) (\<lambda>id.
     bnd (vec_at data (offset + 6)) (\<lambda>b6.
     bnd (ensure (b6 = magic_code TYPE_UINT)) (\<lambda>_.
     bnd (at_u32 data (offset + 7)) (\<lambda>seq.
     bnd (vec_at data (offset + 11)) (\<lambda>e.
     bnd (ensure (e = magic_code MAGIC_END)) (\<lambda>_.
     Inr (\<lparr>no_seq = seq, no_id = id\<rparr>, 12))))))))))))"

definition ok_NewObject :: "new_object_msg \<Rightarrow> bool" where
  "ok_NewObject _ = True"

interpretation new_object: bounded_codec enc_NewObject parse_NewObject ok_NewObject
proof unfold_locales
  fix m and data :: "byte list" and off
  assume st: "stands data off (enc_NewObject m)" and v: "vec_ok data"
  have len: "off + 12 \<le> length data" using stands_length[OF st] by (simp add: enc_NewObject_def)
  have "vec_at data off = Inr 11" "vec_at data (off + 1) = Inr 0x10" "vec_at data (off + 6) = Inr 0x10"
    "at_u32 data (off + 2) = Inr (no_id m)" "at_u32 data (off + 7) = Inr (no_seq m)"
    "vec_at data (off + 11) = Inr 0"
    using vec_at_stands[OF st, of 0] vec_at_stands[OF st, of 1] vec_at_stands[OF st, of 6]
      at_u32_stands[OF st, of 2] at_u32_stands[OF st, of 7] vec_at_stands[OF st, of 11]
    by (simp_all add: enc_NewObject_def nth_append)
  with len vec_okD[OF v] show "parse_NewObject data off = Inr (m, length (enc_NewObject m))"
    by (simp add: parse_NewObject_def enc_NewObject_def size_simps add.assoc del: add_2_eq_Suc')
next
  fix data :: "byte list" and off n m
  assume "parse_NewObject data off = Inr (m, n)"
  then show "0 < n \<and> off + n \<le> length data \<and> data ! (off + n - 1) = 0"
    by (auto simp: parse_NewObject_def attempt_iffs Let_def add.commute)
qed

section \<open>Fatal protocol error\<close>

record fatal_msg =
  fe_objectId :: u32
  fe_errorId :: u32
  fe_errorMsg :: string

definition enc_FatalError :: "fatal_msg \<Rightarrow> byte list" where
  "enc_FatalError m =
     [type_code MSG_FATAL_PROTOCOL_ERROR, magic_code TYPE_UINT] @ u32_bytes (fe_objectId m) @
     [magic_code TYPE_UINT] @ u32_bytes (fe_errorId m) @ [magic_code TYPE_VARCHAR] @
     enc_string (fe_errorMsg m) @ [magic_code MAGIC_END]"

definition parse_FatalError :: "byte list \<Rightarrow> nat \<Rightarrow> (fatal_msg \<times> nat) attempt" where
  "parse_FatalError data offset =
     bnd (vec_at data (offset + 0)) (\<lambda>b0.
     bnd (ensure (b0 = type_code MSG_FATAL_PROTOCOL_ERROR)) (\<lambda>_.
     bnd (vec_at data (offset + 1)) (\<lambda>b1.
     bnd (ensure (b1 = magic_code TYPE_UINT)) (\<lambda>_.
     bnd (at_u32 data (offset + 2)) (\<lambda>objectId.
     bnd (vec_at data (offset + 6)) (\<lambda>b6.
     bnd (ensure (b6 = magic_code TYPE_UINT)) (\<lambda>_.
     bnd (at_u32 data (offset + 7)) (\<lambda>errorId.
     bnd (vec_at data (offset + 11)) (\<lambda>b11.
     bnd (ensure (b11 = magic_code TYPE_VARCHAR)) (\<lambda>_.
     let needle = 12 in
     bnd (parseVarInt data (offset + needle)) (\<lambda>(strLen, strLenLen).
     let needle = needle + strLenLen in
     bnd (copy_string data (offset + needle) strLen) (\<lambda>errorMsg.
     let needle = needle + strLen in
     bnd (vec_at data (offset + needle)) (\<lambda>e.
     bnd (ensure (e = magic_code MAGIC_END)) (\<lambda>_.
     Inr (\<lparr>fe_objectId = objectId, fe_errorId = errorId, fe_errorMsg = string_of errorMsg\<rparr>,
          needle + 1)))))))))))))))"

definition ok_FatalError :: "fatal_msg \<Rightarrow> bool" where
  "ok_FatalError m \<longleftrightarrow> ok_string (fe_errorMsg m)"

interpretation fatal_error: bounded_codec enc_FatalError parse_FatalError ok_FatalError
proof unfold_locales
  fix m data off
  assume ok: "ok_FatalError m" and st: "stands data off (enc_FatalError m)"
  let ?s = "fe_errorMsg m"
  let ?l = "length (encodeVarInt (length ?s))"
  let ?q = "off + (12 + (?l + length ?s))"
  from st have parts: "stands data off [type_code MSG_FATAL_PROTOCOL_ERROR, magic_code TYPE_UINT]"
    "stands data (off + 2) (u32_bytes (fe_objectId m))" "stands data (off + 6) [magic_code TYPE_UINT]"
    "stands data (off + 7) (u32_bytes (fe_errorId m))" "stands data (off + 11) [magic_code TYPE_VARCHAR]"
    "stands data (off + 12) (enc_string ?s)" "stands data ?q [0]"
    unfolding enc_FatalError_def stands_append by (simp_all add: enc_string_def add.assoc eval_nat_numeral)
  have len: "?q + 1 \<le> length data" using stands_length[OF parts(7)] by simp
  have str: "parseVarInt data (off + 12) = Inr (length ?s, ?l)"
    "copy_string data (off + (12 + ?l)) (length ?s) = Inr (bytes_of ?s)"
    using enc_string_parts[OF _ parts(6)] ok by (simp_all add: ok_FatalError_def add.assoc)
  have "vec_at data off = Inr 12" "vec_at data (off + 1) = Inr 0x10"
    "at_u32 data (off + 2) = Inr (fe_objectId m)" "vec_at data (off + 6) = Inr 0x10"
    "at_u32 data (off + 7) = Inr (fe_errorId m)" "vec_at data (off + 11) = Inr 0x20"
    "vec_at data ?q = Inr 0"
    using vec_at_stands[OF parts(1), of 0] vec_at_stands[OF parts(1), of 1]
      at_u32_stands[OF parts(2), of 0] vec_at_stands[OF parts(3), of 0]
      at_u32_stands[OF parts(4), of 0] vec_at_stands[OF parts(5), of 0]
      vec_at_stands[OF parts(7), of 0]
    by simp_all
  with str ok len show "parse_FatalError data off = Inr (m, length (enc_FatalError m))"
    by (simp add: parse_FatalError_def enc_FatalError_def enc_string_def ok_FatalError_def
        add.assoc del: add_2_eq_Suc')
next
  fix data off m n
  assume "parse_FatalError data off = Inr (m, n)"
  then obtain p where "n = 13 + p" "off + (12 + p) < length data" "data ! (off + (12 + p)) = 0"
    by (auto simp: parse_FatalError_def attempt_iffs Let_def add.assoc)
  then show "0 < n \<and> off + n \<le> length data \<and> data ! (off + n - 1) = 0" by (simp add: ac_simps)
qed

section \<open>Roundtrips\<close>

definition enc_RoundtripRequest :: "u32 \<Rightarrow> byte list" where
  "enc_RoundtripRequest seq =
     [type_code MSG_ROUNDTRIP_REQUEST, magic_code TYPE_UINT] @ u32_bytes seq @ [magic_code MAGIC_END]"

definition parse_RoundtripRequest :: "byte list \<Rightarrow> nat \<Rightarrow> (u32 \<times> nat) attempt" where
  "parse_RoundtripRequest data offset =
     bnd (vec_at data (offset + 0)) (\<lambda>b0.
     bnd (ensure (b0 = type_code MSG_ROUNDTRIP_REQUEST)) (\<lambda>_.
     bnd (vec_at data (offset + 1)) (\<lambda>b1.
     bnd (ensure (b1 = magic_code TYPE_UINT)) (\<lambda>_.
     bnd (ensure (\<not> ssub (ssub (length data) offset) 2 < 4)) (\<lambda>_.
     bnd (at_u32 data (offset + 2)) (\<lambda>seq.
     bnd (vec_at data (offset + 6)) (\<lambda>e.
     bnd (ensure (e = magic_code MAGIC_END)) (\<lambda>_.
     Inr (seq, 7)))))))))"

definition ok_RoundtripRequest :: "u32 \<Rightarrow> bool" where
  "ok_RoundtripRequest _ = True"

interpretation roundtrip_request: bounded_codec enc_RoundtripRequest parse_RoundtripRequest ok_RoundtripRequest
proof unfold_locales
  fix m and data :: "byte list" and off
  assume st: "stands data off (enc_RoundtripRequest m)" and v: "vec_ok data"
  have len: "off + 7 \<le> length data" using stands_length[OF st] by (simp add: enc_RoundtripRequest_def)
  have "vec_at data off = Inr 13" "vec_at data (off + 1) = Inr 0x10" "vec_at data (off + 6) = Inr 0"
    "at_u32 data (off + 2) = Inr m"
    using vec_at_stands[OF st, of 0] vec_at_stands[OF st, of 1] vec_at_stands[OF st, of 6]
      at_u32_stands[OF st, of 2] by (simp_all add: enc_RoundtripRequest_def nth_append)
  with len vec_okD[OF v] show "parse_RoundtripRequest data off = Inr (m, length (enc_RoundtripRequest m))"
    by (simp add: parse_RoundtripRequest_def enc_RoundtripRequest_def size_simps add.assoc del: add_2_eq_Suc')
next
  fix data :: "byte list" and off n and m :: u32
  assume "parse_RoundtripRequest data off = Inr (m, n)"
  then show "0 < n \<and> off + n \<le> length data \<and> data ! (off + n - 1) = 0"
    by (auto simp: parse_RoundtripRequest_def attempt_iffs Let_def add.commute)
qed

definition enc_RoundtripDone :: "u32 \<Rightarrow> byte list" where
  "enc_RoundtripDone seq =
     [type_code MSG_ROUNDTRIP_DONE, magic_code TYPE_UINT] @ u32_bytes seq @ [magic_code MAGIC_END]"

definition parse_RoundtripDone :: "byte list \<Rightarrow> nat \<Rightarrow> (u32 \<times> nat) attempt" where
  "parse_RoundtripDone data offset =
     bnd (vec_at data (offset + 0)) (\<lambda>b0.
     bnd (ensure (b0 = type_code MSG_ROUNDTRIP_DONE)) (\<lambda>_.
     bnd (vec_at data (offset + 1)) (\<lambda>b1.
     bnd (ensure (b1 = magic_code TYPE_UINT)) (\<lambda>_.
     bnd (ensure (\<not> ssub (ssub (length data) offset) 2 < 4)) (\<lambda>_.
     bnd (at_u32 data (offset + 2)) (\<lambda>seq.
     bnd (vec_at data (offset + 6)) (\<lambda>e.
     bnd (ensure (e = magic_code MAGIC_END)) (\<lambda>_.
     Inr (seq, 7)))))))))"

definition ok_RoundtripDone :: "u32 \<Rightarrow> bool" where
  "ok_RoundtripDone _ = True"

interpretation roundtrip_done: bounded_codec enc_RoundtripDone parse_RoundtripDone ok_RoundtripDone
proof unfold_locales
  fix m and data :: "byte list" and off
  assume st: "stands data off (enc_RoundtripDone m)" and v: "vec_ok data"
  have len: "off + 7 \<le> length data" using stands_length[OF st] by (simp add: enc_RoundtripDone_def)
  have "vec_at data off = Inr 14" "vec_at data (off + 1) = Inr 0x10" "vec_at data (off + 6) = Inr 0"
    "at_u32 data (off + 2) = Inr m"
    using vec_at_stands[OF st, of 0] vec_at_stands[OF st, of 1] vec_at_stands[OF st, of 6]
      at_u32_stands[OF st, of 2] by (simp_all add: enc_RoundtripDone_def nth_append)
  with len vec_okD[OF v] show "parse_RoundtripDone data off = Inr (m, length (enc_RoundtripDone m))"
    by (simp add: parse_RoundtripDone_def enc_RoundtripDone_def size_simps add.assoc del: add_2_eq_Suc')
next
  fix data :: "byte list" and off n and m :: u32
  assume "parse_RoundtripDone data off = Inr (m, n)"
  then show "0 < n \<and> off + n \<le> length data \<and> data ! (off + n - 1) = 0"
    by (auto simp: parse_RoundtripDone_def attempt_iffs Let_def add.commute)
qed

section \<open>What the parsers throw\<close>

text \<open>
  Only a string can be refused by its constructor, and only when its length was negative: in
  a buffer without runs of four continuation bytes no length is.
\<close>

lemma at_u32_no_throw [simp]: "at_u32 data i \<noteq> Inl LengthError"
  by (simp add: at_u32_def mem_u32_def bnd_eq_Inl vec_at_eq_Inl mem_range_eq_Inl)

lemma read_u32s_no_throw [simp]: "read_u32s data p n \<noteq> Inl LengthError"
  by (induction n arbitrary: p) (auto simp: bnd_eq_Inl)

lemma parse_no_throw [simp]:
  "parse_Hello data off \<noteq> Inl LengthError"
  "parse_HandshakeAck data off \<noteq> Inl LengthError"
  "parse_HandshakeBegin data off \<noteq> Inl LengthError"
  "parse_NewObject data off \<noteq> Inl LengthError"
  "parse_RoundtripRequest data off \<noteq> Inl LengthError"
  "parse_RoundtripDone data off \<noteq> Inl LengthError"
  by (simp_all add: parse_Hello_def parse_HandshakeAck_def parse_HandshakeBegin_def parse_NewObject_def
      parse_RoundtripRequest_def parse_RoundtripDone_def Let_def bnd_eq_Inl vec_at_eq_Inl mem_range_eq_Inl
      split: prod.splits)

lemma copy_string_no_throw: "n < 2 ^ 63 \<Longrightarrow> copy_string data i n \<noteq> Inl LengthError"
  by (simp add: copy_string_eq_Inl)

lemma short_copy:
  assumes "short_runs data" and "parseVarInt data p = Inr (n, l)"
  shows "copy_string data i n \<noteq> Inl LengthError"
  using short_runs_parse(2)[OF assms] by (intro copy_string_no_throw) simp

lemma read_strings_no_throw: "short_runs data \<Longrightarrow> read_strings data off n k \<noteq> Inl LengthError"
  by (induction k arbitrary: n) (auto simp: bnd_eq_Inl vec_at_eq_Inl dest: short_copy)

lemma parse_strings_no_throw:
  assumes "short_runs data"
  shows "parse_BindProtocol data off \<noteq> Inl LengthError"
    and "parse_FatalError data off \<noteq> Inl LengthError"
    and "parse_HandshakeProtocols data off \<noteq> Inl LengthError"
  using read_strings_no_throw[OF assms]
  by (auto simp: parse_BindProtocol_def parse_FatalError_def parse_HandshakeProtocols_def Let_def
      bnd_eq_Inl vec_at_eq_Inl dest: short_copy[OF assms])

end
