(* ===== verification/Server_Client.thy ===== *)
theory Server_Client
  imports Remote_Call Control_Messages
begin

text \<open>
  One connection of the server: \<^verbatim>\<open>CServerClient\<close> and its \<^verbatim>\<open>CServerObject\<close>s, each operation
  a function on the state of the connection. The server's list of implementations is the
  argument \<open>impls\<close>. Code of the user (the listeners, the bind and new-client handlers) and
  the two library calls the connection depends on (\<^verbatim>\<open>getsockopt\<close>, \<^verbatim>\<open>ffi_prep_cif\<close>) are the
  fields of an environment.
\<close>

section \<open>State\<close>

text \<open>
  \<open>sc_sent\<close> lists what was handed to \<^verbatim>\<open>sendmsg\<close>: the bytes and the descriptors of the
  control message. The \<^verbatim>\<open>WP\<close>s to the connection and the server are never dangling here.
\<close>

record server_client =
  sc_fd :: int
  sc_fdValid :: bool
  sc_pid :: int
  sc_firstPollDone :: bool
  sc_version :: u32
  sc_maxId :: u32
  sc_error :: bool
  sc_scheduledRoundtripSeq :: u32
  sc_objects :: "wire_object list"
  sc_protocolFilter :: "(string \<Rightarrow> bool) option"
  sc_exposedProtocols :: "string list"
  sc_sent :: "(byte list \<times> int list) list"

definition new_server_client :: "int \<Rightarrow> bool \<Rightarrow> server_client" where
  "new_server_client fd valid =
     \<lparr>sc_fd = fd, sc_fdValid = valid, sc_pid = - 1, sc_firstPollDone = False, sc_version = 0,
      sc_maxId = 1, sc_error = False, sc_scheduledRoundtripSeq = 0, sc_objects = [],
      sc_protocolFilter = None, sc_exposedProtocols = [], sc_sent = []\<rparr>"

text \<open>
  The environment. A listener or bind handler is called with the id of its object and acts
  on the connection; \<open>env_peerPid\<close> is \<open>None\<close> when \<^verbatim>\<open>getsockopt\<close> fails.
\<close>

record server_env =
  env_prep :: "ffi_type list \<Rightarrow> bool"
  env_peerPid :: "int option"
  env_newClient :: "(server_client \<Rightarrow> server_client) option"
  env_onBind :: "nat \<Rightarrow> u32 \<Rightarrow> server_client \<Rightarrow> server_client"
  env_invoke :: "nat \<Rightarrow> u32 \<Rightarrow> avalue list \<Rightarrow> server_client \<Rightarrow> server_client"

definition client_sendMessage :: "byte list \<Rightarrow> int list \<Rightarrow> server_client \<Rightarrow> server_client" where
  "client_sendMessage data fds s =
     (if sc_fdValid s then s\<lparr>sc_sent := sc_sent s @ [(data, fds)]\<rparr> else s)"

definition send_fatal :: "u32 \<Rightarrow> u32 \<Rightarrow> string \<Rightarrow> server_client \<Rightarrow> server_client" where
  "send_fatal oid eid msg =
     client_sendMessage (enc_FatalError \<lparr>fe_objectId = oid, fe_errorId = eid, fe_errorMsg = msg\<rparr>) []"

section \<open>First poll\<close>

definition setupExposedProtocols :: "protocol_impl list \<Rightarrow> server_client \<Rightarrow> server_client" where
  "setupExposedProtocols impls s =
     s\<lparr>sc_exposedProtocols := sc_exposedProtocols s @
        filter (\<lambda>name. case sc_protocolFilter s of None \<Rightarrow> True | Some f \<Rightarrow> f name)
          (map (\<lambda>i. specName (protocol i)) impls)\<rparr>"

text \<open>The scope guard runs on both ways out, after the pid was stored.\<close>

definition dispatchFirstPoll :: "server_env \<Rightarrow> protocol_impl list \<Rightarrow> server_client \<Rightarrow> server_client" where
  "dispatchFirstPoll env impls s =
     (if sc_firstPollDone s then s
      else
        let s = s\<lparr>sc_firstPollDone := True\<rparr>;
            s = (case env_peerPid env of None \<Rightarrow> s | Some pid \<Rightarrow> s\<lparr>sc_pid := pid\<rparr>);
            s = (case env_newClient env of None \<Rightarrow> s | Some f \<Rightarrow> f s)
        in setupExposedProtocols impls s)"

definition setProtocolFilter :: "(string \<Rightarrow> bool) option \<Rightarrow> server_client \<Rightarrow> server_client" where
  "setProtocolFilter f s = s\<lparr>sc_protocolFilter := f\<rparr>"

section \<open>Objects\<close>

definition has_id :: "u32 \<Rightarrow> wire_object \<Rightarrow> bool" where
  "has_id oid obj \<longleftrightarrow> w_id obj = oid"

definition find_object :: "u32 \<Rightarrow> server_client \<Rightarrow> wire_object option" where
  "find_object oid s = find (has_id oid) (sc_objects s)"

definition update_object :: "u32 \<Rightarrow> (wire_object \<Rightarrow> wire_object) \<Rightarrow> server_client \<Rightarrow> server_client" where
  "update_object oid f s = s\<lparr>sc_objects := map (\<lambda>obj. if has_id oid obj then f obj else obj) (sc_objects s)\<rparr>"

definition client_destroyObject :: "u32 \<Rightarrow> server_client \<Rightarrow> server_client" where
  "client_destroyObject oid s = s\<lparr>sc_objects := filter (\<lambda>obj. \<not> has_id oid obj) (sc_objects s)\<rparr>"

definition destroyIfNeeded :: "u32 \<Rightarrow> spec_method \<Rightarrow> server_client \<Rightarrow> server_client" where
  "destroyIfNeeded oid method s =
     (if \<not> m_isDestructor method then s
      else
        let s = update_object oid (\<lambda>obj. obj\<lparr>w_destroyed := True\<rparr>) s
        in if oid = 0 then s else client_destroyObject oid s)"

text \<open>\<^verbatim>\<open>CServerObject::errd\<close> and \<^verbatim>\<open>CServerObject::error\<close>.\<close>

definition object_errd :: "server_client \<Rightarrow> server_client" where
  "object_errd s = s\<lparr>sc_error := True\<rparr>"

definition object_error :: "u32 \<Rightarrow> u32 \<Rightarrow> string \<Rightarrow> server_client \<Rightarrow> server_client" where
  "object_error oid eid msg s = object_errd (send_fatal oid eid msg s)"

definition methodsIn :: "object_spec \<Rightarrow> spec_method list" where
  "methodsIn spec = c2s spec"

definition methodsOut :: "object_spec \<Rightarrow> spec_method list" where
  "methodsOut spec = s2c spec"

section \<open>Creating objects\<close>

text \<open>An object without a specification is never bound.\<close>

definition client_onBind ::
  "server_env \<Rightarrow> protocol_impl list \<Rightarrow> wire_object \<Rightarrow> server_client \<Rightarrow> server_client" where
  "client_onBind env impls obj s =
     (case (find (\<lambda>p. specName (protocol p) = w_protocolName obj) impls, w_spec obj) of
        (Some p, Some spec) \<Rightarrow>
          (case find (\<lambda>on. oi_objectName on = objectName spec) (implementation p) of
             None \<Rightarrow> s
           | Some on \<Rightarrow> (case oi_onBind on of None \<Rightarrow> s | Some cb \<Rightarrow> env_onBind env cb (w_id obj) s))
      | _ \<Rightarrow> s)"

definition invalid_protocol :: string where
  "invalid_protocol = ''Invalid protocol''"

definition invalid_version :: "u32 \<Rightarrow> u32 \<Rightarrow> string" where
  "invalid_version version ver =
     ''Invalid protocol version ('' @ dec_u32 version @ '' > '' @ dec_u32 ver @ '')''"

text \<open>
  What \<^verbatim>\<open>createObject\<close> makes of the new object before it answers: the object, which is in
  \<^verbatim>\<open>m_objects\<close> in every case, and the text of the error.
\<close>

definition resolve_object ::
  "protocol_impl list \<Rightarrow> string list \<Rightarrow> string \<Rightarrow> string \<Rightarrow> u32 \<Rightarrow> wire_object \<Rightarrow> wire_object \<times> string option" where
  "resolve_object impls exposed name object version obj =
     (case find (\<lambda>p. specName (protocol p) = name) impls of
        None \<Rightarrow> (obj, Some invalid_protocol)
      | Some p \<Rightarrow>
          if name \<notin> set exposed then (obj, Some invalid_protocol)
          else
            let spec = find (\<lambda>sp. objectName sp = object \<or> object = []) (spec_objects (protocol p));
                obj = obj\<lparr>w_spec := spec, w_protocolName := name\<rparr>
            in if spec = None then (obj, Some invalid_protocol)
               else if specVer (protocol p) < version then
                 (obj, Some (invalid_version version (specVer (protocol p))))
               else (obj, None))"

definition fresh_object :: "u32 \<Rightarrow> u32 \<Rightarrow> wire_object" where
  "fresh_object oid version =
     \<lparr>w_listeners = [], w_id = oid, w_version = version, w_seq = 1, w_destroyed = False,
      w_protocolName = [], w_spec = None\<rparr>"

text \<open>
  \<^verbatim>\<open>createObject\<close> up to the call of \<^verbatim>\<open>onBind\<close>: the object is stored and answered with
  \<^verbatim>\<open>NEW_OBJECT\<close> or with a fatal error.
\<close>

definition announce_object ::
  "protocol_impl list \<Rightarrow> string \<Rightarrow> string \<Rightarrow> u32 \<Rightarrow> u32 \<Rightarrow> server_client \<Rightarrow> wire_object option \<times> server_client" where
  "announce_object impls name object version seq s =
     (let oid = sc_maxId s;
          (obj, err) = resolve_object impls (sc_exposedProtocols s) name object version (fresh_object oid version);
          s = s\<lparr>sc_maxId := oid + 1, sc_objects := sc_objects s @ [obj]\<rparr>
      in case err of
           Some msg \<Rightarrow> (None, object_error oid (- 1) msg s)
         | None \<Rightarrow> (Some obj, client_sendMessage (enc_NewObject \<lparr>no_seq = seq, no_id = oid\<rparr>) [] s))"

definition client_createObject ::
  "server_env \<Rightarrow> protocol_impl list \<Rightarrow> string \<Rightarrow> string \<Rightarrow> u32 \<Rightarrow> u32 \<Rightarrow> server_client \<Rightarrow>
   u32 option \<times> server_client" where
  "client_createObject env impls name object version seq s =
     (case announce_object impls name object version seq s of
        (None, s) \<Rightarrow> (None, s)
      | (Some obj, s) \<Rightarrow> (Some (w_id obj), client_onBind env impls obj s))"

text \<open>\<^verbatim>\<open>CServerSocket::createObject\<close>: a new object of the protocol and version of another.\<close>

definition socket_createObject ::
  "server_env \<Rightarrow> protocol_impl list \<Rightarrow> u32 \<Rightarrow> string \<Rightarrow> u32 \<Rightarrow> server_client \<Rightarrow>
   u32 option \<times> server_client" where
  "socket_createObject env impls ref object seq s =
     (case find_object ref s of
        None \<Rightarrow> (None, s)
      | Some r \<Rightarrow> client_createObject env impls (w_protocolName r) object (w_version r) seq s)"

section \<open>Calls on an object\<close>

text \<open>\<^verbatim>\<open>CServerObject\<close> as the target of a message. An object without a specification is a null
  pointer dereference.\<close>

definition object_called ::
  "server_env \<Rightarrow> u32 \<Rightarrow> u32 \<Rightarrow> byte list \<Rightarrow> int list \<Rightarrow> wire_object \<Rightarrow> server_client \<Rightarrow> server_client attempt" where
  "object_called env oid mid data fds obj s =
     (case w_spec obj of
        None \<Rightarrow> Inl Undefined
      | Some spec \<Rightarrow>
          bnd (called (env_prep env) obj (methodsIn spec) mid data fds) (\<lambda>r. Inr (
          case r of
            CalledError msg \<Rightarrow> object_error oid oid msg s
          | CalledErrd \<Rightarrow> object_errd s
          | CalledIgnored method \<Rightarrow> destroyIfNeeded oid method s
          | CalledInvoke fn vals method \<Rightarrow> destroyIfNeeded oid method (env_invoke env fn oid vals s))))"

definition unknown_object :: "u32 \<Rightarrow> string" where
  "unknown_object oid = ''generic message references unknown object '' @ dec_u32 oid"

definition client_onGeneric :: "server_env \<Rightarrow> generic_msg \<Rightarrow> server_client \<Rightarrow> server_client attempt" where
  "client_onGeneric env msg s =
     (case find_object (gm_object msg) s of
        None \<Rightarrow> Inr (object_error (gm_object msg) (- 1) (unknown_object (gm_object msg)) s)
      | Some obj \<Rightarrow> object_called env (w_id obj) (gm_method msg) (gm_data msg) (gm_fds msg) obj s)"

text \<open>\<^verbatim>\<open>IWireObject::call\<close> on a server object: no sequence is drawn, nothing is deferred.\<close>

definition object_call :: "u32 \<Rightarrow> u32 \<Rightarrow> va list \<Rightarrow> server_client \<Rightarrow> server_client attempt" where
  "object_call oid mid vas s =
     (case find_object oid s of
        None \<Rightarrow> Inl Undefined
      | Some obj \<Rightarrow>
          (case w_spec obj of
             None \<Rightarrow> Inl Undefined
           | Some spec \<Rightarrow>
               (case call_error True obj (methodsOut spec) mid of
                  Some msg \<Rightarrow> Inr (object_error oid oid msg s)
                | None \<Rightarrow>
                    let method = methodsOut spec ! unat mid;
                        s = (if m_isDestructor method then update_object oid (\<lambda>obj. obj\<lparr>w_destroyed := True\<rparr>) s else s)
                    in bnd (call_message obj method mid 0 vas) (\<lambda>r. Inr (
                       case r of
                         MarshalFailed \<Rightarrow> object_errd s
                       | Marshalled data fds \<Rightarrow> client_sendMessage data fds s)))))"

section \<open>What user code can do\<close>

text \<open>
  The public interface as steps on the connection. A callback of the environment performs
  some sequence of them; \<^verbatim>\<open>createObject\<close> is the step that announces the object followed by
  the steps of the bind handler it calls.
\<close>

inductive api :: "protocol_impl list \<Rightarrow> server_client \<Rightarrow> server_client \<Rightarrow> bool" for impls where
  api_listen: "find_object oid s = Some obj \<Longrightarrow> listen mid fn obj = Inr obj' \<Longrightarrow>
    api impls s (update_object oid (\<lambda>_. obj') s)"
| api_call: "object_call oid mid vas s = Inr s' \<Longrightarrow> api impls s s'"
| api_error: "api impls s (object_error oid eid msg s)"
| api_create: "find_object ref s = Some r \<Longrightarrow>
    api impls s (snd (announce_object impls (w_protocolName r) object (w_version r) seq s))"
| api_filter: "api impls s (setProtocolFilter f s)"

abbreviation apis :: "protocol_impl list \<Rightarrow> server_client \<Rightarrow> server_client \<Rightarrow> bool" where
  "apis impls \<equiv> (api impls)\<^sup>*\<^sup>*"

definition env_ok :: "server_env \<Rightarrow> protocol_impl list \<Rightarrow> bool" where
  "env_ok env impls \<longleftrightarrow>
     (\<forall>f s. env_newClient env = Some f \<longrightarrow> apis impls s (f s)) \<and>
     (\<forall>cb oid s. apis impls s (env_onBind env cb oid s)) \<and>
     (\<forall>fn oid vals s. apis impls s (env_invoke env fn oid vals s))"

text \<open>
  A property of connections that every step keeps is kept by all of the connection's own
  operations that run user code.
\<close>

lemma apis_keep: "apis impls s t \<Longrightarrow> (\<And>s t. api impls s t \<Longrightarrow> P s \<Longrightarrow> P t) \<Longrightarrow> P s \<Longrightarrow> P t"
  by (induction rule: rtranclp_induct) auto

end
