(* ===== verification/Server_Dispatch.thy ===== *)
theory Server_Dispatch
  imports Server_Client
begin

text \<open>
  The server's half of \<^verbatim>\<open>CMessageParser\<close>: the dispatch on the type of a message, the loop
  over a read, and \<^verbatim>\<open>CServerSocket::dispatchClient\<close>, with the abstract meaning of a stream
  of client messages the loop is proved to implement.
\<close>

section \<open>One message\<close>

datatype parsing_result =
  MESSAGE_PARSED_OK | MESSAGE_PARSED_ERROR | MESSAGE_PARSED_INCOMPLETE | MESSAGE_PARSED_STRAY_FDS

definition HYPRWIRE_PROTOCOL_VER :: u32 where
  "HYPRWIRE_PROTOCOL_VER = 1"

text \<open>The name and the version, joined by an at sign, of the implementations a client may see.\<close>

definition protocol_entry :: "protocol_spec \<Rightarrow> string" where
  "protocol_entry p = specName p @ ''@'' @ dec_u32 (specVer p)"

definition protocol_names :: "protocol_impl list \<Rightarrow> string list \<Rightarrow> string list" where
  "protocol_names impls exposed =
     map (\<lambda>i. protocol_entry (protocol i)) (filter (\<lambda>i. specName (protocol i) \<in> set exposed) impls)"

text \<open>
  The value is the length of the message, zero for a message that was refused, with the
  descriptors left of the read. What a message that does not parse does to the descriptors
  is not modelled: the loop gives up on the read.
\<close>

type_synonym dispatched = "stop + nat \<times> int list \<times> server_client"

definition refused :: "int list \<Rightarrow> server_client \<Rightarrow> dispatched" where
  "refused fds s = Inr (0, fds, s)"

definition parsed ::
  "('m \<times> nat) attempt \<Rightarrow> int list \<Rightarrow> server_client \<Rightarrow> ('m \<Rightarrow> server_client) \<Rightarrow> dispatched" where
  "parsed p fds s act =
     bnd (caught p) (\<lambda>r. case r of
       None \<Rightarrow> refused fds s
     | Some (m, len) \<Rightarrow> Inr (len, fds, act m))"

definition server_parseSingle ::
  "server_env \<Rightarrow> protocol_impl list \<Rightarrow> byte list \<Rightarrow> nat \<Rightarrow> int list \<Rightarrow> server_client \<Rightarrow> dispatched option" where
  "server_parseSingle env impls data off fds s =
     obnd (vec_at data off) (\<lambda>b.
     case type_of_byte b of
       Some MSG_SUP \<Rightarrow> Some (parsed (parse_Hello data off) fds s (\<lambda>_.
         client_sendMessage (enc_HandshakeBegin [HYPRWIRE_PROTOCOL_VER]) [] (dispatchFirstPoll env impls s)))
     | Some MSG_HANDSHAKE_ACK \<Rightarrow> Some (parsed (parse_HandshakeAck data off) fds s (\<lambda>v.
         let s = s\<lparr>sc_version := v\<rparr>
         in client_sendMessage (enc_HandshakeProtocols (protocol_names impls (sc_exposedProtocols s))) [] s))
     | Some MSG_BIND_PROTOCOL \<Rightarrow> Some (parsed (parse_BindProtocol data off) fds s (\<lambda>m.
         snd (client_createObject env impls (bind_protocol m) [] (bind_version m) (bind_seq m) s)))
     | Some MSG_GENERIC_PROTOCOL_MESSAGE \<Rightarrow>
         (case parse_Generic data fds off of
            None \<Rightarrow> None
          | Some p \<Rightarrow> Some (bnd (caught p) (\<lambda>r. case r of
              None \<Rightarrow> refused fds s
            | Some (m, len, fds') \<Rightarrow> bnd (client_onGeneric env m s) (\<lambda>s'. Inr (len, fds', s')))))
     | Some MSG_ROUNDTRIP_REQUEST \<Rightarrow> Some (parsed (parse_RoundtripRequest data off) fds s (\<lambda>seq.
         s\<lparr>sc_scheduledRoundtripSeq := seq\<rparr>))
     | _ \<Rightarrow> Some (refused fds (s\<lparr>sc_error := True\<rparr>)))"

section \<open>A read\<close>

partial_function (option) server_loop ::
  "server_env \<Rightarrow> protocol_impl list \<Rightarrow> byte list \<Rightarrow> nat \<Rightarrow> int list \<Rightarrow> server_client \<Rightarrow>
   (stop + parsing_result \<times> server_client) option" where
  "server_loop env impls data needle fds s =
     (if needle < length data \<and> \<not> sc_error s then
        Option.bind (server_parseSingle env impls data needle fds s) (\<lambda>r.
        obnd r (\<lambda>(ret, fds', s').
          if ret = 0 then Some (Inr (MESSAGE_PARSED_ERROR, s'))
          else server_loop env impls data (sadd needle ret) fds' s'))
      else Some (Inr (if fds \<noteq> [] then MESSAGE_PARSED_STRAY_FDS else MESSAGE_PARSED_OK, s)))"

definition server_handleMessage ::
  "server_env \<Rightarrow> protocol_impl list \<Rightarrow> byte list \<Rightarrow> int list \<Rightarrow> server_client \<Rightarrow>
   (stop + parsing_result \<times> server_client) option" where
  "server_handleMessage env impls data fds s = server_loop env impls data 0 fds s"

text \<open>
  \<^verbatim>\<open>dispatchClient\<close>, after the read: \<open>None\<close> is a read that failed.
\<close>

definition no_object :: u32 where
  "no_object = 0"

definition dispatchClient ::
  "server_env \<Rightarrow> protocol_impl list \<Rightarrow> (byte list \<times> int list) option \<Rightarrow> server_client \<Rightarrow>
   (stop + server_client) option" where
  "dispatchClient env impls raw s =
     (case raw of
        None \<Rightarrow> Some (Inr (object_error no_object (- 1) ''fatal: invalid message on wire'' s))
      | Some (data, fds) \<Rightarrow>
          if data = [] then Some (Inr s)
          else
            (case server_handleMessage env impls data fds s of
               None \<Rightarrow> None
             | Some r \<Rightarrow> Some (bnd r (\<lambda>(ret, s). Inr (
                 if ret \<noteq> MESSAGE_PARSED_OK then
                   object_error no_object (- 1) ''fatal: failed to handle message on wire'' s
                 else if 0 < sc_scheduledRoundtripSeq s then
                   (client_sendMessage (enc_RoundtripDone (sc_scheduledRoundtripSeq s)) [] s)
                     \<lparr>sc_scheduledRoundtripSeq := 0\<rparr>
                 else s)))))"

section \<open>The meaning of a stream\<close>

datatype client_msg =
    CmHello
  | CmAck u32
  | CmBind bind_msg
  | CmCall u32 u32 "wire_arg list"
  | CmRoundtrip u32

fun enc_client_msg :: "client_msg \<Rightarrow> byte list" where
  "enc_client_msg CmHello = enc_Hello ()"
| "enc_client_msg (CmAck v) = enc_HandshakeAck v"
| "enc_client_msg (CmBind m) = enc_BindProtocol m"
| "enc_client_msg (CmCall oid mid args) = enc_Generic oid mid args"
| "enc_client_msg (CmRoundtrip seq) = enc_RoundtripRequest seq"

fun client_msg_fds :: "client_msg \<Rightarrow> int list" where
  "client_msg_fds (CmCall oid mid args) = wire_args_fds args"
| "client_msg_fds _ = []"

fun ok_client_msg :: "client_msg \<Rightarrow> bool" where
  "ok_client_msg (CmBind m) = ok_BindProtocol m"
| "ok_client_msg (CmCall oid mid args) = list_all wire_ok args"
| "ok_client_msg _ = True"

fun serve_one :: "server_env \<Rightarrow> protocol_impl list \<Rightarrow> client_msg \<Rightarrow> server_client \<Rightarrow> server_client attempt" where
  "serve_one env impls CmHello s =
     Inr (client_sendMessage (enc_HandshakeBegin [HYPRWIRE_PROTOCOL_VER]) [] (dispatchFirstPoll env impls s))"
| "serve_one env impls (CmAck v) s =
     Inr (client_sendMessage (enc_HandshakeProtocols (protocol_names impls (sc_exposedProtocols s))) []
            (s\<lparr>sc_version := v\<rparr>))"
| "serve_one env impls (CmBind m) s =
     Inr (snd (client_createObject env impls (bind_protocol m) [] (bind_version m) (bind_seq m) s))"
| "serve_one env impls (CmCall oid mid args) s =
     client_onGeneric env
       \<lparr>gm_object = oid, gm_method = mid, gm_data = wire_args args @ [0], gm_fds = wire_args_fds args\<rparr> s"
| "serve_one env impls (CmRoundtrip seq) s = Inr (s\<lparr>sc_scheduledRoundtripSeq := seq\<rparr>)"

text \<open>The messages of a stream in order, up to the one after which the connection is in error.\<close>

fun serve ::
  "server_env \<Rightarrow> protocol_impl list \<Rightarrow> client_msg list \<Rightarrow> server_client \<Rightarrow> (client_msg list \<times> server_client) attempt" where
  "serve env impls [] s = Inr ([], s)"
| "serve env impls (m # ms) s =
     (if sc_error s then Inr (m # ms, s)
      else bnd (serve_one env impls m s) (serve env impls ms))"

abbreviation enc_stream :: "client_msg list \<Rightarrow> byte list" where
  "enc_stream ms \<equiv> concat (map enc_client_msg ms)"

abbreviation stream_fds :: "client_msg list \<Rightarrow> int list" where
  "stream_fds ms \<equiv> concat (map client_msg_fds ms)"

lemma enc_client_msg_nonempty [simp]: "enc_client_msg m \<noteq> []"
  by (cases m) (simp_all add: enc_Hello_def enc_HandshakeAck_def enc_BindProtocol_def enc_Generic_def
      enc_RoundtripRequest_def)

lemma hd_enc_client_msg:
  "type_of_byte (hd (enc_client_msg m)) =
     Some (case m of CmHello \<Rightarrow> MSG_SUP | CmAck _ \<Rightarrow> MSG_HANDSHAKE_ACK | CmBind _ \<Rightarrow> MSG_BIND_PROTOCOL
       | CmCall _ _ _ \<Rightarrow> MSG_GENERIC_PROTOCOL_MESSAGE | CmRoundtrip _ \<Rightarrow> MSG_ROUNDTRIP_REQUEST)"
  by (cases m) (simp_all add: enc_Hello_def enc_HandshakeAck_def enc_BindProtocol_def enc_Generic_def
      enc_RoundtripRequest_def)

lemma server_parseSingle_stands:
  assumes ok: "ok_client_msg m" and st: "stands data off (enc_client_msg m)" and v: "vec_ok data"
  shows "server_parseSingle env impls data off (client_msg_fds m @ fds) s =
     Some (bnd (serve_one env impls m s) (\<lambda>s'. Inr (length (enc_client_msg m), fds, s')))"
proof -
  have at: "vec_at data off = Inr (hd (enc_client_msg m))"
    using st by (intro vec_at_stands_0) simp_all
  show ?thesis
  proof (cases m)
    case CmHello
    then have "parse_Hello data off = Inr ((), length (enc_client_msg m))"
      using st v by (simp add: hello.parse_enc ok_Hello_def)
    then show ?thesis
      using CmHello at hd_enc_client_msg[of m] by (simp add: server_parseSingle_def parsed_def)
  next
    case (CmAck w)
    then have "parse_HandshakeAck data off = Inr (w, length (enc_client_msg m))"
      using st v by (simp add: handshake_ack.parse_enc ok_HandshakeAck_def)
    then show ?thesis
      using CmAck at hd_enc_client_msg[of m] by (simp add: server_parseSingle_def parsed_def Let_def)
  next
    case (CmBind b)
    then have "parse_BindProtocol data off = Inr (b, length (enc_client_msg m))"
      using st v ok by (simp add: bind_protocol_msg.parse_enc)
    then show ?thesis
      using CmBind at hd_enc_client_msg[of m] by (simp add: server_parseSingle_def parsed_def)
  next
    case (CmCall oid mid args)
    then have "parse_Generic data (client_msg_fds m @ fds) off =
        Some (Inr (\<lparr>gm_object = oid, gm_method = mid, gm_data = wire_args args @ [0],
          gm_fds = wire_args_fds args\<rparr>, length (enc_client_msg m), fds))"
      using st v ok by (simp only: enc_client_msg.simps client_msg_fds.simps ok_client_msg.simps parse_Generic_stands)
    then show ?thesis
      using CmCall at hd_enc_client_msg[of m] by (simp add: server_parseSingle_def bnd_assoc)
  next
    case (CmRoundtrip w)
    then have "parse_RoundtripRequest data off = Inr (w, length (enc_client_msg m))"
      using st v by (simp add: roundtrip_request.parse_enc ok_RoundtripRequest_def)
    then show ?thesis
      using CmRoundtrip at hd_enc_client_msg[of m] by (simp add: server_parseSingle_def parsed_def)
  qed
qed

text \<open>The rest of a stream that stands at the end of a read.\<close>

lemma server_loop_stream:
  assumes "list_all ok_client_msg ms" and "stands data n (enc_stream ms)"
    and "n + length (enc_stream ms) = length data" and v: "vec_ok data"
  shows "server_loop env impls data n (stream_fds ms) s =
     Some (bnd (serve env impls ms s) (\<lambda>(rest, s').
       Inr (if stream_fds rest \<noteq> [] then MESSAGE_PARSED_STRAY_FDS else MESSAGE_PARSED_OK, s')))"
  using assms(1-3)
proof (induction ms arbitrary: n s)
  case Nil
  then show ?case by (subst server_loop.simps) simp
next
  case (Cons m ms)
  show ?case
  proof (cases "sc_error s")
    case True
    then show ?thesis by (subst server_loop.simps) simp
  next
    case run: False
    have st: "stands data n (enc_client_msg m)" "stands data (n + length (enc_client_msg m)) (enc_stream ms)"
      using Cons.prems(2) by simp_all
    have "0 < length (enc_client_msg m)" by simp
    with Cons.prems(3) have len: "n < length data" "0 < length (enc_client_msg m)"
      by (simp_all del: length_greater_0_conv)
    have add: "sadd n (length (enc_client_msg m)) = n + length (enc_client_msg m)"
      using Cons.prems(3) vec_okD[OF v] by (simp add: size_simps)
    have step: "server_parseSingle env impls data n (stream_fds (m # ms)) s =
        Some (bnd (serve_one env impls m s) (\<lambda>s'. Inr (length (enc_client_msg m), stream_fds ms, s')))"
      using server_parseSingle_stands[OF _ st(1) v] Cons.prems(1) by simp
    show ?thesis
    proof (cases "serve_one env impls m s")
      case (Inl e)
      with step len run show ?thesis by (subst server_loop.simps) simp
    next
      case (Inr s')
      have "server_loop env impls data n (stream_fds (m # ms)) s =
          server_loop env impls data (n + length (enc_client_msg m)) (stream_fds ms) s'"
        using step len run Inr add by (subst server_loop.simps) simp
      with Cons.IH[OF _ st(2)] Cons.prems Inr run show ?thesis by simp
    qed
  qed
qed

text \<open>A read that holds whole messages.\<close>

lemma read_serves:
  assumes "list_all ok_client_msg ms" and "vec_ok (enc_stream ms)" and "serve env impls ms s = Inr (rest, t)"
  shows "server_handleMessage env impls (enc_stream ms) (stream_fds ms) s =
     Some (Inr (if stream_fds rest \<noteq> [] then MESSAGE_PARSED_STRAY_FDS else MESSAGE_PARSED_OK, t))"
  using server_loop_stream[OF assms(1), of "enc_stream ms" 0 env impls s] assms(2,3)
  by (simp add: server_handleMessage_def)

section \<open>Progress\<close>

lemma parsed_bounds:
  "parsed p fds s act = Inr (n, fds', s') \<Longrightarrow> (\<And>m k. p = Inr (m, k) \<Longrightarrow> off + k \<le> length data) \<Longrightarrow>
     n = 0 \<or> off + n \<le> length data"
  by (auto simp: parsed_def bnd_eq_Inr refused_def split: option.splits)

lemma server_parseSingle_returns:
  assumes sh: "short_runs data" and v: "vec_ok data" and off: "off < length data"
  shows "\<exists>r. server_parseSingle env impls data off fds s = Some r \<and>
    (\<forall>n fds' s'. r = Inr (n, fds', s') \<longrightarrow> n = 0 \<or> off + n \<le> length data)"
proof -
  obtain g where g: "parse_Generic data fds off = Some g"
    and bound: "\<forall>msg n rest. g = Inr (msg, n, rest) \<longrightarrow> 12 \<le> n \<and> off + n \<le> length data \<and> length (gm_data msg) = n - 11"
    using parse_Generic_returns[OF sh v off] by blast
  have gen: "n = 0 \<or> off + n \<le> length data"
    if "bnd (caught g) (\<lambda>r. case r of None \<Rightarrow> refused fds s
         | Some (m, len, fds') \<Rightarrow> bnd (client_onGeneric env m s) (\<lambda>s'. Inr (len, fds', s'))) = Inr (n, fds', s')"
    for n fds' s'
    using that bound by (auto simp: bnd_eq_Inr refused_def split: option.splits)
  have ctl: "off + k \<le> length data" if
    "parse_Hello data off = Inr (u, k) \<or> parse_HandshakeAck data off = Inr (w, k) \<or>
     parse_BindProtocol data off = Inr (b, k) \<or> parse_RoundtripRequest data off = Inr (w, k)" for u w b k
    using that hello.parse_bounds handshake_ack.parse_bounds bind_protocol_msg.parse_bounds
      roundtrip_request.parse_bounds by blast
  have "\<exists>r. server_parseSingle env impls data off fds s = Some r"
    using off g by (auto simp: server_parseSingle_def split: option.split message_type.split)
  moreover have "n = 0 \<or> off + n \<le> length data"
    if "server_parseSingle env impls data off fds s = Some (Inr (n, fds', s'))" for n fds' s'
  proof -
    from that off consider "bnd (caught g) (\<lambda>r. case r of None \<Rightarrow> refused fds s
         | Some (m, len, fds') \<Rightarrow> bnd (client_onGeneric env m s) (\<lambda>s'. Inr (len, fds', s'))) = Inr (n, fds', s')"
      | act where "parsed (parse_Hello data off) fds s act = Inr (n, fds', s')"
      | act where "parsed (parse_HandshakeAck data off) fds s act = Inr (n, fds', s')"
      | act where "parsed (parse_BindProtocol data off) fds s act = Inr (n, fds', s')"
      | act where "parsed (parse_RoundtripRequest data off) fds s act = Inr (n, fds', s')"
      | "n = 0"
      by (cases "type_of_byte (data ! off)")
        (auto simp: server_parseSingle_def g refused_def simp del: type_of_byte_eq_Some split: message_type.splits)
    then show ?thesis
    proof cases
      case 1
      then show ?thesis by (rule gen)
    qed (use ctl in \<open>auto elim!: parsed_bounds\<close>)
  qed
  ultimately show ?thesis by blast
qed

lemma server_loop_returns:
  assumes sh: "short_runs data" and v: "vec_ok data"
  shows "needle \<le> length data \<Longrightarrow> \<exists>r. server_loop env impls data needle fds s = Some r"
proof (induction "length data - needle" arbitrary: needle fds s rule: less_induct)
  case less
  show ?case
  proof (cases "needle < length data \<and> \<not> sc_error s")
    case False
    then show ?thesis by (subst server_loop.simps) auto
  next
    case run: True
    then obtain r where r: "server_parseSingle env impls data needle fds s = Some r"
      and bound: "\<forall>n fds' s'. r = Inr (n, fds', s') \<longrightarrow> n = 0 \<or> needle + n \<le> length data"
      using server_parseSingle_returns[OF sh v] by blast
    show ?thesis
    proof (cases r)
      case (Inl e)
      with r run show ?thesis by (subst server_loop.simps) simp
    next
      case (Inr t)
      obtain n fds' s' where t: "t = (n, fds', s')" by (cases t)
      show ?thesis
      proof (cases "n = 0")
        case True
        with r Inr t run show ?thesis by (subst server_loop.simps) simp
      next
        case False
        with bound Inr t have n: "needle + n \<le> length data" "0 < n" by auto
        then have "sadd needle n = needle + n" using vec_okD[OF v] by (simp add: size_simps)
        moreover have "length data - (needle + n) < length data - needle"
          using n by linarith
        then obtain r' where "server_loop env impls data (needle + n) fds' s' = Some r'"
          using less.hyps n(1) by blast
        ultimately show ?thesis using r Inr t run False by (subst server_loop.simps) simp
      qed
    qed
  qed
qed

end
