(* ===== verification/Server_Invariants.thy ===== *)
theory Server_Invariants
  imports Server_Dispatch "HOL-Library.Sublist"
begin

text \<open>
  What stays true of a connection whatever the peer sends: the contract a property has to
  meet at each elementary update, the proof that every operation of the connection then
  keeps it, and the properties of interest as interpretations.
\<close>

section \<open>The contract\<close>

text \<open>
  First the updates the server makes outside roundtrips: it sends anything but the
  acknowledgement of one, and leaves the scheduled sequence alone.
\<close>

definition is_done :: "byte list \<times> int list \<Rightarrow> bool" where
  "is_done m \<longleftrightarrow> (case fst m of [] \<Rightarrow> False | b # _ \<Rightarrow> b = type_code MSG_ROUNDTRIP_DONE)"

locale quiet_invariant =
  fixes impls :: "protocol_impl list" and P :: "server_client \<Rightarrow> bool"
  assumes keep_api: "api impls s t \<Longrightarrow> P s \<Longrightarrow> P t"
    and keep_announce: "P s \<Longrightarrow> P (snd (announce_object impls name object version seq s))"
    and keep_offer: "P s \<Longrightarrow> P (client_sendMessage (enc_HandshakeBegin [HYPRWIRE_PROTOCOL_VER]) [] s)"
    and keep_names: "P s \<Longrightarrow>
      P (client_sendMessage (enc_HandshakeProtocols (protocol_names impls (sc_exposedProtocols s))) [] s)"
    and keep_fatal: "P s \<Longrightarrow> P (send_fatal oid eid msg s)"
    and keep_errd: "P s \<Longrightarrow> P (object_errd s)"
    and keep_destroy: "P s \<Longrightarrow> P (destroyIfNeeded oid method s)"
    and keep_expose: "P s \<Longrightarrow> P (setupExposedProtocols impls s)"
    and keep_pid: "P s \<Longrightarrow> P (s\<lparr>sc_pid := pid\<rparr>)"
    and keep_first: "P s \<Longrightarrow> P (s\<lparr>sc_firstPollDone := True\<rparr>)"
    and keep_version: "P s \<Longrightarrow> P (s\<lparr>sc_version := v\<rparr>)"
begin

lemma keep_apis: "apis impls s t \<Longrightarrow> P s \<Longrightarrow> P t"
  by (rule apis_keep[of impls s t P]) (auto intro: keep_api)

lemma keep_error: "P s \<Longrightarrow> P (object_error oid eid msg s)"
  unfolding object_error_def by (intro keep_errd keep_fatal)

lemma keep_newClient: "env_ok env impls \<Longrightarrow> env_newClient env = Some f \<Longrightarrow> P s \<Longrightarrow> P (f s)"
  unfolding env_ok_def by (blast intro: keep_apis)

lemma keep_bindHandler: "env_ok env impls \<Longrightarrow> P s \<Longrightarrow> P (env_onBind env cb oid s)"
  unfolding env_ok_def by (blast intro: keep_apis)

lemma keep_invoke: "env_ok env impls \<Longrightarrow> P s \<Longrightarrow> P (env_invoke env fn oid vals s)"
  unfolding env_ok_def by (blast intro: keep_apis)

lemma keep_ack:
  assumes "P s"
  shows "P (client_sendMessage (enc_HandshakeProtocols (protocol_names impls (sc_exposedProtocols s))) []
    (s\<lparr>sc_version := v\<rparr>))"
  using keep_names[OF keep_version[OF assms], of v] by simp

lemma keep_dispatchFirstPoll:
  assumes env: "env_ok env impls" and s: "P s"
  shows "P (dispatchFirstPoll env impls s)"
proof -
  let ?s1 = "s\<lparr>sc_firstPollDone := True\<rparr>"
  let ?s2 = "case env_peerPid env of None \<Rightarrow> ?s1 | Some pid \<Rightarrow> ?s1\<lparr>sc_pid := pid\<rparr>"
  let ?s3 = "case env_newClient env of None \<Rightarrow> ?s2 | Some f \<Rightarrow> f ?s2"
  have "P ?s1" using s by (rule keep_first)
  then have "P ?s2" using keep_pid by (simp split: option.split)
  then have "P ?s3" using keep_newClient[OF env] by (simp split: option.split)
  then have "P (setupExposedProtocols impls ?s3)" by (rule keep_expose)
  with s show ?thesis by (simp add: dispatchFirstPoll_def Let_def)
qed

lemma keep_onBind: "env_ok env impls \<Longrightarrow> P s \<Longrightarrow> P (client_onBind env impls obj s)"
  by (auto simp: client_onBind_def split: option.split intro: keep_bindHandler)

lemma keep_createObject:
  assumes "env_ok env impls" and "P s"
  shows "P (snd (client_createObject env impls name object version seq s))"
  using keep_announce[OF assms(2), of name object version seq] keep_onBind[OF assms(1)]
  by (auto simp: client_createObject_def split: prod.split option.split)

lemma keep_called:
  assumes "env_ok env impls" and "P s" and "object_called env oid mid data fds obj s = Inr t"
  shows "P t"
  using assms
  by (auto simp: object_called_def bnd_eq_Inr split: option.splits called_result.split
      intro!: keep_error keep_errd keep_destroy keep_invoke)

lemma keep_onGeneric: "env_ok env impls \<Longrightarrow> P s \<Longrightarrow> client_onGeneric env msg s = Inr t \<Longrightarrow> P t"
  by (auto simp: client_onGeneric_def split: option.splits intro: keep_error keep_called)

lemma keep_flag: "P s \<Longrightarrow> P (s\<lparr>sc_error := True\<rparr>)"
  using keep_errd by (simp add: object_errd_def)

lemma keep_serve_one:
  assumes env: "env_ok env impls" and s: "P s" and m: "\<And>seq. m \<noteq> CmRoundtrip seq"
    and step: "serve_one env impls m s = Inr t"
  shows "P t"
  using step s m env
  by (cases m) (auto intro!: keep_offer keep_ack keep_dispatchFirstPoll keep_createObject dest: keep_onGeneric)

end

text \<open>Contracts combine: what two properties keep, their conjunction keeps.\<close>

lemma quiet_conj:
  assumes P: "quiet_invariant impls P" and Q: "quiet_invariant impls Q"
  shows "quiet_invariant impls (\<lambda>s. P s \<and> Q s)"
  by unfold_locales
    (elim conjE, rule conjI, erule (1) quiet_invariant.keep_api[OF P], erule (1) quiet_invariant.keep_api[OF Q],
     (elim conjE, rule conjI, erule quiet_invariant.keep_announce[OF P], erule quiet_invariant.keep_announce[OF Q]),
     (elim conjE, rule conjI, erule quiet_invariant.keep_offer[OF P], erule quiet_invariant.keep_offer[OF Q]),
     (elim conjE, rule conjI, erule quiet_invariant.keep_names[OF P], erule quiet_invariant.keep_names[OF Q]),
     (elim conjE, rule conjI, erule quiet_invariant.keep_fatal[OF P], erule quiet_invariant.keep_fatal[OF Q]),
     (elim conjE, rule conjI, erule quiet_invariant.keep_errd[OF P], erule quiet_invariant.keep_errd[OF Q]),
     (elim conjE, rule conjI, erule quiet_invariant.keep_destroy[OF P], erule quiet_invariant.keep_destroy[OF Q]),
     (elim conjE, rule conjI, erule quiet_invariant.keep_expose[OF P], erule quiet_invariant.keep_expose[OF Q]),
     (elim conjE, rule conjI, erule quiet_invariant.keep_pid[OF P], erule quiet_invariant.keep_pid[OF Q]),
     (elim conjE, rule conjI, erule quiet_invariant.keep_first[OF P], erule quiet_invariant.keep_first[OF Q]),
     (elim conjE, rule conjI, erule quiet_invariant.keep_version[OF P], erule quiet_invariant.keep_version[OF Q]))

lemma quiet_view:
  assumes f: "\<And>v. quiet_invariant impls (\<lambda>s. f s = v)" and g: "\<And>v. quiet_invariant impls (\<lambda>s. g s = v)"
  shows "quiet_invariant impls (\<lambda>s. R (f s) (g s))"
  by unfold_locales
    (simp_all only: quiet_invariant.keep_api[OF f _ refl] quiet_invariant.keep_api[OF g _ refl]
      quiet_invariant.keep_announce[OF f refl] quiet_invariant.keep_announce[OF g refl]
      quiet_invariant.keep_offer[OF f refl] quiet_invariant.keep_offer[OF g refl]
      quiet_invariant.keep_names[OF f refl] quiet_invariant.keep_names[OF g refl]
      quiet_invariant.keep_fatal[OF f refl] quiet_invariant.keep_fatal[OF g refl]
      quiet_invariant.keep_errd[OF f refl] quiet_invariant.keep_errd[OF g refl]
      quiet_invariant.keep_destroy[OF f refl] quiet_invariant.keep_destroy[OF g refl]
      quiet_invariant.keep_expose[OF f refl] quiet_invariant.keep_expose[OF g refl]
      quiet_invariant.keep_pid[OF f refl] quiet_invariant.keep_pid[OF g refl]
      quiet_invariant.keep_first[OF f refl] quiet_invariant.keep_first[OF g refl]
      quiet_invariant.keep_version[OF f refl] quiet_invariant.keep_version[OF g refl])

text \<open>Then all of them.\<close>

locale connection_invariant = quiet_invariant +
  assumes keep_seq: "P s \<Longrightarrow> P (s\<lparr>sc_scheduledRoundtripSeq := seq'\<rparr>)"
    and keep_done: "P s \<Longrightarrow> P (client_sendMessage (enc_RoundtripDone seq') [] s)"
begin

lemma keep_parsed:
  "parsed p fds s act = Inr (n, fds', t) \<Longrightarrow> P s \<Longrightarrow> (\<And>m. P (act m)) \<Longrightarrow> P t"
  by (auto simp: parsed_def bnd_eq_Inr refused_def split: option.splits)

lemma keep_parseSingle:
  assumes env: "env_ok env impls" and s: "P s"
    and step: "server_parseSingle env impls data off fds s = Some (Inr (n, fds', t))"
  shows "P t"
proof -
  from step obtain b where b: "vec_at data off = Inr b"
    by (auto simp: server_parseSingle_def obnd_eq_Some)
  show ?thesis
  proof (cases "type_of_byte b")
    case None
    with step b s show ?thesis by (auto simp: server_parseSingle_def refused_def intro: keep_flag)
  next
    case (Some ty)
    note step = step[unfolded server_parseSingle_def b obnd_simps Some]
    show ?thesis
    proof (cases "ty = MSG_GENERIC_PROTOCOL_MESSAGE")
      case True
      with step s env show ?thesis
        by (auto simp: bnd_eq_Inr refused_def split: option.splits intro: keep_onGeneric)
    next
      case False
      with step s env show ?thesis
        by (cases ty) (auto simp: refused_def Let_def elim!: keep_parsed
            intro!: keep_offer keep_ack keep_dispatchFirstPoll keep_createObject keep_seq keep_flag)
    qed
  qed
qed

lemma keep_loop:
  assumes env: "env_ok env impls"
  shows "server_loop env impls data needle fds s = Some r \<Longrightarrow> P s \<Longrightarrow>
    (\<forall>res t. r = Inr (res, t) \<longrightarrow> P t)"
proof -
  let ?Q = "\<lambda>env' impls' data needle fds s r. env' = env \<longrightarrow> impls' = impls \<longrightarrow> P s \<longrightarrow>
    (\<forall>res t. r = Inr (res, t) \<longrightarrow> P t)"
  assume ret: "server_loop env impls data needle fds s = Some r" and "P s"
  have "?Q env impls data needle fds s r"
  proof (rule server_loop.raw_induct[where P = ?Q, OF _ ret], intro impI)
    fix loop env' impls' and data :: "byte list" and needle fds s r
    assume IH: "\<And>env' impls' data needle fds s r. loop env' impls' data needle fds s = Some r \<Longrightarrow>
        ?Q env' impls' data needle fds s r"
      and eq: "(if needle < length data \<and> \<not> sc_error s then
        Option.bind (server_parseSingle env' impls' data needle fds s) (\<lambda>r.
        obnd r (\<lambda>(ret, fds', s').
          if ret = 0 then Some (Inr (MESSAGE_PARSED_ERROR, s'))
          else loop env' impls' data (sadd needle ret) fds' s'))
      else Some (Inr (if fds \<noteq> [] then MESSAGE_PARSED_STRAY_FDS else MESSAGE_PARSED_OK, s))) = Some r"
      and same: "env' = env" "impls' = impls" and s: "P s"
    note eq = eq[unfolded same]
    show "\<forall>res t. r = Inr (res, t) \<longrightarrow> P t"
    proof (cases "needle < length data \<and> \<not> sc_error s")
      case False
      with eq s show ?thesis by auto
    next
      case True
      with eq obtain q where q: "server_parseSingle env impls data needle fds s = Some q"
        and rest: "obnd q (\<lambda>(ret, fds', s').
          if ret = 0 then Some (Inr (MESSAGE_PARSED_ERROR, s'))
          else loop env impls data (sadd needle ret) fds' s') = Some r"
        by (auto simp: Option.bind_eq_Some_conv)
      show ?thesis
      proof (cases q)
        case (Inl e)
        with rest show ?thesis by auto
      next
        case (Inr x)
        obtain n fds' s' where x: "x = (n, fds', s')" by (cases x)
        with q Inr have s': "P s'" using keep_parseSingle[OF env s] by blast
        from rest Inr x s' IH[of env impls data "sadd needle n" fds' s' r] show ?thesis
          by (auto split: if_splits)
      qed
    qed
  qed
  with \<open>P s\<close> show ?thesis by blast
qed

theorem keep_handleMessage:
  "env_ok env impls \<Longrightarrow> P s \<Longrightarrow> server_handleMessage env impls data fds s = Some (Inr (res, t)) \<Longrightarrow> P t"
  unfolding server_handleMessage_def by (drule keep_loop) auto

theorem keep_dispatchClient:
  assumes "env_ok env impls" and "P s" and "dispatchClient env impls raw s = Some (Inr t)"
  shows "P t"
  using assms
  by (auto simp: dispatchClient_def bnd_eq_Inr split: option.splits if_splits
      intro!: keep_error keep_seq keep_done dest: keep_handleMessage)

end

section \<open>Elementary facts\<close>

lemmas sc_ops = client_sendMessage_def send_fatal_def object_errd_def object_error_def
  destroyIfNeeded_def update_object_def client_destroyObject_def setProtocolFilter_def

lemma listen_listeners: "listen mid fn obj = Inr obj' \<Longrightarrow> \<exists>ls. obj' = obj\<lparr>w_listeners := ls\<rparr>"
  by (auto simp: listen_def Let_def split: if_splits)

lemma encode_params_shift:
  assumes "encode_params (p # ps) vas data fds = Inr r"
  obtains "r = MarshalFailed"
  | ps' vas' more fds' where "length ps' < length (p # ps)" "encode_params ps' vas' (data @ more) fds' = Inr r"
proof (cases "magic_of p = Some TYPE_ARRAY")
  case False
  have "\<exists>vas' more fds'. encode_params ps vas' (data @ more) fds' = Inr r"
  proof (cases "magic_of p")
    case None
    with assms have "encode_params ps vas (data @ []) fds = Inr r" by simp
    then show ?thesis by blast
  next
    case (Some m)
    have same: "encode_params ps vas (data @ []) fds = Inr r \<Longrightarrow> ?thesis" by blast
    from Some assms False same show ?thesis
      by (cases m) (auto split: list.splits va.splits)
  qed
  with that(2) show thesis by (metis length_Cons lessI)
next
  case True
  with assms obtain t ps' v vas' where ps: "ps = t # ps'" "vas = v # vas'"
    by (auto split: list.splits)
  with True assms obtain e where "encode_array t v = Inr e" and rest: "(case e of
      None \<Rightarrow> Inr MarshalFailed
    | Some (body, fds') \<Rightarrow> encode_params ps' vas' (data @ 33 # t # body) (fds @ fds')) = Inr r"
    by (auto simp: bnd_eq_Inr simp del: encode_array.simps)
  show thesis
  proof (cases e)
    case None
    with rest that(1) show thesis by simp
  next
    case (Some x)
    with rest ps that(2)[of ps' vas'] show thesis by (cases x) auto
  qed
qed

lemma encode_params_extends:
  "encode_params ps vas data fds = Inr (Marshalled data' fds') \<Longrightarrow> prefix data data'"
proof (induction ps arbitrary: vas data fds rule: length_induct)
  case (1 ps)
  show ?case
  proof (cases ps)
    case Nil
    with 1 show ?thesis by simp
  next
    case (Cons p ps')
    from 1(2)[unfolded Cons] show ?thesis
    proof (rule encode_params_shift)
      fix qs vas' more fds''
      assume "length qs < length (p # ps')"
        "encode_params qs vas' (data @ more) fds'' = Inr (Marshalled data' fds')"
      with 1(1) Cons have "prefix (data @ more) data'" by blast
      then show ?thesis by (rule append_prefixD)
    qed simp_all
  qed
qed

lemma call_message_head:
  assumes "call_message obj method mid seqVal vas = Inr (Marshalled data fds)"
  shows "hd data = type_code MSG_GENERIC_PROTOCOL_MESSAGE \<and> data \<noteq> []"
proof -
  let ?head = "[type_code MSG_GENERIC_PROTOCOL_MESSAGE, magic_code TYPE_OBJECT] @
    u32_bytes (w_id obj) @ [magic_code TYPE_UINT] @ u32_bytes mid"
  let ?data = "if m_returnsType method \<noteq> [] then ?head @ [magic_code TYPE_SEQ] @ u32_bytes seqVal else ?head"
  from assms obtain r where r: "encode_params (m_params method) vas ?data [] = Inr r"
    and fin: "(case r of MarshalFailed \<Rightarrow> Inr MarshalFailed
      | Marshalled data fds \<Rightarrow> Inr (Marshalled (data @ [magic_code MAGIC_END]) fds)) =
        (Inr (Marshalled data fds) :: marshalled attempt)"
    unfolding call_message_def Let_def bnd_eq_Inr by auto
  from fin obtain data' where "r = Marshalled data' fds" "data = data' @ [magic_code MAGIC_END]"
    by (cases r) auto
  with r encode_params_extends have "prefix ?data data'" by blast
  with \<open>data = _\<close> show ?thesis by (auto simp: prefix_def split: if_splits)
qed

lemma object_call_cases:
  assumes "object_call oid mid vas s = Inr t"
  obtains msg where "t = object_error oid oid msg s"
  | s' where "s' = s \<or> s' = update_object oid (\<lambda>obj. obj\<lparr>w_destroyed := True\<rparr>) s" "t = object_errd s'"
  | s' data fds where "s' = s \<or> s' = update_object oid (\<lambda>obj. obj\<lparr>w_destroyed := True\<rparr>) s"
      "t = client_sendMessage data fds s'" "hd data = type_code MSG_GENERIC_PROTOCOL_MESSAGE" "data \<noteq> []"
proof -
  from assms obtain obj spec where obj: "find_object oid s = Some obj" "w_spec obj = Some spec"
    by (auto simp: object_call_def split: option.splits)
  show thesis
  proof (cases "call_error True obj (methodsOut spec) mid")
    case (Some msg)
    with assms obj have "t = object_error oid oid msg s" by (simp add: object_call_def)
    then show ?thesis by (rule that(1))
  next
    case None
    let ?s = "if m_isDestructor (methodsOut spec ! unat mid)
      then update_object oid (\<lambda>obj. obj\<lparr>w_destroyed := True\<rparr>) s else s"
    from assms obj None obtain r where r: "call_message obj (methodsOut spec ! unat mid) mid 0 vas = Inr r"
      "t = (case r of MarshalFailed \<Rightarrow> object_errd ?s | Marshalled data fds \<Rightarrow> client_sendMessage data fds ?s)"
      by (auto simp: object_call_def Let_def bnd_eq_Inr)
    with that(2,3)[of ?s] call_message_head[of obj] show ?thesis
      by (cases r) (auto split: if_splits)
  qed
qed

lemma find_object_mem: "find_object oid s = Some obj \<Longrightarrow> obj \<in> set (sc_objects s) \<and> w_id obj = oid"
  by (auto simp: find_object_def has_id_def find_Some_iff)

text \<open>The three outcomes of \<^verbatim>\<open>createObject\<close> before the bind handler.\<close>

lemma announce_cases:
  obtains obj msg where
    "announce_object impls name object version seq s =
       (None, object_error (sc_maxId s) (- 1) msg
          (s\<lparr>sc_maxId := sc_maxId s + 1, sc_objects := sc_objects s @ [obj]\<rparr>))"
    "resolve_object impls (sc_exposedProtocols s) name object version (fresh_object (sc_maxId s) version) = (obj, Some msg)"
  | obj where
    "announce_object impls name object version seq s =
       (Some obj, client_sendMessage (enc_NewObject \<lparr>no_seq = seq, no_id = sc_maxId s\<rparr>) []
          (s\<lparr>sc_maxId := sc_maxId s + 1, sc_objects := sc_objects s @ [obj]\<rparr>))"
    "resolve_object impls (sc_exposedProtocols s) name object version (fresh_object (sc_maxId s) version) = (obj, None)"
  by (cases "resolve_object impls (sc_exposedProtocols s) name object version (fresh_object (sc_maxId s) version)";
      cases "snd (resolve_object impls (sc_exposedProtocols s) name object version (fresh_object (sc_maxId s) version))")
    (auto simp: announce_object_def Let_def)

section \<open>Errors are final\<close>

interpretation sticky: connection_invariant impls sc_error for impls
proof unfold_locales
  fix s t :: server_client
  assume "api impls s t" "sc_error s"
  then show "sc_error t"
  proof cases
    case (api_call oid mid vas)
    then show ?thesis using \<open>sc_error s\<close> by (elim object_call_cases) (auto simp: sc_ops)
  next
    case (api_create ref r object seq)
    then show ?thesis
      using \<open>sc_error s\<close> by (cases rule: announce_cases[of impls "w_protocolName r" object "w_version r" seq s]) (auto simp: sc_ops)
  qed (auto simp: sc_ops)
next
  fix s :: server_client and name object version seq
  assume "sc_error s"
  then show "sc_error (snd (announce_object impls name object version seq s))"
    by (cases rule: announce_cases[of impls name object version seq s]) (auto simp: sc_ops)
qed (auto simp: sc_ops setupExposedProtocols_def Let_def)

section \<open>What was sent stays sent\<close>

interpretation sent_log: connection_invariant impls "\<lambda>s. prefix before (sc_sent s)" for impls before
proof unfold_locales
  fix s t :: server_client
  assume "api impls s t" "prefix before (sc_sent s)"
  then show "prefix before (sc_sent t)"
  proof cases
    case (api_call oid mid vas)
    then show ?thesis using \<open>prefix before (sc_sent s)\<close> by (elim object_call_cases) (auto simp: sc_ops)
  next
    case (api_create ref r object seq)
    then show ?thesis
      using \<open>prefix before (sc_sent s)\<close> by (cases rule: announce_cases[of impls "w_protocolName r" object "w_version r" seq s]) (auto simp: sc_ops)
  qed (auto simp: sc_ops)
next
  fix s :: server_client and name object version seq
  assume "prefix before (sc_sent s)"
  then show "prefix before (sc_sent (snd (announce_object impls name object version seq s)))"
    by (cases rule: announce_cases[of impls name object version seq s]) (auto simp: sc_ops)
qed (auto simp: sc_ops setupExposedProtocols_def Let_def)

section \<open>Bound objects\<close>

text \<open>
  An object of a connection is an instance of an object of a protocol that is registered and
  exposed to the client, in a version the server has.
\<close>

definition object_ok :: "protocol_impl list \<Rightarrow> string list \<Rightarrow> wire_object \<Rightarrow> bool" where
  "object_ok impls exposed obj \<longleftrightarrow>
     w_protocolName obj \<in> set exposed \<and>
     list_ex (\<lambda>p. specName (protocol p) = w_protocolName obj \<and>
       list_ex (\<lambda>sp. w_spec obj = Some sp) (spec_objects (protocol p)) \<and>
       w_version obj \<le> specVer (protocol p)) impls"

text \<open>
  \<^verbatim>\<open>createObject\<close> stores the object before it checks the request, so what was refused stays
  in \<^verbatim>\<open>m_objects\<close> until the connection, now in error, is dropped. A refused object has no
  specification, or asks for more than the version of the exposed protocol it names.
\<close>

definition object_refused :: "protocol_impl list \<Rightarrow> string list \<Rightarrow> wire_object \<Rightarrow> bool" where
  "object_refused impls exposed obj \<longleftrightarrow>
     w_spec obj = None \<or>
     w_protocolName obj \<in> set exposed \<and>
     list_ex (\<lambda>p. specName (protocol p) = w_protocolName obj \<and>
       list_ex (\<lambda>sp. w_spec obj = Some sp) (spec_objects (protocol p)) \<and>
       specVer (protocol p) < w_version obj) impls"

definition objects_ok :: "protocol_impl list \<Rightarrow> server_client \<Rightarrow> bool" where
  "objects_ok impls s \<longleftrightarrow>
     list_all (\<lambda>obj. object_ok impls (sc_exposedProtocols s) obj \<or>
       sc_error s \<and> object_refused impls (sc_exposedProtocols s) obj) (sc_objects s)"

lemma object_refused_append: "object_refused impls xs obj \<Longrightarrow> object_refused impls (xs @ ys) obj"
  by (auto simp: object_refused_def)

lemma object_refused_update [simp]:
  "object_refused impls xs (obj\<lparr>w_listeners := ls\<rparr>) = object_refused impls xs obj"
  "object_refused impls xs (obj\<lparr>w_destroyed := d\<rparr>) = object_refused impls xs obj"
  by (simp_all add: object_refused_def)

text \<open>A connection that is not in error has no refused object; a specification is always an exposed one's.\<close>

lemma objects_ok_object: "objects_ok impls s \<Longrightarrow> \<not> sc_error s \<Longrightarrow> obj \<in> set (sc_objects s) \<Longrightarrow>
    object_ok impls (sc_exposedProtocols s) obj"
  by (auto simp: objects_ok_def list_all_iff)

lemma objects_ok_exposed:
  assumes "objects_ok impls s" and "obj \<in> set (sc_objects s)" and "w_spec obj = Some sp"
  shows "w_protocolName obj \<in> set (sc_exposedProtocols s) \<and>
    (\<exists>p \<in> set impls. specName (protocol p) = w_protocolName obj \<and> sp \<in> set (spec_objects (protocol p)))"
proof -
  have "object_ok impls (sc_exposedProtocols s) obj \<or> object_refused impls (sc_exposedProtocols s) obj"
    using assms(1,2) by (auto simp: objects_ok_def list_all_iff)
  with assms(3) show ?thesis by (auto simp: object_ok_def object_refused_def list_ex_iff)
qed

lemma object_ok_append: "object_ok impls xs obj \<Longrightarrow> object_ok impls (xs @ ys) obj"
  by (auto simp: object_ok_def)

lemma object_ok_update [simp]:
  "object_ok impls xs (obj\<lparr>w_listeners := ls\<rparr>) = object_ok impls xs obj"
  "object_ok impls xs (obj\<lparr>w_destroyed := d\<rparr>) = object_ok impls xs obj"
  by (simp_all add: object_ok_def)

lemma objects_ok_destroyed [simp]:
  "objects_ok impls (update_object oid (\<lambda>obj. obj\<lparr>w_destroyed := d\<rparr>) s) = objects_ok impls s"
  by (simp add: objects_ok_def update_object_def list_all_length)

lemma objects_ok_errd: "objects_ok impls s \<Longrightarrow> objects_ok impls (object_errd s)"
  by (auto simp: objects_ok_def object_errd_def list_all_iff)

lemma objects_ok_send [simp]: "objects_ok impls (client_sendMessage data fds s) = objects_ok impls s"
  by (simp add: objects_ok_def client_sendMessage_def)

lemma resolve_object_ok:
  assumes "resolve_object impls exposed name object version obj = (obj', None)" "w_version obj = version"
  shows "object_ok impls exposed obj'"
proof -
  from assms(1) obtain p where p: "find (\<lambda>p. specName (protocol p) = name) impls = Some p"
    and mem: "name \<in> set exposed" and ver: "version \<le> specVer (protocol p)"
    and sp: "find (\<lambda>sp. objectName sp = object \<or> object = []) (spec_objects (protocol p)) \<noteq> None"
    and obj': "obj' = obj\<lparr>w_spec := find (\<lambda>sp. objectName sp = object \<or> object = []) (spec_objects (protocol p)),
      w_protocolName := name\<rparr>"
    by (auto simp: resolve_object_def Let_def not_less split: option.splits if_splits)
  from sp obtain q where q: "find (\<lambda>sp. objectName sp = object \<or> object = []) (spec_objects (protocol p)) = Some q"
    by blast
  then have "q \<in> set (spec_objects (protocol p))" by (auto simp: find_Some_iff)
  moreover have "p \<in> set impls" "specName (protocol p) = name" using p by (auto simp: find_Some_iff)
  ultimately show ?thesis
    using obj' q mem ver assms(2) by (auto simp: object_ok_def list_ex_iff)
qed

lemma resolve_object_refused:
  assumes "resolve_object impls exposed name object version obj = (obj', Some msg)"
    and "w_version obj = version" "w_spec obj = None"
  shows "object_refused impls exposed obj'"
proof (cases "w_spec obj'")
  case None
  then show ?thesis by (simp add: object_refused_def)
next
  case (Some q)
  with assms obtain p where p: "find (\<lambda>p. specName (protocol p) = name) impls = Some p"
    and mem: "name \<in> set exposed" and ver: "specVer (protocol p) < version"
    and q: "find (\<lambda>sp. objectName sp = object \<or> object = []) (spec_objects (protocol p)) = Some q"
    and obj': "w_protocolName obj' = name" "w_version obj' = version"
    by (auto simp: resolve_object_def Let_def split: option.splits if_splits)
  from q have "q \<in> set (spec_objects (protocol p))" by (auto simp: find_Some_iff)
  moreover have "p \<in> set impls" "specName (protocol p) = name" using p by (auto simp: find_Some_iff)
  ultimately show ?thesis using Some mem ver obj' by (auto simp: object_refused_def list_ex_iff)
qed

lemma announce_keeps_objects_ok:
  "objects_ok impls s \<Longrightarrow> objects_ok impls (snd (announce_object impls name object version seq s))"
proof (cases rule: announce_cases[of impls name object version seq s])
  case (1 obj msg)
  assume "objects_ok impls s"
  moreover have "object_refused impls (sc_exposedProtocols s) obj"
    using 1(2) by (rule resolve_object_refused) (simp_all add: fresh_object_def)
  ultimately show ?thesis using 1(1) by (auto simp: objects_ok_def sc_ops list_all_iff)
next
  case (2 obj)
  assume "objects_ok impls s"
  moreover have "object_ok impls (sc_exposedProtocols s) obj"
    using 2(2) by (rule resolve_object_ok) (simp add: fresh_object_def)
  ultimately show ?thesis using 2(1) by (auto simp: objects_ok_def sc_ops list_all_iff)
qed

interpretation bound: connection_invariant impls "objects_ok impls" for impls
proof unfold_locales
  fix s t :: server_client
  assume api: "api impls s t" and ok: "objects_ok impls s"
  from api show "objects_ok impls t"
  proof cases
    case (api_listen oid obj mid fn obj')
    then show ?thesis
      using ok find_object_mem[of oid s obj] listen_listeners[of mid fn obj obj']
      by (auto simp: objects_ok_def sc_ops list_all_iff)
  next
    case (api_call oid mid vas)
    then show ?thesis
      using ok by (elim object_call_cases) (auto simp: object_error_def send_fatal_def intro: objects_ok_errd)
  next
    case (api_create ref r object seq)
    then show ?thesis using ok announce_keeps_objects_ok by blast
  qed (use ok in \<open>auto simp: objects_ok_def sc_ops list_all_iff\<close>)
next
  fix s :: server_client and name object version seq
  assume "objects_ok impls s"
  then show "objects_ok impls (snd (announce_object impls name object version seq s))"
    by (rule announce_keeps_objects_ok)
next
  fix s :: server_client
  assume "objects_ok impls s"
  then show "objects_ok impls (setupExposedProtocols impls s)"
    by (auto simp: objects_ok_def setupExposedProtocols_def list_all_iff intro: object_ok_append object_refused_append)
qed (auto simp: objects_ok_def sc_ops list_all_iff Let_def)

end
