(* ===== verification/Server_Safety.thy ===== *)
theory Server_Safety
  imports Server_Invariants
begin

text \<open>
  The theorems about one connection of the server: what the loop over a read computes, that
  it ends, that no bytes of a client make it throw or dereference a null pointer, and what
  each operation answers.
\<close>

section \<open>Calls never stop the server\<close>

text \<open>The parameter lists of every method a client can call are well-formed.\<close>

definition spec_ok :: "object_spec \<Rightarrow> bool" where
  "spec_ok sp \<longleftrightarrow> list_all (\<lambda>m. params_ok (m_params m)) (c2s sp) \<and> list_all (\<lambda>m. params_ok (m_params m)) (s2c sp)"

definition impls_ok :: "protocol_impl list \<Rightarrow> bool" where
  "impls_ok impls \<longleftrightarrow> list_all (\<lambda>p. list_all spec_ok (spec_objects (protocol p))) impls"

lemma object_ok_spec:
  assumes "impls_ok impls" and "object_ok impls exposed obj"
  shows "\<exists>sp. w_spec obj = Some sp \<and> (\<forall>method \<in> set (methodsIn sp). params_ok (m_params method))"
  using assms by (auto simp: object_ok_def impls_ok_def spec_ok_def methodsIn_def list_all_iff list_ex_iff)

lemma onGeneric_block:
  assumes ok: "impls_ok impls" "objects_ok impls s" "\<not> sc_error s"
    and blk: "block_at (gm_data msg) 0 args" "vec_ok (gm_data msg)" "gm_fds msg = wire_args_fds args"
  shows "\<exists>t. client_onGeneric env msg s = Inr t"
proof (cases "find_object (gm_object msg) s")
  case None
  then show ?thesis by (simp add: client_onGeneric_def)
next
  case (Some obj)
  then have "object_ok impls (sc_exposedProtocols s) obj"
    using objects_ok_object[OF ok(2,3)] find_object_mem[OF Some] by blast
  from object_ok_spec[OF ok(1) this] obtain sp
    where sp: "w_spec obj = Some sp" "\<forall>method \<in> set (methodsIn sp). params_ok (m_params method)" by blast
  have fds: "stands (gm_fds msg) 0 (wire_args_fds args)" by (simp add: blk(3))
  have "\<exists>r. called (env_prep env) obj (methodsIn sp) (gm_method msg) (gm_data msg) (gm_fds msg) = Inr r"
    using called_block[OF blk(1,2) fds, of "gm_method msg" "methodsIn sp" "env_prep env" obj] sp(2) by auto
  with Some sp show ?thesis by (auto simp: client_onGeneric_def object_called_def)
qed

lemma parseSingle_stop:
  assumes sh: "short_runs data" "vec_ok data" "off < length data"
    and ok: "impls_ok impls" "objects_ok impls s" "\<not> sc_error s"
    and stop: "server_parseSingle env impls data off fds s = Some (Inl e)"
  shows "e = Undefined"
proof -
  have gen: "e = Undefined"
    if g: "parse_Generic data fds off = Some p" and r: "bnd (caught p) (\<lambda>r. case r of None \<Rightarrow> refused fds s
         | Some (m, len, fds') \<Rightarrow> bnd (client_onGeneric env m s) (\<lambda>s'. Inr (len, fds', s'))) = Inl e" for p
  proof (cases "caught p")
    case (Inl e')
    with r g show ?thesis by auto
  next
    case (Inr o')
    with r obtain m n fds' where "o' = Some (m, n, fds')" and e: "client_onGeneric env m s = Inl e"
      by (auto simp: refused_def bnd_eq_Inl split: option.splits)
    with Inr g have msg: "parse_Generic data fds off = Some (Inr (m, n, fds'))" by simp
    obtain args where "block_at (gm_data m) 0 args" "gm_fds m = wire_args_fds args"
      using parse_Generic_block[OF sh msg] by blast
    moreover have "vec_ok (gm_data m)"
      using parse_Generic_returns[OF sh, of fds] msg sh(2) by (auto simp: vec_ok_def)
    ultimately show ?thesis using onGeneric_block[OF ok, of m args env] e by auto
  qed
  from stop sh(3) obtain ty where ty: "type_of_byte (data ! off) = Some ty"
    by (cases "type_of_byte (data ! off)") (auto simp: server_parseSingle_def refused_def)
  note stop = stop[unfolded server_parseSingle_def vec_at_less[OF sh(3)] obnd_simps ty]
  show ?thesis
  proof (cases "ty = MSG_GENERIC_PROTOCOL_MESSAGE")
    case True
    with stop gen show ?thesis by (auto split: option.splits)
  next
    case False
    with stop show ?thesis
      by (cases ty) (auto simp: parsed_def refused_def bnd_eq_Inl parse_strings_no_throw[OF sh(1)] split: option.splits)
  qed
qed

lemma server_loop_stop:
  assumes env: "env_ok env impls" and ok: "impls_ok impls" and sh: "short_runs data" "vec_ok data"
  shows "needle \<le> length data \<Longrightarrow> objects_ok impls s \<Longrightarrow>
    server_loop env impls data needle fds s = Some (Inl e) \<Longrightarrow> e = Undefined"
proof (induction "length data - needle" arbitrary: needle fds s rule: less_induct)
  case less
  from less.prems(3) have run: "needle < length data" "\<not> sc_error s"
    by (subst (asm) server_loop.simps; simp split: if_splits)+
  obtain r where r: "server_parseSingle env impls data needle fds s = Some r"
    and bound: "\<forall>n fds' s'. r = Inr (n, fds', s') \<longrightarrow> n = 0 \<or> needle + n \<le> length data"
    using server_parseSingle_returns[OF sh run(1)] by blast
  show ?case
  proof (cases r)
    case (Inl e')
    with r run less.prems(3) have "e' = e" by (subst (asm) server_loop.simps) simp
    with r Inl parseSingle_stop[OF sh run(1) ok less.prems(2) run(2)] show ?thesis by blast
  next
    case (Inr x)
    obtain n fds' s' where x: "x = (n, fds', s')" by (cases x)
    have s': "objects_ok impls s'" using bound.keep_parseSingle[OF env less.prems(2)] r Inr x by blast
    have n: "n \<noteq> 0" using r run Inr x less.prems(3) by (subst (asm) server_loop.simps) (auto split: if_splits)
    with bound Inr x have le: "needle + n \<le> length data" by blast
    then have "sadd needle n = needle + n" using vec_okD[OF sh(2)] by (simp add: size_simps)
    with r run Inr x n less.prems(3) have "server_loop env impls data (needle + n) fds' s' = Some (Inl e)"
      by (subst (asm) server_loop.simps) simp
    moreover have "length data - (needle + n) < length data - needle" using le n by linarith
    ultimately show ?thesis using less.hyps le s' by blast
  qed
qed

lemma serve_one_returns:
  assumes env: "env_ok env impls" and ok: "impls_ok impls" "objects_ok impls s" "\<not> sc_error s"
    and m: "ok_client_msg m" "vec_ok (enc_client_msg m)"
  shows "\<exists>t. serve_one env impls m s = Inr t \<and> objects_ok impls t"
proof -
  have "\<exists>t. serve_one env impls m s = Inr t"
  proof (cases m)
    case (CmCall oid mid args)
    have "list_all wire_ok args" using m(1) CmCall by simp
    then have "block_at (wire_args args @ [0]) 0 args"
      by (rule block_at_wire_args) (rule stands_self)
    moreover have "vec_ok (wire_args args @ [0])" using m(2) CmCall by (simp add: vec_ok_def)
    ultimately show ?thesis
      using onGeneric_block[OF ok, of "\<lparr>gm_object = oid, gm_method = mid, gm_data = wire_args args @ [0],
        gm_fds = wire_args_fds args\<rparr>" args env] CmCall by simp
  qed simp_all
  moreover have "objects_ok impls t" if t: "serve_one env impls m s = Inr t" for t
  proof (cases "\<exists>seq. m = CmRoundtrip seq")
    case True
    with t ok(2) show ?thesis by (auto intro: bound.keep_seq)
  next
    case False
    with bound.keep_serve_one[OF env ok(2) _ t] show ?thesis by blast
  qed
  ultimately show ?thesis by blast
qed

lemma serve_returns:
  "env_ok env impls \<Longrightarrow> impls_ok impls \<Longrightarrow> objects_ok impls s \<Longrightarrow> list_all ok_client_msg ms \<Longrightarrow>
     vec_ok (enc_stream ms) \<Longrightarrow> \<exists>rest t. serve env impls ms s = Inr (rest, t) \<and> objects_ok impls t \<and>
       (rest = [] \<or> sc_error t)"
proof (induction ms arbitrary: s)
  case (Cons m ms)
  show ?case
  proof (cases "sc_error s")
    case True
    with Cons.prems show ?thesis by simp
  next
    case False
    have v: "vec_ok (enc_client_msg m)" "vec_ok (enc_stream ms)" using Cons.prems(5) by (simp_all add: vec_ok_def)
    obtain t where "serve_one env impls m s = Inr t" "objects_ok impls t"
      using serve_one_returns[OF Cons.prems(1-3) False _ v(1)] Cons.prems(4) by auto
    with Cons.IH[OF Cons.prems(1,2) _ _ v(2), of t] Cons.prems(4) False show ?thesis by simp
  qed
qed simp

section \<open>Properties of a read\<close>

text \<open>C7. The loop over a read implements the abstract meaning of the stream: on the encoding
  of any sequence of client messages it performs each one's operation in order, stops at
  the first that puts the connection in error, and reports the descriptors of the
  messages it did not reach as stray.\<close>

theorem server_stream_refines:
  assumes "list_all ok_client_msg ms" and "vec_ok (enc_stream ms)"
  shows "server_handleMessage env impls (enc_stream ms) (stream_fds ms) s =
     Some (bnd (serve env impls ms s) (\<lambda>(rest, t).
       Inr (if stream_fds rest \<noteq> [] then MESSAGE_PARSED_STRAY_FDS else MESSAGE_PARSED_OK, t)))"
  unfolding server_handleMessage_def
  using server_loop_stream[OF assms(1), of "enc_stream ms" 0 env impls s] assms(2) by simp

text \<open>C6. Whatever calls a client encodes - any method, any arguments, whether or not they fit
  the specification - the server gets through the read: no exception, no read outside the
  buffer, no null specification. Unless the connection is then in error, every object it holds
  is an instance of a protocol it exposed, in a version it has; a connection in error may also
  hold objects whose creation was refused, which have no specification or too new a version
  of an exposed protocol (\<open>object_refused\<close>).\<close>

theorem server_survives_calls:
  assumes "env_ok env impls" and "impls_ok impls" and "objects_ok impls s"
    and "list_all ok_client_msg ms" and "vec_ok (enc_stream ms)"
  shows "\<exists>res t. server_handleMessage env impls (enc_stream ms) (stream_fds ms) s = Some (Inr (res, t)) \<and>
    objects_ok impls t \<and> (\<not> sc_error t \<longrightarrow> list_all (object_ok impls (sc_exposedProtocols t)) (sc_objects t)) \<and>
    (res = MESSAGE_PARSED_STRAY_FDS \<longrightarrow> sc_error t)"
proof -
  obtain rest t where t: "serve env impls ms s = Inr (rest, t)" "objects_ok impls t" "rest = [] \<or> sc_error t"
    using serve_returns[OF assms] by blast
  then have "\<not> sc_error t \<longrightarrow> list_all (object_ok impls (sc_exposedProtocols t)) (sc_objects t)"
    by (simp add: list_all_iff objects_ok_object)
  with t show ?thesis using read_serves[OF assms(4,5) t(1)] by auto
qed

text \<open>C10. On arbitrary bytes without a run of four continuation bytes a read never goes on for ever
  and never ends with an exception: it ends with a result, or it stops at a read past the end
  of the buffer in a truncated or malformed message (\<open>Undefined\<close>, which does happen: \<open>cut_read_overreads\<close>).
  No call is made on an object without a specification.\<close>

theorem server_read_ends:
  assumes "env_ok env impls" and "impls_ok impls" and "objects_ok impls s"
    and "short_runs data" and "vec_ok data"
  shows "\<exists>r. server_handleMessage env impls data fds s = Some r \<and>
    (case r of Inl e \<Rightarrow> e = Undefined | Inr (res, t) \<Rightarrow> objects_ok impls t)"
proof -
  obtain r where r: "server_loop env impls data 0 fds s = Some r"
    using server_loop_returns[OF assms(4,5), of 0 env impls fds s] by auto
  show ?thesis
  proof (cases r)
    case (Inl e)
    with r server_loop_stop[OF assms(1,2,4,5) _ assms(3), of 0 fds e] show ?thesis
      by (simp add: server_handleMessage_def)
  next
    case (Inr x)
    with r bound.keep_handleMessage[OF assms(1,3), of data fds] show ?thesis
      by (cases x) (auto simp: server_handleMessage_def)
  qed
qed

text \<open>A buffer that goes on after whole messages: the loop is at the rest of it.\<close>

lemma server_loop_steps:
  "list_all ok_client_msg ms \<Longrightarrow> stands data n (enc_stream ms) \<Longrightarrow> vec_ok data \<Longrightarrow> serve env impls ms s = Inr ([], t) \<Longrightarrow>
     server_loop env impls data n (stream_fds ms @ fds) s = server_loop env impls data (n + length (enc_stream ms)) fds t"
proof (induction ms arbitrary: n s)
  case (Cons m ms)
  have st: "stands data n (enc_client_msg m)" "stands data (n + length (enc_client_msg m)) (enc_stream ms)"
    using Cons.prems(2) by simp_all
  from Cons.prems(4) obtain s' where run: "\<not> sc_error s" "serve_one env impls m s = Inr s'" "serve env impls ms s' = Inr ([], t)"
    by (auto simp: bnd_eq_Inr split: if_splits)
  have pos: "0 < length (enc_client_msg m)" by simp
  have fits: "n + length (enc_client_msg m) \<le> length data" using stands_length[OF st(1)] .
  with pos have len: "n < length data" by (simp del: length_greater_0_conv)
  from fits have add: "sadd n (length (enc_client_msg m)) = n + length (enc_client_msg m)"
    using vec_okD[OF Cons.prems(3)] by (simp add: size_simps)
  have "server_parseSingle env impls data n (stream_fds (m # ms) @ fds) s =
      Some (Inr (length (enc_client_msg m), stream_fds ms @ fds, s'))"
    using server_parseSingle_stands[OF _ st(1) Cons.prems(3)] Cons.prems(1) run(2) by simp
  then have "server_loop env impls data n (stream_fds (m # ms) @ fds) s =
      server_loop env impls data (n + length (enc_client_msg m)) (stream_fds ms @ fds) s'"
    using run(1) pos len add by (subst server_loop.simps) simp
  with Cons.IH[OF _ st(2) Cons.prems(3) run(3)] Cons.prems(1) show ?case by (simp add: add.assoc)
qed simp

lemma dispatch_in_error:
  assumes "sc_error u" and "dispatchClient env impls raw u = Some (Inr t)"
  shows "sc_objects t = sc_objects u"
  using assms
  by (auto simp: dispatchClient_def server_handleMessage_def server_loop.simps object_error_def object_errd_def
      send_fatal_def client_sendMessage_def split: option.splits if_splits)

text \<open>C30. The first error of a read is final (invariant). When the messages at the front of a read have led to an
  error, the read ends there: whatever bytes and descriptors come after them, the loop
  performs nothing more and leaves the state the failing message left. From then on, whatever
  later reads bring, the connection stays in error, keeps every message it has sent and all
  of its objects.\<close>

theorem server_error_final:
  assumes "env_ok env impls" and "list_all ok_client_msg ms" and "vec_ok (enc_stream ms @ junk)"
    and "serve env impls ms s = Inr ([], u)" and "sc_error u"
  shows "server_handleMessage env impls (enc_stream ms @ junk) (stream_fds ms @ fds) s =
      Some (Inr (if fds \<noteq> [] then MESSAGE_PARSED_STRAY_FDS else MESSAGE_PARSED_OK, u)) \<and>
    (\<forall>raw t. dispatchClient env impls raw u = Some (Inr t) \<longrightarrow>
       sc_error t \<and> prefix (sc_sent u) (sc_sent t) \<and> sc_objects t = sc_objects u)"
proof -
  have "stands (enc_stream ms @ junk) 0 (enc_stream ms)" by (simp add: stands_def)
  from server_loop_steps[OF assms(2) this assms(3,4), of fds]
  have "server_handleMessage env impls (enc_stream ms @ junk) (stream_fds ms @ fds) s =
      Some (Inr (if fds \<noteq> [] then MESSAGE_PARSED_STRAY_FDS else MESSAGE_PARSED_OK, u))"
    using assms(5) by (simp add: server_handleMessage_def server_loop.simps)
  moreover have "sc_error t" "prefix (sc_sent u) (sc_sent t)" if "dispatchClient env impls raw u = Some (Inr t)" for raw t
    using sticky.keep_dispatchClient[OF assms(1,5) that] sent_log.keep_dispatchClient[OF assms(1) _ that, of "sc_sent u"]
    by simp_all
  ultimately show ?thesis using dispatch_in_error[OF assms(5)] by blast
qed

section \<open>Roundtrips\<close>

interpretation schedule: quiet_invariant impls "\<lambda>s. sc_scheduledRoundtripSeq s = q" for impls q
proof unfold_locales
  fix s t :: server_client
  assume "api impls s t" "sc_scheduledRoundtripSeq s = q"
  then show "sc_scheduledRoundtripSeq t = q"
  proof cases
    case (api_call oid mid vas)
    then show ?thesis using \<open>sc_scheduledRoundtripSeq s = q\<close> by (elim object_call_cases) (auto simp: sc_ops)
  next
    case (api_create ref r object seq)
    then show ?thesis
      using \<open>sc_scheduledRoundtripSeq s = q\<close>
      by (cases rule: announce_cases[of impls "w_protocolName r" object "w_version r" seq s]) (auto simp: sc_ops)
  qed (auto simp: sc_ops)
next
  fix s :: server_client and name object version seq
  assume "sc_scheduledRoundtripSeq s = q"
  then show "sc_scheduledRoundtripSeq (snd (announce_object impls name object version seq s)) = q"
    by (cases rule: announce_cases[of impls name object version seq s]) (auto simp: sc_ops)
qed (auto simp: sc_ops setupExposedProtocols_def Let_def)

interpretation acks: quiet_invariant impls "\<lambda>s. filter is_done (sc_sent s) = ds" for impls ds
proof unfold_locales
  fix s t :: server_client
  assume "api impls s t" "filter is_done (sc_sent s) = ds"
  then show "filter is_done (sc_sent t) = ds"
  proof cases
    case (api_call oid mid vas)
    then show ?thesis
      using \<open>filter is_done (sc_sent s) = ds\<close>
      by (elim object_call_cases) (auto simp: sc_ops is_done_def enc_FatalError_def split: list.splits)
  next
    case (api_create ref r object seq)
    then show ?thesis
      using \<open>filter is_done (sc_sent s) = ds\<close>
      by (cases rule: announce_cases[of impls "w_protocolName r" object "w_version r" seq s])
        (auto simp: sc_ops is_done_def enc_FatalError_def enc_NewObject_def)
  qed (auto simp: sc_ops is_done_def enc_FatalError_def)
next
  fix s :: server_client and name object version seq
  assume "filter is_done (sc_sent s) = ds"
  then show "filter is_done (sc_sent (snd (announce_object impls name object version seq s))) = ds"
    by (cases rule: announce_cases[of impls name object version seq s])
      (auto simp: sc_ops is_done_def enc_FatalError_def enc_NewObject_def)
qed (auto simp: sc_ops setupExposedProtocols_def Let_def is_done_def enc_HandshakeBegin_def
    enc_HandshakeProtocols_def enc_FatalError_def)

text \<open>The last sequence a stream requests, where it requests one.\<close>

fun last_roundtrip :: "client_msg list \<Rightarrow> u32 \<Rightarrow> u32" where
  "last_roundtrip [] q = q"
| "last_roundtrip (CmRoundtrip seq # ms) q = last_roundtrip ms seq"
| "last_roundtrip (m # ms) q = last_roundtrip ms q"

lemma last_roundtrip_other: "(\<And>seq. m \<noteq> CmRoundtrip seq) \<Longrightarrow> last_roundtrip (m # ms) q = last_roundtrip ms q"
  by (cases m) auto

lemma serve_schedule:
  "env_ok env impls \<Longrightarrow> serve env impls ms s = Inr ([], t) \<Longrightarrow>
     sc_scheduledRoundtripSeq t = last_roundtrip ms (sc_scheduledRoundtripSeq s) \<and>
     filter is_done (sc_sent t) = filter is_done (sc_sent s)"
proof (induction ms arbitrary: s)
  case (Cons m ms)
  then obtain u where u: "serve_one env impls m s = Inr u" "serve env impls ms u = Inr ([], t)"
    by (auto simp: bnd_eq_Inr split: if_splits)
  note IH = Cons.IH[OF Cons.prems(1) u(2)]
  show ?case
  proof (cases "\<exists>seq. m = CmRoundtrip seq")
    case True
    with u(1) IH show ?thesis by auto
  next
    case False
    then have other: "m \<noteq> CmRoundtrip seq" for seq by blast
    have "sc_scheduledRoundtripSeq u = sc_scheduledRoundtripSeq s"
      using schedule.keep_serve_one[OF Cons.prems(1) refl other u(1)] .
    moreover have "filter is_done (sc_sent u) = filter is_done (sc_sent s)"
      using acks.keep_serve_one[OF Cons.prems(1) refl other u(1)] .
    ultimately show ?thesis using IH last_roundtrip_other[OF other] by simp
  qed
qed simp

text \<open>C19. A read acknowledges roundtrips exactly once and last: after every other message of
  the stream was handled, one \<^verbatim>\<open>ROUNDTRIP_DONE\<close> with the sequence of the last request is
  sent and the schedule is cleared; earlier requests of the same read, and a last request
  with sequence zero, are not acknowledged.\<close>

theorem roundtrip_acknowledged:
  assumes "env_ok env impls" and "list_all ok_client_msg ms" and "vec_ok (enc_stream ms)" and "ms \<noteq> []"
    and "serve env impls ms s = Inr ([], u)" and "sc_fdValid u"
    and "dispatchClient env impls (Some (enc_stream ms, stream_fds ms)) s = Some (Inr t)"
  shows "(let q = last_roundtrip ms (sc_scheduledRoundtripSeq s) in
     sc_sent t = sc_sent u @ (if q = 0 then [] else [(enc_RoundtripDone q, [])]) \<and>
     filter is_done (sc_sent u) = filter is_done (sc_sent s) \<and>
     sc_scheduledRoundtripSeq t = 0)"
proof -
  have "enc_stream ms \<noteq> []" using assms(4) by (cases ms) simp_all
  moreover have "server_handleMessage env impls (enc_stream ms) (stream_fds ms) s = Some (Inr (MESSAGE_PARSED_OK, u))"
    using server_loop_stream[OF assms(2), of "enc_stream ms" 0 env impls s] assms(3,5)
    by (simp add: server_handleMessage_def)
  ultimately have "t = (if 0 < sc_scheduledRoundtripSeq u then
      (client_sendMessage (enc_RoundtripDone (sc_scheduledRoundtripSeq u)) [] u)\<lparr>sc_scheduledRoundtripSeq := 0\<rparr>
    else u)"
    using assms(7) by (simp add: dispatchClient_def split: if_splits)
  then show ?thesis
    using serve_schedule[OF assms(1,5)] assms(6)
    by (auto simp: Let_def client_sendMessage_def word_greater_zero_iff)
qed

section \<open>Creating objects\<close>

text \<open>C12. An object is created exactly when its protocol was exposed to the client and is
  registered with an object of that name (any, on a bind) in at least the version asked for.\<close>

theorem create_object_iff:
  "fst (client_createObject env impls name object version seq s) \<noteq> None \<longleftrightarrow>
     name \<in> set (sc_exposedProtocols s) \<and>
     (case find (\<lambda>p. specName (protocol p) = name) impls of
        None \<Rightarrow> False
      | Some p \<Rightarrow> version \<le> specVer (protocol p) \<and>
          (\<exists>sp \<in> set (spec_objects (protocol p)). object = [] \<or> objectName sp = object))"
proof -
  have find: "find (\<lambda>sp. objectName sp = object \<or> object = []) sps = None \<longleftrightarrow>
      \<not> (\<exists>sp \<in> set sps. object = [] \<or> objectName sp = object)" for sps
    by (auto simp: find_None_iff)
  have "fst (client_createObject env impls name object version seq s) \<noteq> None \<longleftrightarrow>
      snd (resolve_object impls (sc_exposedProtocols s) name object version (fresh_object (sc_maxId s) version)) = None"
    by (cases rule: announce_cases[of impls name object version seq s]) (simp_all add: client_createObject_def)
  also have "\<dots> \<longleftrightarrow> name \<in> set (sc_exposedProtocols s) \<and>
     (case find (\<lambda>p. specName (protocol p) = name) impls of
        None \<Rightarrow> False
      | Some p \<Rightarrow> version \<le> specVer (protocol p) \<and>
          (\<exists>sp \<in> set (spec_objects (protocol p)). object = [] \<or> objectName sp = object))"
    by (auto simp: resolve_object_def Let_def find not_less split: option.split)
  finally show ?thesis .
qed

text \<open>A refused creation runs no user code: it sends one fatal error for the id it drew and
  puts the connection in error; the id is used up.\<close>

theorem create_object_refused:
  assumes "client_createObject env impls name object version seq s = (None, t)"
  shows "sc_error t \<and> sc_maxId t = sc_maxId s + 1 \<and>
    (\<exists>msg. sc_sent t = sc_sent s @ (if sc_fdValid s then
       [(enc_FatalError \<lparr>fe_objectId = sc_maxId s, fe_errorId = - 1, fe_errorMsg = msg\<rparr>, [])] else []))"
  using assms
  by (cases rule: announce_cases[of impls name object version seq s])
    (auto simp: client_createObject_def sc_ops)

text \<open>
  Ids are handed out in increasing order; \<open>ids_ok\<close> holds until the counter wraps.
\<close>

definition ids_ok :: "server_client \<Rightarrow> bool" where
  "ids_ok s \<longleftrightarrow> sc_maxId s \<noteq> 0 \<and> distinct (map w_id (sc_objects s)) \<and>
     list_all (\<lambda>obj. w_id obj \<noteq> 0 \<and> w_id obj < sc_maxId s) (sc_objects s)"

lemma resolve_object_id: "resolve_object impls exposed name object version obj = (obj', err) \<Longrightarrow> w_id obj' = w_id obj"
  by (auto simp: resolve_object_def Let_def split: option.splits if_splits)

lemma u32_succ: "v \<noteq> - 1 \<Longrightarrow> v < v + 1 \<and> v + 1 \<noteq> 0" for v :: u32
proof -
  assume "v \<noteq> - 1"
  then have "unat v \<noteq> unat (- 1 :: u32)" using word_unat_eq_iff by blast
  moreover have "unat (- 1 :: u32) = 4294967295"
    by (simp add: unsigned_minus_1_eq_mask mask_eq_exp_minus_1)
  moreover have "unat v < 4294967296" using unsigned_less[of v] by simp
  ultimately have "Suc (unat v) < 2 ^ 32" by simp
  then have "unat (v + 1) = Suc (unat v)" by (simp add: unat_word_ariths)
  then show ?thesis by (metis lessI nat.distinct(1) unsigned_0 word_less_nat_alt)
qed

lemma ids_ok_unused: "ids_ok s \<Longrightarrow> sc_maxId s \<notin> w_id ` set (sc_objects s)"
  by (force simp: ids_ok_def list_all_iff)

lemma announce_ids_ok:
  assumes "ids_ok s" and "sc_maxId s \<noteq> - 1"
  shows "ids_ok (snd (announce_object impls name object version seq s))"
proof -
  have objs: "\<exists>obj. w_id obj = sc_maxId s \<and>
      sc_objects (snd (announce_object impls name object version seq s)) = sc_objects s @ [obj] \<and>
      sc_maxId (snd (announce_object impls name object version seq s)) = sc_maxId s + 1"
  proof (cases rule: announce_cases[of impls name object version seq s])
    case (1 obj msg)
    with resolve_object_id[OF 1(2)] show ?thesis by (auto simp: sc_ops fresh_object_def)
  next
    case (2 obj)
    with resolve_object_id[OF 2(2)] show ?thesis by (auto simp: sc_ops fresh_object_def)
  qed
  have "w < sc_maxId s + 1" if "w < sc_maxId s" for w
    using that u32_succ[OF assms(2)] by (meson order.strict_trans)
  with objs assms u32_succ[OF assms(2)] ids_ok_unused[OF assms(1)] show ?thesis
    by (auto simp: ids_ok_def list_all_iff)
qed

lemma find_append: "find P (xs @ ys) = (case find P xs of None \<Rightarrow> find P ys | Some x \<Rightarrow> Some x)"
  by (induction xs) auto

lemma announced_object:
  assumes "ids_ok s" and "announce_object impls name object version seq s = (Some obj, t)"
  shows "w_id obj = sc_maxId s" and "w_id obj \<noteq> 0" and "find_object (w_id obj) t = Some obj"
    and "sc_sent t = sc_sent s @ (if sc_fdValid s then [(enc_NewObject \<lparr>no_seq = seq, no_id = w_id obj\<rparr>, [])] else [])"
proof -
  obtain obj' where t: "announce_object impls name object version seq s =
       (Some obj', client_sendMessage (enc_NewObject \<lparr>no_seq = seq, no_id = sc_maxId s\<rparr>) []
          (s\<lparr>sc_maxId := sc_maxId s + 1, sc_objects := sc_objects s @ [obj']\<rparr>))"
    and id: "w_id obj' = sc_maxId s"
    using assms(2)
    by (cases rule: announce_cases[of impls name object version seq s])
      (auto dest: resolve_object_id simp: fresh_object_def)
  have "find (has_id (sc_maxId s)) (sc_objects s) = None"
    using ids_ok_unused[OF assms(1)] by (force simp: find_None_iff has_id_def)
  moreover have "sc_maxId s \<noteq> 0" using assms(1) by (simp add: ids_ok_def)
  ultimately show "w_id obj = sc_maxId s" "w_id obj \<noteq> 0" "find_object (w_id obj) t = Some obj"
    "sc_sent t = sc_sent s @ (if sc_fdValid s then [(enc_NewObject \<lparr>no_seq = seq, no_id = w_id obj\<rparr>, [])] else [])"
    using t id assms(2) by (auto simp: client_sendMessage_def find_object_def has_id_def find_append)
qed

text \<open>C11. Every object gets an id that no object of the connection has or had before it, never
  zero, and the client learns it: the message that answers the request carries it with the
  sequence of the request. This holds for the first 2^32 - 2 objects of a connection.\<close>

theorem created_id_fresh:
  assumes "ids_ok s" and "sc_maxId s \<noteq> - 1"
    and "announce_object impls name object version seq s = (Some obj, t)"
  shows "w_id obj = sc_maxId s \<and> w_id obj \<noteq> 0 \<and> w_id obj \<notin> set (map w_id (sc_objects s)) \<and> ids_ok t \<and>
    find_object (w_id obj) t = Some obj \<and>
    sc_sent t = sc_sent s @ (if sc_fdValid s then [(enc_NewObject \<lparr>no_seq = seq, no_id = w_id obj\<rparr>, [])] else [])"
  using announced_object[OF assms(1,3)] announce_ids_ok[OF assms(1,2), of impls name object version seq]
    ids_ok_unused[OF assms(1)] assms(3)
  by auto

section \<open>Destroying objects\<close>

lemma destroyed_not_found: "oid \<noteq> 0 \<Longrightarrow> m_isDestructor method \<Longrightarrow> find_object oid (destroyIfNeeded oid method s) = None"
  by (auto simp: destroyIfNeeded_def find_object_def client_destroyObject_def find_None_iff Let_def)

text \<open>C13. A call of a destructor that is not a protocol error destroys the object, whether or
  not a listener is registered for it, and any later message to its id is answered with a
  fatal error for that id and puts the connection in error.\<close>

theorem destructor_ends_object:
  assumes "w_spec obj = Some sp" and "oid \<noteq> 0"
    and "called (env_prep env) obj (methodsIn sp) mid data fds = Inr r"
    and "r = CalledIgnored meth \<or> r = CalledInvoke fn vals meth" and "m_isDestructor meth"
  shows "\<exists>t. object_called env oid mid data fds obj s = Inr t \<and> find_object oid t = None \<and>
    (\<forall>msg. gm_object msg = oid \<longrightarrow>
       client_onGeneric env msg t = Inr (object_error oid (- 1) (unknown_object oid) t))"
  using assms by (auto simp: object_called_def client_onGeneric_def destroyed_not_found)

section \<open>First poll\<close>

interpretation polled: quiet_invariant impls sc_firstPollDone for impls
proof unfold_locales
  fix s t :: server_client
  assume "api impls s t" "sc_firstPollDone s"
  then show "sc_firstPollDone t"
  proof cases
    case (api_call oid mid vas)
    then show ?thesis using \<open>sc_firstPollDone s\<close> by (elim object_call_cases) (auto simp: sc_ops)
  next
    case (api_create ref r object seq)
    then show ?thesis
      using \<open>sc_firstPollDone s\<close>
      by (cases rule: announce_cases[of impls "w_protocolName r" object "w_version r" seq s]) (auto simp: sc_ops)
  qed (auto simp: sc_ops)
next
  fix s :: server_client and name object version seq
  assume "sc_firstPollDone s"
  then show "sc_firstPollDone (snd (announce_object impls name object version seq s))"
    by (cases rule: announce_cases[of impls name object version seq s]) (auto simp: sc_ops)
qed (auto simp: sc_ops setupExposedProtocols_def Let_def)

text \<open>The first greeting fixes what the client may see - the registered protocols that the
  filter installed by then accepts, in order - and further greetings change nothing but
  to repeat the version offer.\<close>

theorem first_poll_exposes:
  assumes "env_ok env impls" and "\<not> sc_firstPollDone s" and "env_newClient env = Some handler"
  shows "(let s1 = s\<lparr>sc_firstPollDone := True\<rparr>;
      s2 = (case env_peerPid env of None \<Rightarrow> s1 | Some pid \<Rightarrow> s1\<lparr>sc_pid := pid\<rparr>);
      t = dispatchFirstPoll env impls s
    in sc_exposedProtocols t = sc_exposedProtocols (handler s2) @
         (case sc_protocolFilter (handler s2) of
            None \<Rightarrow> map (\<lambda>i. specName (protocol i)) impls
          | Some f \<Rightarrow> filter f (map (\<lambda>i. specName (protocol i)) impls)) \<and>
       dispatchFirstPoll env impls t = t \<and>
       serve_one env impls CmHello t = Inr (client_sendMessage (enc_HandshakeBegin [HYPRWIRE_PROTOCOL_VER]) [] t))"
proof -
  let ?s1 = "s\<lparr>sc_firstPollDone := True\<rparr>"
  let ?s2 = "case env_peerPid env of None \<Rightarrow> ?s1 | Some pid \<Rightarrow> ?s1\<lparr>sc_pid := pid\<rparr>"
  have t: "dispatchFirstPoll env impls s = setupExposedProtocols impls (handler ?s2)"
    using assms(2,3) by (simp add: dispatchFirstPoll_def Let_def)
  have "sc_firstPollDone ?s2" by (simp split: option.split)
  then have "sc_firstPollDone (handler ?s2)" by (rule polled.keep_newClient[OF assms(1,3)])
  then have "sc_firstPollDone (setupExposedProtocols impls (handler ?s2))"
    by (rule polled.keep_expose)
  then have "dispatchFirstPoll env impls (setupExposedProtocols impls (handler ?s2)) =
      setupExposedProtocols impls (handler ?s2)"
    by (simp add: dispatchFirstPoll_def)
  moreover have "sc_exposedProtocols (setupExposedProtocols impls u) = sc_exposedProtocols u @
      (case sc_protocolFilter u of None \<Rightarrow> map (\<lambda>i. specName (protocol i)) impls
       | Some f \<Rightarrow> filter f (map (\<lambda>i. specName (protocol i)) impls))" for u
    by (simp add: setupExposedProtocols_def split: option.split)
  ultimately show ?thesis unfolding t Let_def by simp
qed

section \<open>Witnesses\<close>

text \<open>A server with one protocol, whose bind handler registers a listener.\<close>

definition example_spec :: protocol_spec where
  "example_spec = \<lparr>specName = ''my_protocol'', specVer = 1,
     spec_objects = [\<lparr>objectName = ''my_manager'', c2s = [example_method,
       \<lparr>m_idx = 1, m_params = [], m_returnsType = [], m_since = 1, m_isDestructor = True\<rparr>], s2c = []\<rparr>]\<rparr>"

definition example_impls :: "protocol_impl list" where
  "example_impls = [\<lparr>protocol = example_spec,
     implementation = [\<lparr>oi_objectName = ''my_manager'', oi_version = 1, oi_onBind = Some 1\<rparr>]\<rparr>]"

definition example_bind :: "nat \<Rightarrow> u32 \<Rightarrow> server_client \<Rightarrow> server_client" where
  "example_bind cb oid s =
     (case find_object oid s of
        None \<Rightarrow> s
      | Some obj \<Rightarrow>
          (case listen 0 (Some 7) obj of Inl _ \<Rightarrow> s | Inr obj' \<Rightarrow> update_object oid (\<lambda>_. obj') s))"

definition example_env :: server_env where
  "example_env = \<lparr>env_prep = (\<lambda>_. True), env_peerPid = Some 42,
     env_newClient = Some (setProtocolFilter (Some (\<lambda>name. name = ''my_protocol''))),
     env_onBind = example_bind, env_invoke = (\<lambda>fn oid vals s. s)\<rparr>"

lemma example_env_ok: "env_ok example_env impls"
proof -
  have "apis impls s (example_bind cb oid s)" for cb oid s
    by (auto simp: example_bind_def split: option.split sum.split intro: api_listen)
  moreover have "apis impls s (setProtocolFilter f s)" for f s
    by (intro r_into_rtranclp api_filter)
  ultimately show ?thesis by (simp add: env_ok_def example_env_def)
qed

lemma example_impls_ok: "impls_ok example_impls"
  by (simp add: impls_ok_def spec_ok_def example_impls_def example_spec_def example_method_def)

lemma new_client_ok: "objects_ok impls (new_server_client fd valid)"
  by (simp add: objects_ok_def new_server_client_def)

definition example_stream :: "client_msg list" where
  "example_stream =
     [CmHello, CmAck 1, CmBind \<lparr>bind_protocol = ''my_protocol'', bind_seq = 1, bind_version = 1\<rparr>,
      CmCall 1 0 [WPrim TYPE_SEQ 2, WPrim TYPE_UINT 7, WStr [104, 105], WArrFd [4]], CmCall 1 1 [], CmCall 1 0 []]"

lemma example_stream_ok: "list_all ok_client_msg example_stream" "vec_ok (enc_stream example_stream)"
proof -
  show "list_all ok_client_msg example_stream"
    by (simp add: example_stream_def ok_BindProtocol_def ok_string_def array_limit_def)
  show "vec_ok (enc_stream example_stream)"
    using length_encodeVarInt(1)[of "length ''my_protocol''"] length_encodeVarInt(1)[of "Suc (Suc 0)"]
      length_encodeVarInt(1)[of "Suc 0"]
    by (simp add: example_stream_def vec_ok_def enc_HandshakeAck_def enc_BindProtocol_def enc_string_def enc_bytes_def)
qed

theorem server_stream_refines_witness:
  "server_handleMessage example_env example_impls (enc_stream example_stream) (stream_fds example_stream)
     (new_server_client 5 True) =
   Some (bnd (serve example_env example_impls example_stream (new_server_client 5 True)) (\<lambda>(rest, t).
     Inr (if stream_fds rest \<noteq> [] then MESSAGE_PARSED_STRAY_FDS else MESSAGE_PARSED_OK, t)))"
  by (rule server_stream_refines[OF example_stream_ok])

theorem server_survives_calls_witness:
  "\<exists>res t. server_handleMessage example_env example_impls (enc_stream example_stream) (stream_fds example_stream)
     (new_server_client 5 True) = Some (Inr (res, t)) \<and> objects_ok example_impls t"
  using server_survives_calls[OF example_env_ok example_impls_ok new_client_ok example_stream_ok] by blast

theorem server_read_ends_witness:
  "\<exists>r. server_handleMessage example_env example_impls [1, 0x20, 3, 0x56, 0x41, 0x58, 0, 13, 0x10] []
     (new_server_client 5 True) = Some r"
  using server_read_ends[OF example_env_ok example_impls_ok new_client_ok,
      of "[1, 0x20, 3, 0x56, 0x41, 0x58, 0, 13, 0x10]" "[]" 5 True]
  by (auto simp: short_runs_def vec_ok_def list_all_iff bit_numeral_word_iff upt_rec)

theorem server_error_final_witness:
  "\<exists>u. sc_error u \<and> length (sc_sent u) = 1 \<and>
     server_handleMessage example_env example_impls (enc_stream [CmCall 9 0 []] @ enc_HandshakeAck 1) [7]
       (new_server_client 5 True) = Some (Inr (MESSAGE_PARSED_STRAY_FDS, u))"
proof -
  let ?s = "new_server_client 5 True"
  obtain u where u: "serve example_env example_impls [CmCall 9 0 []] ?s = Inr ([], u)" "sc_error u" "length (sc_sent u) = 1"
    by (simp add: client_onGeneric_def find_object_def new_server_client_def object_error_def object_errd_def
        send_fatal_def client_sendMessage_def)
  then show ?thesis
    using server_error_final[OF example_env_ok _ _ u(1,2), of "enc_HandshakeAck 1" "[7]"]
    by (auto simp: vec_ok_def enc_Generic_def enc_HandshakeAck_def)
qed

theorem roundtrip_acknowledged_witness:
  "(let ms = [CmHello, CmRoundtrip 3, CmRoundtrip 4]; s = new_server_client 5 True
    in \<exists>t. dispatchClient example_env example_impls (Some (enc_stream ms, stream_fds ms)) s = Some (Inr t) \<and>
       last (sc_sent t) = (enc_RoundtripDone 4, []) \<and> sc_scheduledRoundtripSeq t = 0)"
proof -
  let ?ms = "[CmHello, CmRoundtrip 3, CmRoundtrip 4]" and ?s = "new_server_client 5 True"
  have ok: "list_all ok_client_msg ?ms" "vec_ok (enc_stream ?ms)"
    by (simp_all add: vec_ok_def enc_RoundtripRequest_def)
  obtain u where u: "serve example_env example_impls ?ms ?s = Inr ([], u)" "sc_fdValid u"
    by (simp add: new_server_client_def dispatchFirstPoll_def setupExposedProtocols_def client_sendMessage_def
        example_env_def setProtocolFilter_def Let_def)
  obtain r where r: "dispatchClient example_env example_impls (Some (enc_stream ?ms, stream_fds ?ms)) ?s = Some (Inr r)"
    using read_serves[OF ok u(1)]
    by (simp add: dispatchClient_def enc_Hello_def)
  from roundtrip_acknowledged[OF example_env_ok ok _ u r] r show ?thesis
    by (auto simp: Let_def new_server_client_def)
qed

theorem create_object_refused_witness:
  "(let t = snd (client_createObject example_env example_impls ''my_protocol'' [] 1 1 (new_server_client 5 True))
    in sc_error t \<and> sc_maxId t = 2 \<and> length (sc_sent t) = 1)"
proof -
  have "client_createObject example_env example_impls ''my_protocol'' [] 1 1 (new_server_client 5 True) =
      (None, snd (client_createObject example_env example_impls ''my_protocol'' [] 1 1 (new_server_client 5 True)))"
    by (simp add: client_createObject_def announce_object_def resolve_object_def new_server_client_def
        example_impls_def example_spec_def)
  from create_object_refused[OF this] show ?thesis by (auto simp: Let_def new_server_client_def)
qed

theorem created_id_fresh_witness:
  "(let s = (new_server_client 5 True)\<lparr>sc_exposedProtocols := [''my_protocol'']\<rparr>;
        r = announce_object example_impls ''my_protocol'' [] 1 9 s
    in \<exists>obj. fst r = Some obj \<and> w_id obj = 1 \<and> ids_ok (snd r) \<and>
       sc_sent (snd r) = [(enc_NewObject \<lparr>no_seq = 9, no_id = 1\<rparr>, [])])"
proof -
  let ?s = "(new_server_client 5 True)\<lparr>sc_exposedProtocols := [''my_protocol'']\<rparr>"
  obtain obj t where "announce_object example_impls ''my_protocol'' [] 1 9 ?s = (Some obj, t)"
    by (simp add: announce_object_def resolve_object_def new_server_client_def example_impls_def example_spec_def)
  with created_id_fresh[OF _ _ this] show ?thesis
    by (simp add: ids_ok_def new_server_client_def)
qed

theorem destructor_ends_object_witness:
  "(let obj = \<lparr>w_listeners = [], w_id = 1, w_version = 1, w_seq = 1, w_destroyed = False,
          w_protocolName = ''my_protocol'', w_spec = Some (hd (spec_objects example_spec))\<rparr>;
        s = (new_server_client 5 True)\<lparr>sc_objects := [obj]\<rparr>
    in \<exists>t. object_called example_env 1 1 [0] [] obj s = Inr t \<and> find_object 1 t = None)"
proof -
  let ?sp = "hd (spec_objects example_spec)"
  let ?obj = "\<lparr>w_listeners = [], w_id = 1, w_version = 1, w_seq = 1, w_destroyed = False,
    w_protocolName = ''my_protocol'', w_spec = Some ?sp\<rparr>"
  let ?m = "\<lparr>m_idx = 1, m_params = [], m_returnsType = [], m_since = 1, m_isDestructor = True\<rparr>"
  have "called (env_prep example_env) ?obj (methodsIn ?sp) 1 [0] [] = Inr (CalledIgnored ?m)"
    by (simp add: called_def methodsIn_def example_spec_def)
  from destructor_ends_object[OF _ _ this, where meth = ?m and oid = 1] show ?thesis by (auto simp: Let_def)
qed

theorem first_poll_exposes_witness:
  "sc_exposedProtocols (dispatchFirstPoll example_env example_impls (new_server_client 5 True)) = [''my_protocol'']"
  using first_poll_exposes[OF example_env_ok, of "new_server_client 5 True"
      "setProtocolFilter (Some (\<lambda>name. name = ''my_protocol''))" example_impls]
  by (simp add: Let_def new_server_client_def example_env_def setProtocolFilter_def example_impls_def example_spec_def)

end
