(* ===== verification/Client_Socket.thy ===== *)
theory Client_Socket
  imports Remote_Call Control_Messages
begin

text \<open>
  The client: \<^verbatim>\<open>CClientSocket\<close> and its \<^verbatim>\<open>CClientObject\<close>s. As on the server, user code and
  the libraries are the fields of an environment, here with the references the user holds
  to objects, which decide what \<^verbatim>\<open>collectOrphanedObjects\<close> removes.
\<close>

section \<open>State\<close>

text \<open>A call that waits for the id of its object: \<^verbatim>\<open>m_dependsOnSeq\<close>, the bytes, the descriptors.\<close>

record pending_msg =
  pm_dependsOnSeq :: u32
  pm_data :: "byte list"
  pm_fds :: "int list"

record client_socket =
  cs_fdValid :: bool
  cs_impls :: "protocol_spec list"
  cs_serverSpecs :: "protocol_spec list"
  cs_objects :: "wire_object list"
  cs_pendingOutgoing :: "pending_msg list"
  cs_error :: bool
  cs_handshakeDone :: bool
  cs_seq :: u32
  cs_lastAckdRoundtripSeq :: u32
  cs_lastSentRoundtripSeq :: u32
  cs_sent :: "(byte list \<times> int list) list"

text \<open>\<open>cenv_held\<close>: the user still has a strong reference to the object.\<close>

record client_env =
  cenv_prep :: "ffi_type list \<Rightarrow> bool"
  cenv_held :: "wire_object \<Rightarrow> bool"
  cenv_invoke :: "nat \<Rightarrow> u32 \<Rightarrow> avalue list \<Rightarrow> client_socket \<Rightarrow> client_socket"

definition socket_sendMessage :: "byte list \<Rightarrow> int list \<Rightarrow> client_socket \<Rightarrow> client_socket" where
  "socket_sendMessage data fds s =
     (if cs_fdValid s then s\<lparr>cs_sent := cs_sent s @ [(data, fds)]\<rparr> else s)"

text \<open>\<^verbatim>\<open>attemptFromFd\<close>, and what \<^verbatim>\<open>attempt\<close> does once connected.\<close>

definition open_socket :: "bool \<Rightarrow> client_socket" where
  "open_socket valid =
     socket_sendMessage (enc_Hello ()) []
       \<lparr>cs_fdValid = valid, cs_impls = [], cs_serverSpecs = [], cs_objects = [], cs_pendingOutgoing = [],
        cs_error = False, cs_handshakeDone = False, cs_seq = 0, cs_lastAckdRoundtripSeq = 0,
        cs_lastSentRoundtripSeq = 0, cs_sent = []\<rparr>"

definition addImplementation :: "protocol_spec \<Rightarrow> client_socket \<Rightarrow> client_socket" where
  "addImplementation p s = s\<lparr>cs_impls := cs_impls s @ [p]\<rparr>"

definition disconnectOnError :: "client_socket \<Rightarrow> client_socket" where
  "disconnectOnError s = s\<lparr>cs_error := True, cs_fdValid := False\<rparr>"

definition client_errd :: "client_socket \<Rightarrow> client_socket" where
  "client_errd s = s\<lparr>cs_error := True\<rparr>"

section \<open>Server specifications\<close>

text \<open>
  \<^verbatim>\<open>std::stoul\<close> in base ten: white space, a sign, digits up to the first other character.
  \<open>None\<close> is an exception: no digit, or a value beyond \<^verbatim>\<open>unsigned long\<close>.
\<close>

definition is_space :: "char \<Rightarrow> bool" where
  "is_space c \<longleftrightarrow> (of_char c :: nat) \<in> {9, 10, 11, 12, 13, 32}"

definition stoul :: "string \<Rightarrow> nat option" where
  "stoul str =
     (let str = dropWhile is_space str;
          neg = (case str of c # _ \<Rightarrow> c = CHR ''-'' | [] \<Rightarrow> False);
          str = (case str of c # cs \<Rightarrow> if c = CHR ''-'' \<or> c = CHR ''+'' then cs else str | [] \<Rightarrow> []);
          n = read_dec 0 str
      in if str = [] \<or> \<not> is_digit (hd str) then None
         else if 2 ^ 64 \<le> n then None
         else Some (if neg then ssub 0 n else n))"

text \<open>
  \<^verbatim>\<open>find_last_of('@')\<close>: the split at the last at sign; without one, \<^verbatim>\<open>npos\<close> makes both
  substrings the whole name.
\<close>

definition at_sign :: char where
  "at_sign = CHR 0x40"

definition split_entry :: "string \<Rightarrow> string \<times> string" where
  "split_entry entry =
     (if at_sign \<in> set entry then
        (let back = takeWhile (\<lambda>c. c \<noteq> at_sign) (rev entry)
         in (take (length entry - Suc (length back)) entry, rev back))
      else (entry, entry))"

fun add_specs :: "string list \<Rightarrow> client_socket \<Rightarrow> client_socket" where
  "add_specs [] s = s"
| "add_specs (entry # entries) s =
     (case stoul (snd (split_entry entry)) of
        None \<Rightarrow> disconnectOnError s
      | Some v \<Rightarrow>
          add_specs entries
            (s\<lparr>cs_serverSpecs := cs_serverSpecs s @ [server_spec (fst (split_entry entry)) (of_nat v)]\<rparr>))"

definition serverSpecs :: "string list \<Rightarrow> client_socket \<Rightarrow> client_socket" where
  "serverSpecs entries s = (add_specs entries s)\<lparr>cs_handshakeDone := True\<rparr>"

definition getSpec :: "string \<Rightarrow> client_socket \<Rightarrow> protocol_spec option" where
  "getSpec name s = find (\<lambda>p. specName p = name) (cs_serverSpecs s)"

section \<open>Objects\<close>

definition objectForId :: "u32 \<Rightarrow> client_socket \<Rightarrow> wire_object option" where
  "objectForId oid s = find (\<lambda>obj. w_id obj = oid) (cs_objects s)"

definition objectForSeq :: "u32 \<Rightarrow> client_socket \<Rightarrow> wire_object option" where
  "objectForSeq seq s = find (\<lambda>obj. w_seq obj = seq) (cs_objects s)"

fun set_id :: "u32 \<Rightarrow> u32 \<Rightarrow> wire_object list \<Rightarrow> wire_object list" where
  "set_id seq oid [] = []"
| "set_id seq oid (obj # objs) =
     (if w_seq obj = seq then obj\<lparr>w_id := oid\<rparr> # objs else obj # set_id seq oid objs)"

definition onSeq :: "u32 \<Rightarrow> u32 \<Rightarrow> client_socket \<Rightarrow> client_socket" where
  "onSeq seq oid s = s\<lparr>cs_objects := set_id seq oid (cs_objects s)\<rparr>"

definition socket_destroyObject :: "u32 \<Rightarrow> client_socket \<Rightarrow> client_socket" where
  "socket_destroyObject oid s = s\<lparr>cs_objects := filter (\<lambda>obj. w_id obj \<noteq> oid) (cs_objects s)\<rparr>"

definition client_destroyIfNeeded :: "u32 \<Rightarrow> u32 \<Rightarrow> spec_method \<Rightarrow> client_socket \<Rightarrow> client_socket" where
  "client_destroyIfNeeded seq oid method s =
     (if \<not> m_isDestructor method then s
      else
        let s = s\<lparr>cs_objects := map (\<lambda>obj. if w_seq obj = seq then obj\<lparr>w_destroyed := True\<rparr> else obj) (cs_objects s)\<rparr>
        in if oid = 0 then s else socket_destroyObject oid s)"

definition find_spec :: "protocol_spec list \<Rightarrow> string \<Rightarrow> string \<Rightarrow> object_spec option" where
  "find_spec impls protocolName name =
     (case find (\<lambda>p. specName p = protocolName) impls of
        None \<Rightarrow> None
      | Some p \<Rightarrow> find (\<lambda>sp. objectName sp = name) (spec_objects p))"

text \<open>An object without a specification in the registered implementations is not kept.\<close>

definition makeObject :: "string \<Rightarrow> string \<Rightarrow> u32 \<Rightarrow> client_socket \<Rightarrow> client_socket" where
  "makeObject protocolName name seq s =
     (case find_spec (cs_impls s) protocolName name of
        None \<Rightarrow> s
      | Some spec \<Rightarrow>
          s\<lparr>cs_objects := cs_objects s @
             [\<lparr>w_listeners = [], w_id = 0, w_version = 0, w_seq = seq, w_destroyed = False,
               w_protocolName = protocolName, w_spec = Some spec\<rparr>]\<rparr>)"

section \<open>Calling\<close>

definition client_methodsOut :: "object_spec \<Rightarrow> spec_method list" where
  "client_methodsOut spec = c2s spec"

definition client_methodsIn :: "object_spec \<Rightarrow> spec_method list" where
  "client_methodsIn spec = s2c spec"

text \<open>
  \<^verbatim>\<open>IWireObject::call\<close> on a client object: the value it returns, the object and the socket.
  \<^verbatim>\<open>error\<close> does nothing on this side. A call on an object that has no id yet is deferred.
\<close>

definition client_call ::
  "u32 \<Rightarrow> va list \<Rightarrow> wire_object \<Rightarrow> client_socket \<Rightarrow> (u32 \<times> wire_object \<times> client_socket) attempt" where
  "client_call mid vas obj s =
     (case w_spec obj of
        None \<Rightarrow> Inl Undefined
      | Some spec \<Rightarrow>
          (case call_error False obj (client_methodsOut spec) mid of
             Some msg \<Rightarrow> Inr (0, obj, s)
           | None \<Rightarrow>
               let method = client_methodsOut spec ! unat mid;
                   obj = (if m_isDestructor method then obj\<lparr>w_destroyed := True\<rparr> else obj);
                   returns = (m_returnsType method \<noteq> []);
                   seqVal = (if returns then cs_seq s + 1 else 0);
                   s = (if returns then s\<lparr>cs_seq := seqVal\<rparr> else s)
               in bnd (call_message obj method mid seqVal vas) (\<lambda>r. case r of
                    MarshalFailed \<Rightarrow> Inr (0, obj, client_errd s)
                  | Marshalled data fds \<Rightarrow>
                      let s = (if w_id obj = 0
                               then s\<lparr>cs_pendingOutgoing := cs_pendingOutgoing s @
                                      [\<lparr>pm_dependsOnSeq = w_seq obj, pm_data = data, pm_fds = fds\<rparr>]\<rparr>
                               else socket_sendMessage data fds s)
                      in Inr (if seqVal = 0 then (0, obj, s)
                              else (seqVal, obj, makeObject (w_protocolName obj) (m_returnsType method) seqVal s)))))"

text \<open>The same on the object of a sequence that the socket holds.\<close>

definition call_seq :: "u32 \<Rightarrow> u32 \<Rightarrow> va list \<Rightarrow> client_socket \<Rightarrow> (u32 \<times> client_socket) attempt" where
  "call_seq seq mid vas s =
     (case objectForSeq seq s of
        None \<Rightarrow> Inl Undefined
      | Some obj \<Rightarrow>
          bnd (client_call mid vas obj s) (\<lambda>(ret, obj', s).
          Inr (ret, s\<lparr>cs_objects := map (\<lambda>ob. if w_seq ob = seq then ob\<lparr>w_destroyed := w_destroyed obj'\<rparr> else ob) (cs_objects s)\<rparr>)))"

text \<open>
  \<^verbatim>\<open>~CClientObject\<close>: an object that was not destroyed by a call destroys itself on the
  server, by the first destructor its version has, if that takes and returns nothing.
\<close>

definition auto_destructor :: "wire_object \<Rightarrow> u32 option" where
  "auto_destructor obj =
     (case w_spec obj of
        None \<Rightarrow> None
      | Some spec \<Rightarrow>
          (case find (\<lambda>m. m_isDestructor m \<and> \<not> m_since m > w_version obj) (client_methodsOut spec) of
             None \<Rightarrow> None
           | Some m \<Rightarrow> if m_returnsType m \<noteq> [] \<or> m_params m \<noteq> [] then None else Some (m_idx m)))"

definition release_object :: "wire_object \<Rightarrow> client_socket \<Rightarrow> client_socket attempt" where
  "release_object obj s =
     (if \<not> w_destroyed obj \<and> w_id obj \<noteq> 0 \<and> cs_fdValid s then
        (case auto_destructor obj of
           None \<Rightarrow> Inr s
         | Some mid \<Rightarrow> bnd (client_call mid [] obj s) (\<lambda>(_, _, s). Inr s))
      else Inr s)"

fun release_objects :: "wire_object list \<Rightarrow> client_socket \<Rightarrow> client_socket attempt" where
  "release_objects [] s = Inr s"
| "release_objects (obj # objs) s = bnd (release_object obj s) (release_objects objs)"

definition orphaned :: "client_env \<Rightarrow> wire_object \<Rightarrow> bool" where
  "orphaned env obj \<longleftrightarrow> w_id obj \<noteq> 0 \<and> \<not> cenv_held env obj"

definition collectOrphanedObjects :: "client_env \<Rightarrow> client_socket \<Rightarrow> client_socket attempt" where
  "collectOrphanedObjects env s =
     release_objects (filter (orphaned env) (cs_objects s))
       (s\<lparr>cs_objects := filter (\<lambda>obj. \<not> orphaned env obj) (cs_objects s)\<rparr>)"

section \<open>Being called\<close>

definition socket_object_called ::
  "client_env \<Rightarrow> u32 \<Rightarrow> byte list \<Rightarrow> int list \<Rightarrow> wire_object \<Rightarrow> client_socket \<Rightarrow> client_socket attempt" where
  "socket_object_called env mid data fds obj s =
     (case w_spec obj of
        None \<Rightarrow> Inl Undefined
      | Some spec \<Rightarrow>
          bnd (called (cenv_prep env) obj (client_methodsIn spec) mid data fds) (\<lambda>r. Inr (
          case r of
            CalledError msg \<Rightarrow> s
          | CalledErrd \<Rightarrow> client_errd s
          | CalledIgnored method \<Rightarrow> client_destroyIfNeeded (w_seq obj) (w_id obj) method s
          | CalledInvoke fn vals method \<Rightarrow>
              client_destroyIfNeeded (w_seq obj) (w_id obj) method (cenv_invoke env fn (w_seq obj) vals s))))"

definition socket_onGeneric :: "client_env \<Rightarrow> generic_msg \<Rightarrow> client_socket \<Rightarrow> client_socket attempt" where
  "socket_onGeneric env msg s =
     (case objectForId (gm_object msg) s of
        None \<Rightarrow> Inr (disconnectOnError s)
      | Some obj \<Rightarrow> socket_object_called env (gm_method msg) (gm_data msg) (gm_fds msg) obj s)"

end
