(* ===== verification/Client_Dispatch.thy ===== *)
theory Client_Dispatch
  imports Client_Socket Server_Dispatch
begin

text \<open>
  The client's half of \<^verbatim>\<open>CMessageParser\<close>, \<^verbatim>\<open>CClientSocket::dispatchEvents\<close> and the
  operations that block on it. What the kernel and the clock answer is an input of each
  dispatch; an operation that blocks takes a list of them and is \<open>None\<close> when they run out.
\<close>

section \<open>One message\<close>

type_synonym client_dispatched = "stop + nat \<times> int list \<times> client_socket"

definition client_refused :: "int list \<Rightarrow> client_socket \<Rightarrow> client_dispatched" where
  "client_refused fds s = Inr (0, fds, s)"

definition client_parsed ::
  "('m \<times> nat) attempt \<Rightarrow> int list \<Rightarrow> client_socket \<Rightarrow> ('m \<Rightarrow> nat \<Rightarrow> nat \<times> client_socket) \<Rightarrow> client_dispatched" where
  "client_parsed p fds s act =
     bnd (caught p) (\<lambda>r. case r of
       None \<Rightarrow> client_refused fds s
     | Some (m, len) \<Rightarrow> (case act m len of (n, s) \<Rightarrow> Inr (n, fds, s)))"

text \<open>
  A fatal error is taken whether or not it parses: \<^verbatim>\<open>m_error\<close> is set in both cases, and the
  length returned is that of the message, zero for a malformed one. Two cases refuse a
  message without setting \<^verbatim>\<open>m_error\<close>: a malformed message and an unknown code.
\<close>

definition client_parseSingle ::
  "client_env \<Rightarrow> byte list \<Rightarrow> nat \<Rightarrow> int list \<Rightarrow> client_socket \<Rightarrow> client_dispatched option" where
  "client_parseSingle env data off fds s =
     obnd (vec_at data off) (\<lambda>b.
     case type_of_byte b of
       Some MSG_HANDSHAKE_BEGIN \<Rightarrow> Some (client_parsed (parse_HandshakeBegin data off) fds s (\<lambda>versions len.
         if HYPRWIRE_PROTOCOL_VER \<notin> set versions then (0, s)
         else (len, socket_sendMessage (enc_HandshakeAck HYPRWIRE_PROTOCOL_VER) [] s)))
     | Some MSG_HANDSHAKE_PROTOCOLS \<Rightarrow> Some (client_parsed (parse_HandshakeProtocols data off) fds s (\<lambda>names len.
         (len, serverSpecs names s)))
     | Some MSG_NEW_OBJECT \<Rightarrow> Some (client_parsed (parse_NewObject data off) fds s (\<lambda>m len.
         (len, onSeq (no_seq m) (no_id m) s)))
     | Some MSG_GENERIC_PROTOCOL_MESSAGE \<Rightarrow>
         (case parse_Generic data fds off of
            None \<Rightarrow> None
          | Some p \<Rightarrow> Some (bnd (caught p) (\<lambda>r. case r of
              None \<Rightarrow> client_refused fds s
            | Some (m, len, fds') \<Rightarrow> bnd (socket_onGeneric env m s) (\<lambda>s'. Inr (len, fds', s')))))
     | Some MSG_FATAL_PROTOCOL_ERROR \<Rightarrow>
         Some (client_parsed (parse_FatalError data off) fds (client_errd s) (\<lambda>m len. (len, client_errd s)))
     | Some MSG_ROUNDTRIP_DONE \<Rightarrow> Some (client_parsed (parse_RoundtripDone data off) fds s (\<lambda>seq len.
         (len, s\<lparr>cs_lastAckdRoundtripSeq := seq\<rparr>)))
     | Some MSG_INVALID \<Rightarrow> Some (client_refused fds s)
     | None \<Rightarrow> Some (client_refused fds s)
     | _ \<Rightarrow> Some (client_refused fds (client_errd s)))"

section \<open>A read\<close>

partial_function (option) client_loop ::
  "client_env \<Rightarrow> byte list \<Rightarrow> nat \<Rightarrow> int list \<Rightarrow> client_socket \<Rightarrow>
   (stop + parsing_result \<times> client_socket) option" where
  "client_loop env data needle fds s =
     (if needle < length data then
        Option.bind (client_parseSingle env data needle fds s) (\<lambda>r.
        obnd r (\<lambda>(ret, fds', s').
          if ret = 0 then Some (Inr (MESSAGE_PARSED_ERROR, s'))
          else client_loop env data (sadd needle ret) fds' s'))
      else Some (Inr (if fds \<noteq> [] then MESSAGE_PARSED_STRAY_FDS else MESSAGE_PARSED_OK, s)))"

definition client_handleMessage ::
  "client_env \<Rightarrow> byte list \<Rightarrow> int list \<Rightarrow> client_socket \<Rightarrow> (stop + parsing_result \<times> client_socket) option" where
  "client_handleMessage env data fds s = client_loop env data 0 fds s"

section \<open>Dispatching\<close>

text \<open>
  The deferred calls, in order: dropped when their object is gone, kept while it has no id,
  else patched and sent.
\<close>

fun flush_pending :: "pending_msg list \<Rightarrow> client_socket \<Rightarrow> pending_msg list \<times> client_socket" where
  "flush_pending [] s = ([], s)"
| "flush_pending (m # ms) s =
     (case objectForSeq (pm_dependsOnSeq m) s of
        None \<Rightarrow> flush_pending ms s
      | Some obj \<Rightarrow>
          if w_id obj = 0 then (case flush_pending ms s of (kept, s) \<Rightarrow> (m # kept, s))
          else flush_pending ms (socket_sendMessage (resolveSeq (w_id obj) (pm_data m)) (pm_fds m) s))"

definition flushPendingOutgoing :: "client_socket \<Rightarrow> client_socket" where
  "flushPendingOutgoing s =
     (case flush_pending (cs_pendingOutgoing s) s of (kept, s) \<Rightarrow> s\<lparr>cs_pendingOutgoing := kept\<rparr>)"

text \<open>
  The answers one dispatch gets: whether the handshake deadline has passed, whether the poll
  reported an event, the two bits of \<^verbatim>\<open>revents\<close>, and the read, \<open>None\<close> if it failed.
\<close>

record dispatch_input =
  di_deadlinePassed :: bool
  di_pollEvent :: bool
  di_pollin :: bool
  di_pollhup :: bool
  di_read :: "(byte list \<times> int list) option"

type_synonym 'a returned = "(stop + 'a \<times> client_socket) option"

definition dispatch_read :: "client_env \<Rightarrow> dispatch_input \<Rightarrow> client_socket \<Rightarrow> bool returned" where
  "dispatch_read env inp s =
     (case di_read inp of
        None \<Rightarrow> Some (Inr (False, disconnectOnError s))
      | Some (data, fds) \<Rightarrow>
          if data = [] then Some (Inr (False, s))
          else
            Option.bind (client_handleMessage env data fds s) (\<lambda>r.
            obnd r (\<lambda>(ret, s).
              if ret \<noteq> MESSAGE_PARSED_OK then Some (Inr (False, disconnectOnError s))
              else
                Some (bnd (collectOrphanedObjects env (flushPendingOutgoing s)) (\<lambda>s.
                Inr (\<not> cs_error s, s))))))"

definition dispatchEvents :: "client_env \<Rightarrow> bool \<Rightarrow> dispatch_input \<Rightarrow> client_socket \<Rightarrow> bool returned" where
  "dispatchEvents env block inp s =
     (if cs_error s then Some (Inr (False, s))
      else
        obnd (collectOrphanedObjects env s) (\<lambda>s.
        if \<not> cs_handshakeDone s \<and> block \<and> (di_deadlinePassed inp \<or> \<not> di_pollEvent inp) then
          Some (Inr (False, disconnectOnError s))
        else if \<not> di_pollin inp then
          Some (bnd (collectOrphanedObjects env s) (\<lambda>s. Inr (\<not> di_pollhup inp, s)))
        else dispatch_read env inp s))"

section \<open>Blocking operations\<close>

fun waitForHandshake :: "client_env \<Rightarrow> dispatch_input list \<Rightarrow> client_socket \<Rightarrow> (bool \<times> dispatch_input list) returned" where
  "waitForHandshake env inps s =
     (if \<not> cs_error s \<and> \<not> cs_handshakeDone s then
        (case inps of
           [] \<Rightarrow> None
         | inp # inps' \<Rightarrow>
             Option.bind (dispatchEvents env True inp s) (\<lambda>r.
             obnd r (\<lambda>(go, s).
               if \<not> go then Some (Inr ((False, inps'), s)) else waitForHandshake env inps' s)))
      else Some (Inr ((\<not> cs_error s, inps), s)))"

text \<open>
  \<^verbatim>\<open>x->m_id\<close> of the object made for a sequence. Only objects with an id are ever removed from
  the list, so one that is no longer there has one.
\<close>

definition has_id_for :: "u32 \<Rightarrow> client_socket \<Rightarrow> bool" where
  "has_id_for seq s = (case objectForSeq seq s of None \<Rightarrow> True | Some obj \<Rightarrow> w_id obj \<noteq> 0)"

text \<open>The result of each dispatch is ignored here.\<close>

fun waitForObject :: "client_env \<Rightarrow> u32 \<Rightarrow> dispatch_input list \<Rightarrow> client_socket \<Rightarrow> dispatch_input list returned" where
  "waitForObject env seq inps s =
     (if \<not> has_id_for seq s \<and> \<not> cs_error s then
        (case inps of
           [] \<Rightarrow> None
         | inp # inps' \<Rightarrow>
             Option.bind (dispatchEvents env True inp s) (\<lambda>r.
             obnd r (\<lambda>(_, s). waitForObject env seq inps' s)))
      else Some (Inr (inps, s)))"

text \<open>
  \<^verbatim>\<open>bindProtocol\<close> up to the wait. \<^verbatim>\<open>front()\<close> of a specification without objects, such as the
  ones \<^verbatim>\<open>getSpec\<close> returns, is undefined.
\<close>

definition bind_request :: "protocol_spec \<Rightarrow> u32 \<Rightarrow> client_socket \<Rightarrow> (u32 option \<times> client_socket) attempt" where
  "bind_request spec version s =
     (if version > specVer spec then Inr (None, disconnectOnError s)
      else
        (case spec_objects spec of
           [] \<Rightarrow> Inl Undefined
         | sp # _ \<Rightarrow>
             let seq = cs_seq s + 1;
                 obj = \<lparr>w_listeners = [], w_id = 0, w_version = version, w_seq = seq, w_destroyed = False,
                        w_protocolName = specName spec, w_spec = Some sp\<rparr>;
                 s = s\<lparr>cs_seq := seq, cs_objects := cs_objects s @ [obj]\<rparr>
             in Inr (Some seq, socket_sendMessage
                  (enc_BindProtocol \<lparr>bind_protocol = specName spec, bind_seq = seq, bind_version = version\<rparr>) [] s)))"

definition bindProtocol ::
  "client_env \<Rightarrow> protocol_spec \<Rightarrow> u32 \<Rightarrow> dispatch_input list \<Rightarrow> client_socket \<Rightarrow>
   (u32 option \<times> dispatch_input list) returned" where
  "bindProtocol env spec version inps s =
     obnd (bind_request spec version s) (\<lambda>(r, s).
     case r of
       None \<Rightarrow> Some (Inr ((None, inps), s))
     | Some seq \<Rightarrow>
         Option.bind (waitForObject env seq inps s) (\<lambda>r.
         obnd r (\<lambda>(inps, s). Some (Inr ((Some seq, inps), s)))))"

fun await_roundtrip :: "client_env \<Rightarrow> u32 \<Rightarrow> dispatch_input list \<Rightarrow> client_socket \<Rightarrow> dispatch_input list returned" where
  "await_roundtrip env nextSeq inps s =
     (if cs_lastAckdRoundtripSeq s < nextSeq then
        (case inps of
           [] \<Rightarrow> None
         | inp # inps' \<Rightarrow>
             Option.bind (dispatchEvents env True inp s) (\<lambda>r.
             obnd r (\<lambda>(go, s).
               if \<not> go then Some (Inr (inps', s)) else await_roundtrip env nextSeq inps' s)))
      else Some (Inr (inps, s)))"

definition roundtrip :: "client_env \<Rightarrow> dispatch_input list \<Rightarrow> client_socket \<Rightarrow> dispatch_input list returned" where
  "roundtrip env inps s =
     (if cs_error s then Some (Inr (inps, s))
      else
        let nextSeq = cs_lastSentRoundtripSeq s + 1
        in await_roundtrip env nextSeq inps
             (socket_sendMessage (enc_RoundtripRequest nextSeq) [] (s\<lparr>cs_lastSentRoundtripSeq := nextSeq\<rparr>)))"

end
