(* ===== verification/Client_Invariants.thy ===== *)
theory Client_Invariants
  imports Server_Safety Client_Dispatch
begin

text \<open>
  Invariants of the client: the contract a property has to meet to survive a read and a
  dispatch, proved through both loops once, and the properties of interest as
  interpretations.
\<close>

declare waitForHandshake.simps [simp del] waitForObject.simps [simp del] await_roundtrip.simps [simp del]

section \<open>The public interface\<close>

text \<open>
  What the user's listeners may do to the socket: call methods, bind a protocol that the
  scanner generated - well-formed parameters, methods numbered by position -, listen,
  register. The counter of sequences is taken not to wrap, and a
  listener that blocks - it would dispatch from inside a dispatch - is left out.
\<close>

definition generated :: "object_spec \<Rightarrow> bool" where
  "generated sp \<longleftrightarrow> spec_ok sp \<and> (\<forall>i < length (c2s sp). unat (m_idx (c2s sp ! i)) = i)"

inductive client_api :: "client_socket \<Rightarrow> client_socket \<Rightarrow> bool" where
  capi_call: "call_seq seq mid vas s = Inr (ret, t) \<Longrightarrow> cs_seq s \<noteq> - 1 \<Longrightarrow> client_api s t"
| capi_bind: "bind_request spec version s = Inr (r, t) \<Longrightarrow> cs_seq s \<noteq> - 1 \<Longrightarrow>
    list_all generated (spec_objects spec) \<Longrightarrow> client_api s t"
| capi_listen: "objectForSeq seq s = Some obj \<Longrightarrow> listen mid fn obj = Inr obj' \<Longrightarrow>
    client_api s (s\<lparr>cs_objects := map (\<lambda>ob. if w_seq ob = seq then ob\<lparr>w_listeners := w_listeners obj'\<rparr> else ob) (cs_objects s)\<rparr>)"
| capi_impl: "list_all generated (spec_objects p) \<Longrightarrow> client_api s (addImplementation p s)"

abbreviation client_apis :: "client_socket \<Rightarrow> client_socket \<Rightarrow> bool" where
  "client_apis \<equiv> client_api\<^sup>*\<^sup>*"

definition client_env_ok :: "client_env \<Rightarrow> bool" where
  "client_env_ok env \<longleftrightarrow> (\<forall>fn seq vals s. client_apis s (cenv_invoke env fn seq vals s))"

section \<open>The contract\<close>

text \<open>The flush of the deferred calls as a sequence of sends.\<close>

lemma flush_keeps:
  assumes send: "\<And>data fds s. P s \<Longrightarrow> P (socket_sendMessage data fds s)"
    and pending: "\<And>ms s. P s \<Longrightarrow> P (s\<lparr>cs_pendingOutgoing := ms\<rparr>)"
  shows "P s \<Longrightarrow> P (flushPendingOutgoing s)"
proof -
  have "P s \<Longrightarrow> P (snd (flush_pending ms s))" for ms s
    by (induction ms s rule: flush_pending.induct) (auto split: option.split prod.split intro: send)
  then show "P s \<Longrightarrow> P (flushPendingOutgoing s)"
    by (auto simp: flushPendingOutgoing_def split: prod.split intro!: pending) (metis snd_conv)
qed

text \<open>
  First the updates a client makes whatever it is told: those of the user, of its own answers
  and of the destruction of objects. What the messages of the server themselves change -
  specifications, ids, the acknowledged sequence - comes on top.
\<close>

locale client_quiet =
  fixes P :: "client_socket \<Rightarrow> bool"
  assumes keep_api: "client_api s t \<Longrightarrow> P s \<Longrightarrow> P t"
    and keep_ack: "P s \<Longrightarrow> P (socket_sendMessage (enc_HandshakeAck HYPRWIRE_PROTOCOL_VER) [] s)"
    and keep_errd: "P s \<Longrightarrow> P (client_errd s)"
    and keep_disconnect: "P s \<Longrightarrow> P (disconnectOnError s)"
    and keep_destroy: "P s \<Longrightarrow> P (client_destroyIfNeeded seq oid m s)"
    and keep_flush: "P s \<Longrightarrow> P (flushPendingOutgoing s)"
    and keep_collect: "P s \<Longrightarrow> collectOrphanedObjects env s = Inr t \<Longrightarrow> P t"
begin

lemma keep_apis: "client_apis s t \<Longrightarrow> P s \<Longrightarrow> P t"
  by (induction rule: rtranclp_induct) (auto intro: keep_api)

lemma keep_invoke: "client_env_ok env \<Longrightarrow> P s \<Longrightarrow> P (cenv_invoke env fn seq vals s)"
  unfolding client_env_ok_def by (blast intro: keep_apis)

lemma keep_called:
  assumes "client_env_ok env" and "P s" and "socket_object_called env mid data fds obj s = Inr t"
  shows "P t"
  using assms
  by (auto simp: socket_object_called_def bnd_eq_Inr split: option.splits called_result.split
      intro!: keep_errd keep_destroy keep_invoke)

lemma keep_onGeneric: "client_env_ok env \<Longrightarrow> P s \<Longrightarrow> socket_onGeneric env msg s = Inr t \<Longrightarrow> P t"
  by (auto simp: socket_onGeneric_def split: option.splits intro: keep_disconnect keep_called)

lemma keep_after_read: "P s \<Longrightarrow> collectOrphanedObjects env (flushPendingOutgoing s) = Inr t \<Longrightarrow> P t"
  by (rule keep_collect[OF keep_flush])

end

text \<open>Contracts combine, and a value that varies may be hidden.\<close>

lemma client_quiet_conj:
  assumes P: "client_quiet P" and Q: "client_quiet Q"
  shows "client_quiet (\<lambda>c. P c \<and> Q c)"
  by unfold_locales
    (elim conjE, rule conjI, erule (1) client_quiet.keep_api[OF P], erule (1) client_quiet.keep_api[OF Q],
     (elim conjE, rule conjI, erule client_quiet.keep_ack[OF P], erule client_quiet.keep_ack[OF Q]),
     (elim conjE, rule conjI, erule client_quiet.keep_errd[OF P], erule client_quiet.keep_errd[OF Q]),
     (elim conjE, rule conjI, erule client_quiet.keep_disconnect[OF P], erule client_quiet.keep_disconnect[OF Q]),
     (elim conjE, rule conjI, erule client_quiet.keep_destroy[OF P], erule client_quiet.keep_destroy[OF Q]),
     (elim conjE, rule conjI, erule client_quiet.keep_flush[OF P], erule client_quiet.keep_flush[OF Q]),
     elim conjE, rule conjI, erule (1) client_quiet.keep_collect[OF P], erule (1) client_quiet.keep_collect[OF Q])

lemma client_quiet_ex:
  assumes P: "\<And>v. client_quiet (P v)"
  shows "client_quiet (\<lambda>c. \<exists>v. P v c \<and> R v)"
  by unfold_locales
    (elim exE conjE, rule exI, rule conjI, erule (1) client_quiet.keep_api[OF P], assumption,
     (elim exE conjE, rule exI, rule conjI, erule client_quiet.keep_ack[OF P], assumption),
     (elim exE conjE, rule exI, rule conjI, erule client_quiet.keep_errd[OF P], assumption),
     (elim exE conjE, rule exI, rule conjI, erule client_quiet.keep_disconnect[OF P], assumption),
     (elim exE conjE, rule exI, rule conjI, erule client_quiet.keep_destroy[OF P], assumption),
     (elim exE conjE, rule exI, rule conjI, erule client_quiet.keep_flush[OF P], assumption),
     elim exE conjE, rule exI, rule conjI, erule (1) client_quiet.keep_collect[OF P], assumption)

text \<open>Then all of them.\<close>

locale client_invariant = client_quiet +
  assumes keep_specs: "P s \<Longrightarrow> P (serverSpecs names s)"
    and keep_onSeq: "P s \<Longrightarrow> P (onSeq seq oid s)"
    and keep_done: "P s \<Longrightarrow> P (s\<lparr>cs_lastAckdRoundtripSeq := q\<rparr>)"
    and keep_request: "P s \<Longrightarrow>
      P (socket_sendMessage (enc_RoundtripRequest q) [] (s\<lparr>cs_lastSentRoundtripSeq := q\<rparr>))"
begin

lemma keep_client_parsed:
  "client_parsed p fds s act = Inr (n, fds', t) \<Longrightarrow> P s \<Longrightarrow> (\<And>m k. P (snd (act m k))) \<Longrightarrow> P t"
  by (auto simp: client_parsed_def bnd_eq_Inr client_refused_def split: option.splits prod.splits) (metis prod.exhaust_sel)

lemma keep_parseSingle:
  assumes env: "client_env_ok env" and s: "P s"
    and step: "client_parseSingle env data off fds s = Some (Inr (n, fds', t))"
  shows "P t"
proof -
  from step obtain b where b: "vec_at data off = Inr b"
    by (auto simp: client_parseSingle_def obnd_eq_Some)
  note step = step[unfolded client_parseSingle_def b obnd_simps]
  show ?thesis
  proof (cases "type_of_byte b")
    case None
    with step s show ?thesis by (auto simp: client_refused_def)
  next
    case (Some ty)
    note step = step[unfolded Some option.case]
    show ?thesis
    proof (cases ty)
      case MSG_HANDSHAKE_BEGIN
      show ?thesis
        using step[unfolded MSG_HANDSHAKE_BEGIN message_type.case option.inject]
        by (rule keep_client_parsed[OF _ s]) (auto intro: keep_ack s)
    next
      case MSG_HANDSHAKE_PROTOCOLS
      show ?thesis
        using step[unfolded MSG_HANDSHAKE_PROTOCOLS message_type.case option.inject]
        by (rule keep_client_parsed[OF _ s]) (auto intro: keep_specs s)
    next
      case MSG_NEW_OBJECT
      show ?thesis
        using step[unfolded MSG_NEW_OBJECT message_type.case option.inject]
        by (rule keep_client_parsed[OF _ s]) (auto intro: keep_onSeq s)
    next
      case MSG_FATAL_PROTOCOL_ERROR
      show ?thesis
        using step[unfolded MSG_FATAL_PROTOCOL_ERROR message_type.case option.inject]
        by (rule keep_client_parsed[OF _ keep_errd[OF s]]) (auto intro: keep_errd s)
    next
      case MSG_ROUNDTRIP_DONE
      show ?thesis
        using step[unfolded MSG_ROUNDTRIP_DONE message_type.case option.inject]
        by (rule keep_client_parsed[OF _ s]) (auto intro: keep_done s)
    next
      case MSG_GENERIC_PROTOCOL_MESSAGE
      with step s show ?thesis
        by (auto simp: client_refused_def bnd_eq_Inr split: option.splits intro: keep_onGeneric[OF env s])
    qed (use step s keep_errd[OF s] in \<open>auto simp: client_refused_def\<close>)
  qed
qed

lemma keep_loop:
  assumes env: "client_env_ok env"
  shows "client_loop env data needle fds s = Some r \<Longrightarrow> P s \<Longrightarrow> (\<forall>res t. r = Inr (res, t) \<longrightarrow> P t)"
proof -
  let ?Q = "\<lambda>env' data needle fds s r. env' = env \<longrightarrow> P s \<longrightarrow> (\<forall>res t. r = Inr (res, t) \<longrightarrow> P t)"
  assume ret: "client_loop env data needle fds s = Some r" and "P s"
  have "?Q env data needle fds s r"
  proof (rule client_loop.raw_induct[where P = ?Q, OF _ ret], intro impI)
    fix loop env' and data :: "byte list" and needle fds s r
    assume IH: "\<And>env' data needle fds s r. loop env' data needle fds s = Some r \<Longrightarrow> ?Q env' data needle fds s r"
      and eq: "(if needle < length data then
        Option.bind (client_parseSingle env' data needle fds s) (\<lambda>r.
        obnd r (\<lambda>(ret, fds', s').
          if ret = 0 then Some (Inr (MESSAGE_PARSED_ERROR, s'))
          else loop env' data (sadd needle ret) fds' s'))
      else Some (Inr (if fds \<noteq> [] then MESSAGE_PARSED_STRAY_FDS else MESSAGE_PARSED_OK, s))) = Some r"
      and same: "env' = env" and s: "P s"
    note eq = eq[unfolded same]
    show "\<forall>res t. r = Inr (res, t) \<longrightarrow> P t"
    proof (cases "needle < length data")
      case False
      with eq s show ?thesis by auto
    next
      case True
      with eq obtain q where q: "client_parseSingle env data needle fds s = Some q"
        and rest: "obnd q (\<lambda>(ret, fds', s').
          if ret = 0 then Some (Inr (MESSAGE_PARSED_ERROR, s'))
          else loop env data (sadd needle ret) fds' s') = Some r"
        by (auto simp: bind_eq_Some_conv)
      show ?thesis
      proof (cases q)
        case (Inl e)
        with rest show ?thesis by auto
      next
        case (Inr x)
        obtain n fds' s' where x: "x = (n, fds', s')" by (cases x)
        have "P s'" using keep_parseSingle[OF env s] q Inr x by blast
        with rest Inr x IH[of env data "sadd needle n" fds' s' r] show ?thesis by (auto split: if_splits)
      qed
    qed
  qed
  with \<open>P s\<close> show "\<forall>res t. r = Inr (res, t) \<longrightarrow> P t" by blast
qed

lemma keep_handleMessage:
  "client_env_ok env \<Longrightarrow> P s \<Longrightarrow> client_handleMessage env data fds s = Some (Inr (res, t)) \<Longrightarrow> P t"
  unfolding client_handleMessage_def using keep_loop by blast

lemma keep_read:
  assumes env: "client_env_ok env" and s: "P s" and step: "dispatch_read env inp s = Some (Inr (go, t))"
  shows "P t"
proof (cases "di_read inp")
  case None
  with step s show ?thesis by (auto simp: dispatch_read_def intro: keep_disconnect)
next
  case (Some x)
  obtain data fds where x: "x = (data, fds)" by (cases x)
  show ?thesis
  proof (cases "data = []")
    case True
    with step s Some x show ?thesis by (simp add: dispatch_read_def)
  next
    case False
    with step Some x obtain ret u where u: "client_handleMessage env data fds s = Some (Inr (ret, u))"
      and rest: "(if ret \<noteq> MESSAGE_PARSED_OK then Some (Inr (False, disconnectOnError u))
         else Some (bnd (collectOrphanedObjects env (flushPendingOutgoing u)) (\<lambda>s. Inr (\<not> cs_error s, s)))) =
         Some (Inr (go, t))"
      by (auto simp: dispatch_read_def bind_eq_Some_conv obnd_eq_Some)
    have "P u" using keep_handleMessage[OF env s u] .
    with rest show ?thesis
      by (auto simp: bnd_eq_Inr split: if_splits intro: keep_disconnect keep_after_read)
  qed
qed

lemma keep_dispatchEvents:
  assumes env: "client_env_ok env" and s: "P s" and step: "dispatchEvents env block inp s = Some (Inr (go, t))"
  shows "P t"
proof (cases "cs_error s")
  case True
  with step s show ?thesis by (simp add: dispatchEvents_def)
next
  case False
  with step obtain u where u: "collectOrphanedObjects env s = Inr u"
    and rest: "(if \<not> cs_handshakeDone u \<and> block \<and> (di_deadlinePassed inp \<or> \<not> di_pollEvent inp) then
          Some (Inr (False, disconnectOnError u))
        else if \<not> di_pollin inp then
          Some (bnd (collectOrphanedObjects env u) (\<lambda>s. Inr (\<not> di_pollhup inp, s)))
        else dispatch_read env inp u) = Some (Inr (go, t))"
    by (auto simp: dispatchEvents_def obnd_eq_Some)
  have "P u" using keep_collect[OF s u] .
  with rest show ?thesis
    by (auto simp: bnd_eq_Inr split: if_splits intro: keep_disconnect keep_collect keep_read[OF env])
qed

lemma keep_waitForObject:
  "waitForObject env seq inps s = Some (Inr (rest, t)) \<Longrightarrow> client_env_ok env \<Longrightarrow> P s \<Longrightarrow> P t"
proof (induction env seq inps s rule: waitForObject.induct)
  case (1 env seq inps s)
  show ?case
  proof (cases "\<not> has_id_for seq s \<and> \<not> cs_error s")
    case False
    with "1.prems" show ?thesis by (simp add: waitForObject.simps[of env seq inps s])
  next
    case True
    with "1.prems"(1) obtain inp inps' go u where inps: "inps = inp # inps'"
      and u: "dispatchEvents env True inp s = Some (Inr (go, u))"
      and rest: "waitForObject env seq inps' u = Some (Inr (rest, t))"
      by (auto simp: waitForObject.simps[of env seq inps s] bind_eq_Some_conv obnd_eq_Some split: list.splits)
    have "P u" using keep_dispatchEvents[OF "1.prems"(2,3) u] .
    with "1.IH"[OF True inps u rest] "1.prems"(2) show ?thesis by simp
  qed
qed

lemma keep_await:
  "await_roundtrip env q inps s = Some (Inr (rest, t)) \<Longrightarrow> client_env_ok env \<Longrightarrow> P s \<Longrightarrow> P t"
proof (induction env q inps s rule: await_roundtrip.induct)
  case (1 env q inps s)
  show ?case
  proof (cases "cs_lastAckdRoundtripSeq s < q")
    case False
    with "1.prems" show ?thesis by (simp add: await_roundtrip.simps[of env q inps s])
  next
    case True
    with "1.prems"(1) obtain inp inps' go u where inps: "inps = inp # inps'"
      and u: "dispatchEvents env True inp s = Some (Inr (go, u))"
      and rest: "(if \<not> go then Some (Inr (inps', u)) else await_roundtrip env q inps' u) = Some (Inr (rest, t))"
      by (auto simp: await_roundtrip.simps[of env q inps s] bind_eq_Some_conv obnd_eq_Some split: list.splits)
    have "P u" using keep_dispatchEvents[OF "1.prems"(2,3) u] .
    with rest "1.IH"[OF True inps u, of go u] "1.prems"(2) show ?thesis by (cases go) simp_all
  qed
qed

lemma keep_roundtrip:
  "client_env_ok env \<Longrightarrow> P s \<Longrightarrow> roundtrip env inps s = Some (Inr (rest, t)) \<Longrightarrow> P t"
  unfolding roundtrip_def
  by (auto simp: Let_def split: if_splits dest!: keep_await intro: keep_request)

end

section \<open>An error is final\<close>

text \<open>The three outcomes of a call: refused, not marshalled, sent or deferred.\<close>

lemma client_call_cases:
  assumes "client_call mid vas obj s = Inr (ret, obj', t)"
  obtains (refused) "t = s" "obj' = obj" "ret = 0"
  | (failed) sp m u where "w_spec obj = Some sp" "unat mid < length (client_methodsOut sp)"
      "m = client_methodsOut sp ! unat mid" "u = (if m_returnsType m \<noteq> [] then s\<lparr>cs_seq := cs_seq s + 1\<rparr> else s)"
      "t = client_errd u"
  | (passed) sp m u v pm data fds where "w_spec obj = Some sp" "unat mid < length (client_methodsOut sp)"
      "m = client_methodsOut sp ! unat mid" "u = (if m_returnsType m \<noteq> [] then s\<lparr>cs_seq := cs_seq s + 1\<rparr> else s)"
      "v = u\<lparr>cs_pendingOutgoing := cs_pendingOutgoing u @ [pm]\<rparr> \<or> v = socket_sendMessage data fds u"
      "t = (if m_returnsType m \<noteq> [] \<and> cs_seq s + 1 \<noteq> 0 then makeObject (w_protocolName obj) (m_returnsType m) (cs_seq s + 1) v else v)"
      "\<exists>ob q. call_message ob m mid q vas = Inr (Marshalled data fds)" "pm_data pm = data" "pm_fds pm = fds"
      "pm_dependsOnSeq pm = w_seq obj" "w_id obj = 0 \<or> v = socket_sendMessage data fds u"
proof -
  from assms obtain sp where sp: "w_spec obj = Some sp" by (auto simp: client_call_def split: option.splits)
  let ?m = "client_methodsOut sp ! unat mid"
  let ?u = "if m_returnsType ?m \<noteq> [] then s\<lparr>cs_seq := cs_seq s + 1\<rparr> else s"
  show thesis
  proof (cases "call_error False obj (client_methodsOut sp) mid")
    case (Some msg)
    with assms sp refused show thesis by (simp add: client_call_def)
  next
    case None
    then have len: "unat mid < length (client_methodsOut sp)" by (simp add: call_error_def split: if_splits)
    let ?obj = "if m_isDestructor ?m then obj\<lparr>w_destroyed := True\<rparr> else obj"
    let ?q = "if m_returnsType ?m \<noteq> [] then cs_seq s + 1 else 0"
    from assms sp None obtain r where r: "call_message ?obj ?m mid ?q vas = Inr r"
      by (auto simp: client_call_def Let_def bnd_eq_Inr)
    show thesis
    proof (cases r)
      case MarshalFailed
      with assms sp None r have "t = client_errd ?u"
        by (cases "m_returnsType ?m = []") (simp_all add: client_call_def Let_def)
      then show thesis by (rule failed[OF sp len refl refl])
    next
      case (Marshalled data fds)
      let ?pm = "\<lparr>pm_dependsOnSeq = w_seq ?obj, pm_data = data, pm_fds = fds\<rparr>"
      let ?v = "if w_id ?obj = 0 then ?u\<lparr>cs_pendingOutgoing := cs_pendingOutgoing ?u @ [?pm]\<rparr>
         else socket_sendMessage data fds ?u"
      have "w_protocolName ?obj = w_protocolName obj" by simp
      then have "t = (if ?q = 0 then ?v else makeObject (w_protocolName obj) (m_returnsType ?m) ?q ?v)"
        using assms sp None r Marshalled by (simp add: client_call_def Let_def split del: if_split cong: if_cong) (auto split: if_splits)
      then show thesis
        using r Marshalled by (intro passed[OF sp len refl refl, of ?v ?pm data fds]) (auto split: if_splits)
    qed
  qed
qed

lemma client_call_error:
  assumes "client_call mid vas obj s = Inr (ret, obj', t)" and "cs_error s"
  shows "cs_error t"
  using assms(1)
  by (cases rule: client_call_cases)
    (use assms(2) in \<open>auto simp: client_errd_def socket_sendMessage_def makeObject_def split: option.split if_splits\<close>)

lemma release_objects_keep:
  assumes "\<And>obj s t. obj \<in> set objs \<Longrightarrow> release_object obj s = Inr t \<Longrightarrow> P s \<Longrightarrow> P t"
  shows "release_objects objs s = Inr t \<Longrightarrow> P s \<Longrightarrow> P t"
  using assms by (induction objs arbitrary: s) (auto simp: bnd_eq_Inr)

lemma release_error: "release_object obj s = Inr t \<Longrightarrow> cs_error s \<Longrightarrow> cs_error t"
  by (auto simp: release_object_def bnd_eq_Inr split: if_splits option.splits dest: client_call_error)

interpretation client_sticky: client_invariant cs_error
proof unfold_locales
  fix s t
  assume "client_api s t" "cs_error s"
  then show "cs_error t"
    by cases (auto simp: call_seq_def bind_request_def bnd_eq_Inr Let_def disconnectOnError_def socket_sendMessage_def
        addImplementation_def split: option.splits if_splits list.splits dest: client_call_error)
next
  fix names s
  have "cs_error s \<Longrightarrow> cs_error (add_specs names s)" for s
    by (induction names s rule: add_specs.induct) (auto simp: disconnectOnError_def split: option.split)
  then show "cs_error s \<Longrightarrow> cs_error (serverSpecs names s)" by (simp add: serverSpecs_def)
next
  fix s t env
  assume "cs_error s" "collectOrphanedObjects env s = Inr t"
  then show "cs_error t"
    unfolding collectOrphanedObjects_def by (auto intro: release_objects_keep[of _ cs_error] release_error)
next
  show "cs_error s \<Longrightarrow> cs_error (flushPendingOutgoing s)" for s
    by (rule flush_keeps[of cs_error]) (auto simp: socket_sendMessage_def)
qed (auto simp: socket_sendMessage_def onSeq_def client_errd_def disconnectOnError_def client_destroyIfNeeded_def
    socket_destroyObject_def Let_def)

section \<open>Objects and sequences\<close>

text \<open>
  Every object the client holds has a specification the scanner generated, and its own
  sequence, not above the counter.
\<close>

definition client_object_ok :: "wire_object \<Rightarrow> bool" where
  "client_object_ok obj \<longleftrightarrow> (case w_spec obj of None \<Rightarrow> False | Some sp \<Rightarrow> generated sp)"

definition client_ok :: "client_socket \<Rightarrow> bool" where
  "client_ok s \<longleftrightarrow>
     list_all (\<lambda>p. list_all generated (spec_objects p)) (cs_impls s) \<and>
     list_all client_object_ok (cs_objects s) \<and>
     distinct (map w_seq (cs_objects s)) \<and> list_all (\<lambda>obj. w_seq obj \<le> cs_seq s) (cs_objects s)"

text \<open>What \<open>client_ok\<close> reads of the state.\<close>

lemma client_ok_cong:
  assumes "cs_impls t = cs_impls s" "cs_objects t = cs_objects s" "cs_seq t = cs_seq s"
  shows "client_ok t = client_ok s"
  using assms by (simp add: client_ok_def)

lemma client_ok_simps [simp]:
  "client_ok (socket_sendMessage data fds s) = client_ok s" "client_ok (client_errd s) = client_ok s"
  "client_ok (disconnectOnError s) = client_ok s" "client_ok (s\<lparr>cs_lastAckdRoundtripSeq := q\<rparr>) = client_ok s"
  "client_ok (s\<lparr>cs_pendingOutgoing := ms\<rparr>) = client_ok s" "client_ok (s\<lparr>cs_lastSentRoundtripSeq := q\<rparr>) = client_ok s"
  by (rule client_ok_cong; simp add: socket_sendMessage_def client_errd_def disconnectOnError_def)+

lemma client_ok_objects:
  assumes "client_ok s" and "\<And>obj. w_seq (f obj) = w_seq obj \<and> w_spec (f obj) = w_spec obj"
  shows "client_ok (s\<lparr>cs_objects := map f (cs_objects s)\<rparr>)"
  using assms by (simp add: client_ok_def client_object_ok_def list_all_iff o_def)

lemma client_ok_filter: "client_ok s \<Longrightarrow> client_ok (s\<lparr>cs_objects := filter keep (cs_objects s)\<rparr>)"
  by (auto simp: client_ok_def list_all_iff distinct_map_filter)

lemma client_ok_onSeq:
  assumes "client_ok s" shows "client_ok (onSeq seq oid s)"
proof -
  have "map w_seq (set_id seq oid objs) = map w_seq objs \<and> map w_spec (set_id seq oid objs) = map w_spec objs" for objs
    by (induction objs) auto
  moreover have "list_all client_object_ok objs = list_all (\<lambda>sp. case sp of None \<Rightarrow> False | Some sp \<Rightarrow> generated sp) (map w_spec objs)"
    "list_all (\<lambda>obj. w_seq obj \<le> q) objs = list_all (\<lambda>x. x \<le> q) (map w_seq objs)" for objs q
    by (simp_all add: list_all_iff client_object_ok_def)
  ultimately show ?thesis using assms by (simp add: client_ok_def onSeq_def)
qed

lemma next_seq_fresh:
  assumes "client_ok s" and "cs_seq s \<noteq> - 1"
  shows "cs_seq s < cs_seq s + 1" and "cs_seq s + 1 \<notin> w_seq ` set (cs_objects s)"
proof -
  show less: "cs_seq s < cs_seq s + 1"
    using u32_succ[OF assms(2)] by simp
  show "cs_seq s + 1 \<notin> w_seq ` set (cs_objects s)"
    using assms(1) less by (auto simp: client_ok_def list_all_iff)
qed

lemma find_spec_generated:
  assumes "list_all (\<lambda>p. list_all generated (spec_objects p)) impls" and "find_spec impls pn name = Some sp"
  shows "generated sp"
  using assms by (auto simp: find_spec_def list_all_iff find_Some_iff split: option.splits dest: nth_mem)

text \<open>An object of the next sequence is added.\<close>

lemma client_ok_append:
  assumes "client_ok s" and "cs_seq s \<noteq> - 1" and "w_seq obj = cs_seq s + 1" and "client_object_ok obj"
  shows "client_ok (s\<lparr>cs_seq := cs_seq s + 1, cs_objects := cs_objects s @ [obj]\<rparr>)"
proof -
  note fresh = next_seq_fresh[OF assms(1,2)]
  have "list_all (\<lambda>ob. w_seq ob \<le> cs_seq s + 1) (cs_objects s)"
    using assms(1) fresh(1) by (force simp: client_ok_def list_all_iff)
  with assms fresh(2) show ?thesis by (simp add: client_ok_def)
qed

lemma client_ok_makeObject:
  assumes "client_ok s" and "cs_seq s \<noteq> - 1" and "v = s\<lparr>cs_seq := cs_seq s + 1, cs_pendingOutgoing := ms, cs_sent := log\<rparr>"
  shows "client_ok (makeObject pn name (cs_seq s + 1) v)"
proof (cases "find_spec (cs_impls s) pn name")
  case None
  have "list_all (\<lambda>ob. w_seq ob \<le> cs_seq s + 1) (cs_objects s)"
    using assms(1) next_seq_fresh(1)[OF assms(1,2)] by (force simp: client_ok_def list_all_iff)
  with None assms show ?thesis by (simp add: makeObject_def client_ok_def)
next
  case (Some sp)
  have "generated sp" using assms(1) Some by (auto simp: client_ok_def intro: find_spec_generated)
  then have "client_ok (s\<lparr>cs_seq := cs_seq s + 1, cs_objects := cs_objects s @
      [\<lparr>w_listeners = [], w_id = 0, w_version = 0, w_seq = cs_seq s + 1, w_destroyed = False,
        w_protocolName = pn, w_spec = Some sp\<rparr>]\<rparr>)"
    using assms(1,2) by (intro client_ok_append) (simp_all add: client_object_ok_def)
  with Some assms(3) show ?thesis by (simp add: makeObject_def client_ok_def)
qed

lemma client_ok_counter: "client_ok s \<Longrightarrow> cs_seq s \<noteq> - 1 \<Longrightarrow> client_ok (s\<lparr>cs_seq := cs_seq s + 1\<rparr>)"
  using next_seq_fresh(1)[of s] by (force simp: client_ok_def list_all_iff)

lemma client_call_ok:
  assumes "client_call mid vas obj s = Inr (ret, obj', t)" and ok: "client_ok s" and wrap: "cs_seq s \<noteq> - 1"
  shows "client_ok t"
  using assms(1)
proof (cases rule: client_call_cases)
  case refused
  with ok show ?thesis by simp
next
  case (failed sp m u)
  then show ?thesis using ok client_ok_counter[OF ok wrap] by (simp add: client_errd_def client_ok_def)
next
  case (passed sp m u v pm data fds)
  show ?thesis
  proof (cases "m_returnsType m = []")
    case True
    with passed(4-6) ok show ?thesis by (auto simp: socket_sendMessage_def client_ok_def)
  next
    case False
    then have "\<exists>ms log. v = s\<lparr>cs_seq := cs_seq s + 1, cs_pendingOutgoing := ms, cs_sent := log\<rparr>"
      using passed(4,5) by (auto simp: socket_sendMessage_def)
        (metis client_socket.surjective client_socket.update_convs(5,8,11))+
    with client_ok_makeObject[OF ok wrap] False passed(6) u32_succ[OF wrap] show ?thesis by auto
  qed
qed

text \<open>An automatic destructor has neither arguments nor a result: it draws no sequence.\<close>

lemma release_ok:
  assumes "release_object obj s = Inr t" and "client_object_ok obj" and ok: "client_ok s"
  shows "client_ok t"
proof (cases "auto_destructor obj")
  case None
  with assms show ?thesis by (simp add: release_object_def split: if_splits)
next
  case (Some mid)
  then obtain sp m where sp: "w_spec obj = Some sp" "m \<in> set (client_methodsOut sp)" "m_idx m = mid"
    "m_returnsType m = []"
    by (auto simp: auto_destructor_def find_Some_iff split: option.splits if_splits dest: nth_mem)
  then obtain i where i: "i < length (c2s sp)" "c2s sp ! i = m" by (auto simp: client_methodsOut_def in_set_conv_nth)
  have "generated sp" using assms(2) sp(1) by (simp add: client_object_ok_def)
  then have idx: "client_methodsOut sp ! unat mid = m" using i sp(3) by (auto simp: generated_def client_methodsOut_def)
  show ?thesis
  proof (cases "t = s")
    case False
    with assms(1) Some obtain ret obj' where "client_call mid [] obj s = Inr (ret, obj', t)"
      by (auto simp: release_object_def bnd_eq_Inr split: if_splits)
    then show ?thesis
    proof (cases rule: client_call_cases)
      case (failed sp' m' u)
      with sp idx ok show ?thesis by (simp add: client_errd_def client_ok_def)
    next
      case (passed sp' m' u v pm data fds)
      with sp idx ok show ?thesis by (auto simp: socket_sendMessage_def client_ok_def)
    qed (use ok in simp)
  qed (use ok in simp)
qed

lemma collect_ok:
  assumes "client_ok s" and "collectOrphanedObjects env s = Inr t"
  shows "client_ok t"
proof -
  let ?u = "s\<lparr>cs_objects := filter (\<lambda>obj. \<not> orphaned env obj) (cs_objects s)\<rparr>"
  have objs: "\<forall>obj \<in> set (filter (orphaned env) (cs_objects s)). client_object_ok obj"
    using assms(1) by (simp add: client_ok_def list_all_iff)
  have u: "client_ok ?u" by (rule client_ok_filter[OF assms(1)])
  have run: "release_objects (filter (orphaned env) (cs_objects s)) ?u = Inr t"
    using assms(2) by (simp only: collectOrphanedObjects_def)
  show ?thesis by (rule release_objects_keep[where P = client_ok, OF _ run u]) (use objs release_ok in blast)
qed

lemma bind_ok:
  assumes "bind_request spec version s = Inr (r, t)" and "client_ok s" and "cs_seq s \<noteq> - 1"
    and "list_all generated (spec_objects spec)"
  shows "client_ok t"
proof (cases "version > specVer spec")
  case True
  with assms(1,2) show ?thesis by (auto simp: bind_request_def disconnectOnError_def client_ok_def)
next
  case False
  with assms(1) obtain sp sps where sp: "spec_objects spec = sp # sps"
    by (auto simp: bind_request_def split: list.splits)
  let ?obj = "\<lparr>w_listeners = [], w_id = 0, w_version = version, w_seq = cs_seq s + 1, w_destroyed = False,
    w_protocolName = specName spec, w_spec = Some sp\<rparr>"
  have "client_ok (s\<lparr>cs_seq := cs_seq s + 1, cs_objects := cs_objects s @ [?obj]\<rparr>)"
    using assms(2-4) sp by (intro client_ok_append) (simp_all add: client_object_ok_def)
  with assms(1) sp False show ?thesis
    by (auto simp: bind_request_def socket_sendMessage_def Let_def client_ok_def)
qed

interpretation client_objects: client_invariant client_ok
proof unfold_locales
  fix s t
  assume api: "client_api s t" and ok: "client_ok s"
  from api show "client_ok t"
  proof cases
    case (capi_call seq mid vas ret)
    then obtain obj obj' u where "client_call mid vas obj s = Inr (ret, obj', u)"
      and t: "t = u\<lparr>cs_objects := map (\<lambda>ob. if w_seq ob = seq then ob\<lparr>w_destroyed := w_destroyed obj'\<rparr> else ob) (cs_objects u)\<rparr>"
      by (auto simp: call_seq_def bnd_eq_Inr split: option.splits)
    then have "client_ok u" using client_call_ok[OF _ ok capi_call(2)] by blast
    then show ?thesis unfolding t by (rule client_ok_objects) simp
  next
    case (capi_bind spec version r)
    with ok show ?thesis by (blast intro: bind_ok)
  next
    case (capi_listen seq obj mid fn obj')
    show ?thesis unfolding capi_listen(1) by (rule client_ok_objects[OF ok]) simp
  next
    case (capi_impl p)
    with ok show ?thesis by (simp add: addImplementation_def client_ok_def)
  qed
next
  fix names s
  have "cs_impls (add_specs names s) = cs_impls s \<and> cs_objects (add_specs names s) = cs_objects s \<and>
      cs_seq (add_specs names s) = cs_seq s" for s
    by (induction names s rule: add_specs.induct) (auto simp: disconnectOnError_def split: option.split)
  then show "client_ok s \<Longrightarrow> client_ok (serverSpecs names s)"
    by (simp add: serverSpecs_def client_ok_def)
next
  fix seq oid m s
  assume "client_ok s"
  then have "client_ok (s\<lparr>cs_objects := map (\<lambda>obj. if w_seq obj = seq then obj\<lparr>w_destroyed := True\<rparr> else obj) (cs_objects s)\<rparr>)"
    by (rule client_ok_objects) simp
  with \<open>client_ok s\<close> show "client_ok (client_destroyIfNeeded seq oid m s)"
    by (auto simp: client_destroyIfNeeded_def socket_destroyObject_def Let_def dest: client_ok_filter)
next
  show "client_ok s \<Longrightarrow> client_ok (flushPendingOutgoing s)" for s
    by (rule flush_keeps[of client_ok]) auto
qed (auto intro: client_ok_onSeq collect_ok)

end
