(* ===== verification/Conversation.thy ===== *)
theory Conversation
  imports Server_Safety Client_Dispatch
begin

text \<open>
  The two ends together: the meaning of a stream of server messages, which the client's loop
  implements, and the exchanges of the protocol - the handshake, a bind and
  a deferred call - run through both models.
\<close>

section \<open>The stream to the client\<close>

datatype server_msg =
    SmHandshakeBegin "u32 list"
  | SmProtocols "string list"
  | SmNewObject new_object_msg
  | SmCall u32 u32 "wire_arg list"
  | SmFatal fatal_msg
  | SmDone u32

fun enc_server_msg :: "server_msg \<Rightarrow> byte list" where
  "enc_server_msg (SmHandshakeBegin versions) = enc_HandshakeBegin versions"
| "enc_server_msg (SmProtocols names) = enc_HandshakeProtocols names"
| "enc_server_msg (SmNewObject m) = enc_NewObject m"
| "enc_server_msg (SmCall oid mid args) = enc_Generic oid mid args"
| "enc_server_msg (SmFatal m) = enc_FatalError m"
| "enc_server_msg (SmDone seq) = enc_RoundtripDone seq"

fun server_msg_fds :: "server_msg \<Rightarrow> int list" where
  "server_msg_fds (SmCall oid mid args) = wire_args_fds args"
| "server_msg_fds _ = []"

fun ok_server_msg :: "server_msg \<Rightarrow> bool" where
  "ok_server_msg (SmHandshakeBegin versions) = ok_HandshakeBegin versions"
| "ok_server_msg (SmProtocols names) = ok_HandshakeProtocols names"
| "ok_server_msg (SmCall oid mid args) = list_all wire_ok args"
| "ok_server_msg (SmFatal m) = ok_FatalError m"
| "ok_server_msg _ = True"

text \<open>What one message does; \<open>False\<close> where the client gives up on the read.\<close>

fun receive_one :: "client_env \<Rightarrow> server_msg \<Rightarrow> client_socket \<Rightarrow> (bool \<times> client_socket) attempt" where
  "receive_one env (SmHandshakeBegin versions) s =
     Inr (if HYPRWIRE_PROTOCOL_VER \<in> set versions
          then (True, socket_sendMessage (enc_HandshakeAck HYPRWIRE_PROTOCOL_VER) [] s) else (False, s))"
| "receive_one env (SmProtocols names) s = Inr (True, serverSpecs names s)"
| "receive_one env (SmNewObject m) s = Inr (True, onSeq (no_seq m) (no_id m) s)"
| "receive_one env (SmCall oid mid args) s =
     bnd (socket_onGeneric env
       \<lparr>gm_object = oid, gm_method = mid, gm_data = wire_args args @ [0], gm_fds = wire_args_fds args\<rparr> s)
       (\<lambda>s. Inr (True, s))"
| "receive_one env (SmFatal m) s = Inr (True, client_errd s)"
| "receive_one env (SmDone seq) s = Inr (True, s\<lparr>cs_lastAckdRoundtripSeq := seq\<rparr>)"

fun receive :: "client_env \<Rightarrow> server_msg list \<Rightarrow> client_socket \<Rightarrow> (bool \<times> client_socket) attempt" where
  "receive env [] s = Inr (True, s)"
| "receive env (m # ms) s =
     bnd (receive_one env m s) (\<lambda>(go, s). if go then receive env ms s else Inr (False, s))"

abbreviation enc_replies :: "server_msg list \<Rightarrow> byte list" where
  "enc_replies ms \<equiv> concat (map enc_server_msg ms)"

abbreviation replies_fds :: "server_msg list \<Rightarrow> int list" where
  "replies_fds ms \<equiv> concat (map server_msg_fds ms)"

lemmas enc_message_defs = enc_Hello_def enc_HandshakeBegin_def enc_HandshakeAck_def enc_HandshakeProtocols_def
  enc_BindProtocol_def enc_NewObject_def enc_FatalError_def enc_RoundtripRequest_def enc_RoundtripDone_def
  enc_Generic_def

lemma enc_server_msg_nonempty [simp]: "enc_server_msg m \<noteq> []"
  by (cases m) (simp_all add: enc_message_defs)

lemma hd_enc_server_msg:
  "type_of_byte (hd (enc_server_msg m)) =
     Some (case m of SmHandshakeBegin _ \<Rightarrow> MSG_HANDSHAKE_BEGIN | SmProtocols _ \<Rightarrow> MSG_HANDSHAKE_PROTOCOLS
       | SmNewObject _ \<Rightarrow> MSG_NEW_OBJECT | SmCall _ _ _ \<Rightarrow> MSG_GENERIC_PROTOCOL_MESSAGE
       | SmFatal _ \<Rightarrow> MSG_FATAL_PROTOCOL_ERROR | SmDone _ \<Rightarrow> MSG_ROUNDTRIP_DONE)"
  by (cases m) (simp_all add: enc_message_defs)

lemma client_parseSingle_stands:
  assumes ok: "ok_server_msg m" and st: "stands data off (enc_server_msg m)" and v: "vec_ok data"
  shows "client_parseSingle env data off (server_msg_fds m @ fds) s =
     Some (bnd (receive_one env m s) (\<lambda>(go, s'). Inr (if go then length (enc_server_msg m) else 0, fds, s')))"
proof -
  have at: "vec_at data off = Inr (hd (enc_server_msg m))"
    using st by (intro vec_at_stands_0) simp_all
  note unfold = client_parseSingle_def client_parsed_def client_refused_def
  show ?thesis
  proof (cases m)
    case (SmHandshakeBegin versions)
    then have "parse_HandshakeBegin data off = Inr (versions, length (enc_server_msg m))"
      using ok st v by (simp add: handshake_begin.parse_enc)
    then show ?thesis using SmHandshakeBegin at hd_enc_server_msg[of m] by (simp add: unfold)
  next
    case (SmProtocols names)
    then have "parse_HandshakeProtocols data off = Inr (names, length (enc_server_msg m))"
      using ok st v by (simp add: handshake_protocols.parse_enc)
    then show ?thesis using SmProtocols at hd_enc_server_msg[of m] by (simp add: unfold)
  next
    case (SmNewObject n)
    then have "parse_NewObject data off = Inr (n, length (enc_server_msg m))"
      using st v by (simp add: new_object.parse_enc ok_NewObject_def)
    then show ?thesis using SmNewObject at hd_enc_server_msg[of m] by (simp add: unfold)
  next
    case (SmCall oid mid args)
    then have "parse_Generic data (server_msg_fds m @ fds) off =
        Some (Inr (\<lparr>gm_object = oid, gm_method = mid, gm_data = wire_args args @ [0],
          gm_fds = wire_args_fds args\<rparr>, length (enc_server_msg m), fds))"
      using st v ok by (simp only: enc_server_msg.simps server_msg_fds.simps ok_server_msg.simps parse_Generic_stands)
    then show ?thesis using SmCall at hd_enc_server_msg[of m] by (simp add: unfold bnd_assoc)
  next
    case (SmFatal f)
    then have "parse_FatalError data off = Inr (f, length (enc_server_msg m))"
      using ok st v by (simp add: fatal_error.parse_enc)
    then show ?thesis using SmFatal at hd_enc_server_msg[of m] by (simp add: unfold)
  next
    case (SmDone seq)
    then have "parse_RoundtripDone data off = Inr (seq, length (enc_server_msg m))"
      using st v by (simp add: roundtrip_done.parse_enc ok_RoundtripDone_def)
    then show ?thesis using SmDone at hd_enc_server_msg[of m] by (simp add: unfold)
  qed
qed

lemma client_loop_stream:
  assumes "list_all ok_server_msg ms" and "stands data n (enc_replies ms)"
    and "n + length (enc_replies ms) = length data" and v: "vec_ok data"
  shows "client_loop env data n (replies_fds ms) s =
     Some (bnd (receive env ms s) (\<lambda>(go, t).
       Inr (if go then MESSAGE_PARSED_OK else MESSAGE_PARSED_ERROR, t)))"
  using assms(1-3)
proof (induction ms arbitrary: n s)
  case Nil
  then show ?case by (subst client_loop.simps) simp
next
  case (Cons m ms)
  have st: "stands data n (enc_server_msg m)" "stands data (n + length (enc_server_msg m)) (enc_replies ms)"
    using Cons.prems(2) by simp_all
  have "0 < length (enc_server_msg m)" by simp
  with Cons.prems(3) have len: "n < length data" "0 < length (enc_server_msg m)"
    by (simp_all del: length_greater_0_conv)
  have add: "sadd n (length (enc_server_msg m)) = n + length (enc_server_msg m)"
    using Cons.prems(3) vec_okD[OF v] by (simp add: size_simps)
  have step: "client_parseSingle env data n (replies_fds (m # ms)) s =
      Some (bnd (receive_one env m s) (\<lambda>(go, s'). Inr (if go then length (enc_server_msg m) else 0, replies_fds ms, s')))"
    using client_parseSingle_stands[OF _ st(1) v] Cons.prems(1) by simp
  show ?case
  proof (cases "receive_one env m s")
    case (Inl e)
    with step len show ?thesis by (subst client_loop.simps) simp
  next
    case (Inr r)
    obtain go s' where r: "r = (go, s')" by (cases r)
    show ?thesis
    proof (cases go)
      case False
      with step len Inr r show ?thesis by (subst client_loop.simps) simp
    next
      case True
      then have "client_loop env data n (replies_fds (m # ms)) s =
          client_loop env data (n + length (enc_server_msg m)) (replies_fds ms) s'"
        using step len Inr r add by (subst client_loop.simps) simp
      with Cons.IH[OF _ st(2)] Cons.prems Inr r True show ?thesis by simp
    qed
  qed
qed

lemma read_receives:
  assumes "list_all ok_server_msg ms" and "vec_ok (enc_replies ms)" and "receive env ms s = Inr (go, t)"
  shows "client_handleMessage env (enc_replies ms) (replies_fds ms) s =
     Some (Inr (if go then MESSAGE_PARSED_OK else MESSAGE_PARSED_ERROR, t))"
  using client_loop_stream[OF assms(1), of "enc_replies ms" 0 env s] assms(2,3)
  by (simp add: client_handleMessage_def)

text \<open>C9. The client's loop over a read implements the abstract meaning of the stream of server
  messages: each takes effect in order, and the read fails exactly at a version offer
  without the client's version.\<close>

theorem client_stream_refines:
  assumes "list_all ok_server_msg ms" and "vec_ok (enc_replies ms)"
  shows "client_handleMessage env (enc_replies ms) (replies_fds ms) s =
     Some (bnd (receive env ms s) (\<lambda>(go, t).
       Inr (if go then MESSAGE_PARSED_OK else MESSAGE_PARSED_ERROR, t)))"
  unfolding client_handleMessage_def
  using client_loop_stream[OF assms(1), of "enc_replies ms" 0 env s] assms(2) by simp

section \<open>The list of protocols\<close>

lemma take_rev_split:
  "at_sign \<notin> set ds \<Longrightarrow> takeWhile (\<lambda>c. c \<noteq> at_sign) (rev (name @ at_sign # ds)) = rev ds"
  by (simp add: takeWhile_append)

lemma split_entry_last: "at_sign \<notin> set ds \<Longrightarrow> split_entry (name @ at_sign # ds) = (name, ds)"
  using take_rev_split[of ds name] by (simp add: split_entry_def Let_def del: rev_append)

lemma at_sign_not_digit: "\<not> is_digit at_sign"
  by (simp add: is_digit_def at_sign_def)

lemma at_sign_not_in_dec: "at_sign \<notin> set (dec n)"
  using dec_digits[of n] at_sign_not_digit by (auto simp: list_all_iff)

lemma stoul_dec: "n < 2 ^ 64 \<Longrightarrow> stoul (dec n) = Some n"
proof -
  assume n: "n < 2 ^ 64"
  obtain c cs where c: "dec n = c # cs" using dec_nonempty[of n] by (cases "dec n") auto
  have d: "is_digit c" using dec_digits[of n] c by simp
  then have "\<not> is_space c" by (auto simp: is_digit_def is_space_def)
  moreover have "c \<noteq> CHR ''-''" "c \<noteq> CHR ''+''" using d by (auto simp: is_digit_def)
  ultimately show ?thesis
    using n c d read_dec_dec[of n] by (simp add: stoul_def Let_def)
qed

lemma stoul_dec_u32: "stoul (dec_u32 v) = Some (unat v)"
proof -
  have "unat v < 4294967296" using unsigned_less[of v] by simp
  then show ?thesis by (simp add: dec_u32_def stoul_dec)
qed

lemma split_protocol_entry: "split_entry (protocol_entry p) = (specName p, dec_u32 (specVer p))"
proof -
  have "protocol_entry p = specName p @ at_sign # dec_u32 (specVer p)"
    by (simp add: protocol_entry_def at_sign_def)
  then show ?thesis using split_entry_last at_sign_not_in_dec by (simp add: dec_u32_def)
qed

lemma add_specs_entries:
  "add_specs (map protocol_entry ps) s =
     s\<lparr>cs_serverSpecs := cs_serverSpecs s @ map (\<lambda>p. server_spec (specName p) (specVer p)) ps\<rparr>"
  by (induction ps arbitrary: s) (simp_all add: split_protocol_entry stoul_dec_u32)

text \<open>The client reads back the list of protocols the server writes: for any names - also
  ones that contain an at sign - and versions, \<^verbatim>\<open>serverSpecs\<close> stores the same names and
  versions in order and completes the handshake.\<close>

theorem server_specs_roundtrip:
  "serverSpecs (map protocol_entry ps) s =
     s\<lparr>cs_serverSpecs := cs_serverSpecs s @ map (\<lambda>p. server_spec (specName p) (specVer p)) ps,
       cs_handshakeDone := True\<rparr>"
  by (simp add: serverSpecs_def add_specs_entries)

lemma serverSpecs_names:
  "serverSpecs (protocol_names impls xs) s =
     s\<lparr>cs_serverSpecs := cs_serverSpecs s @ map (\<lambda>i. server_spec (specName (protocol i)) (specVer (protocol i)))
         (filter (\<lambda>i. specName (protocol i) \<in> set xs) impls),
       cs_handshakeDone := True\<rparr>"
proof -
  have "protocol_names impls xs = map protocol_entry (map protocol (filter (\<lambda>i. specName (protocol i) \<in> set xs) impls))"
    by (simp add: protocol_names_def)
  with add_specs_entries[of "map protocol (filter (\<lambda>i. specName (protocol i) \<in> set xs) impls)" s]
  show ?thesis by (simp add: serverSpecs_def o_def)
qed

lemma server_handle_one:
  assumes "ok_client_msg m" "vec_ok (enc_client_msg m)" "\<not> sc_error s" "serve_one env impls m s = Inr t"
  shows "server_handleMessage env impls (enc_client_msg m) (client_msg_fds m) s = Some (Inr (MESSAGE_PARSED_OK, t))"
  using server_loop_stream[of "[m]" "enc_client_msg m" 0 env impls s] assms by (simp add: server_handleMessage_def)

lemma client_handle_one:
  assumes "ok_server_msg m" "vec_ok (enc_server_msg m)" "receive_one env m s = Inr (True, t)"
  shows "client_handleMessage env (enc_server_msg m) (server_msg_fds m) s = Some (Inr (MESSAGE_PARSED_OK, t))"
  using client_loop_stream[of "[m]" "enc_server_msg m" 0 env s] assms by (simp add: client_handleMessage_def)

text \<open>C18. The handshake: started by the client's greeting, the four messages, each the answer to
  the one before, take both ends to an agreement - the server has the client's version,
  the client has exactly the protocols the server exposed to it, with their versions.\<close>

theorem handshake_agrees:
  assumes "\<not> sc_error s" and "\<not> sc_error (dispatchFirstPoll env impls s)"
    and "ok_HandshakeProtocols (protocol_names impls (sc_exposedProtocols (dispatchFirstPoll env impls s)))"
    and "vec_ok (enc_HandshakeProtocols (protocol_names impls (sc_exposedProtocols (dispatchFirstPoll env impls s))))"
  shows "(let s0 = dispatchFirstPoll env impls s;
      offer = enc_HandshakeBegin [HYPRWIRE_PROTOCOL_VER];
      s1 = client_sendMessage offer [] s0;
      ack = enc_HandshakeAck HYPRWIRE_PROTOCOL_VER;
      c1 = socket_sendMessage ack [] c;
      names = protocol_names impls (sc_exposedProtocols s1);
      s2 = client_sendMessage (enc_HandshakeProtocols names) [] (s1\<lparr>sc_version := HYPRWIRE_PROTOCOL_VER\<rparr>);
      c2 = c1\<lparr>cs_serverSpecs := cs_serverSpecs c1 @
        map (\<lambda>i. server_spec (specName (protocol i)) (specVer (protocol i)))
          (filter (\<lambda>i. specName (protocol i) \<in> set (sc_exposedProtocols s1)) impls), cs_handshakeDone := True\<rparr>
    in server_handleMessage env impls (enc_Hello ()) [] s = Some (Inr (MESSAGE_PARSED_OK, s1)) \<and>
       client_handleMessage cenv offer [] c = Some (Inr (MESSAGE_PARSED_OK, c1)) \<and>
       server_handleMessage env impls ack [] s1 = Some (Inr (MESSAGE_PARSED_OK, s2)) \<and>
       client_handleMessage cenv (enc_HandshakeProtocols names) [] c1 = Some (Inr (MESSAGE_PARSED_OK, c2)))"
proof -
  let ?s0 = "dispatchFirstPoll env impls s" and ?offer = "enc_HandshakeBegin [HYPRWIRE_PROTOCOL_VER]"
  let ?s1 = "client_sendMessage ?offer [] ?s0" and ?ack = "enc_HandshakeAck HYPRWIRE_PROTOCOL_VER"
  let ?c1 = "socket_sendMessage ?ack [] c"
  have err: "\<not> sc_error ?s1" using assms(2) by (simp add: client_sendMessage_def)
  have exposed: "sc_exposedProtocols ?s1 = sc_exposedProtocols ?s0" by (simp add: client_sendMessage_def)
  have small: "vec_ok ?offer"
    using length_encodeVarInt(1)[of "Suc 0"] by (simp add: vec_ok_def enc_HandshakeBegin_def)
  have "server_handleMessage env impls (enc_Hello ()) [] s = Some (Inr (MESSAGE_PARSED_OK, ?s1))"
    using server_handle_one[of CmHello s env impls] assms(1) by (simp add: vec_ok_def)
  moreover have "client_handleMessage cenv ?offer [] c = Some (Inr (MESSAGE_PARSED_OK, ?c1))"
    using client_handle_one[of "SmHandshakeBegin [HYPRWIRE_PROTOCOL_VER]" cenv c] small
    by (simp add: ok_HandshakeBegin_def)
  moreover have "server_handleMessage env impls ?ack [] ?s1 = Some (Inr (MESSAGE_PARSED_OK,
      client_sendMessage (enc_HandshakeProtocols (protocol_names impls (sc_exposedProtocols ?s1))) []
        (?s1\<lparr>sc_version := HYPRWIRE_PROTOCOL_VER\<rparr>)))"
    using server_handle_one[of "CmAck HYPRWIRE_PROTOCOL_VER" ?s1 env impls] err
    by (simp add: vec_ok_def enc_HandshakeAck_def)
  moreover have "client_handleMessage cenv (enc_HandshakeProtocols (protocol_names impls (sc_exposedProtocols ?s1))) [] ?c1 =
      Some (Inr (MESSAGE_PARSED_OK, serverSpecs (protocol_names impls (sc_exposedProtocols ?s1)) ?c1))"
    using client_handle_one[of "SmProtocols (protocol_names impls (sc_exposedProtocols ?s1))" cenv ?c1] assms(3,4)
    by (simp add: exposed)
  ultimately show ?thesis
    unfolding Let_def by (simp add: serverSpecs_names)
qed

section \<open>Binding\<close>

lemma set_id_found:
  "find (\<lambda>obj. w_seq obj = seq) objs = Some obj \<Longrightarrow>
     find (\<lambda>obj. w_seq obj = seq) (set_id seq oid objs) = Some (obj\<lparr>w_id := oid\<rparr>)"
  by (induction objs) (auto split: if_splits)

lemma set_id_other: "q \<noteq> seq \<Longrightarrow> find (\<lambda>obj. w_seq obj = q) (set_id seq oid objs) = find (\<lambda>obj. w_seq obj = q) objs"
  by (induction objs) auto

lemma onSeq_found:
  "objectForSeq seq s = Some obj \<Longrightarrow> objectForSeq seq (onSeq seq oid s) = Some (obj\<lparr>w_id := oid\<rparr>)"
  by (simp add: objectForSeq_def onSeq_def set_id_found)

text \<open>A bind gives both ends the same object: when the client asks for a version of a
  protocol it was shown and the server has, the server creates an object under a fresh id,
  and from the answer the client learns that id for the object it made for the request;
  both carry the protocol, and the version of the request.\<close>

theorem bind_agrees:
  assumes "version \<le> specVer spec" and "version \<noteq> 0" and "spec_objects spec \<noteq> []" and "ok_string (specName spec)"
    and "objectForSeq (cs_seq c + 1) c = None" and "cs_fdValid c"
    and "ids_ok s" and "sc_fdValid s"
    and "specName spec \<in> set (sc_exposedProtocols s)"
    and "find (\<lambda>p. specName (protocol p) = specName spec) impls = Some p" and "protocol p = spec"
  shows "\<exists>c1 obj s1.
    bind_request spec version c = Inr (Some (cs_seq c + 1), c1) \<and>
    cs_sent c1 = cs_sent c @ [(enc_client_msg (CmBind
      \<lparr>bind_protocol = specName spec, bind_seq = cs_seq c + 1, bind_version = version\<rparr>), [])] \<and>
    announce_object impls (specName spec) [] version (cs_seq c + 1) s = (Some obj, s1) \<and>
    sc_sent s1 = sc_sent s @ [(enc_server_msg (SmNewObject \<lparr>no_seq = cs_seq c + 1, no_id = w_id obj\<rparr>), [])] \<and>
    find_object (w_id obj) s1 = Some obj \<and>
    (\<exists>c2 cobj. receive_one cenv (SmNewObject \<lparr>no_seq = cs_seq c + 1, no_id = w_id obj\<rparr>) c1 = Inr (True, c2) \<and>
       objectForSeq (cs_seq c + 1) c2 = Some cobj \<and> w_id cobj = w_id obj \<and> w_id obj \<noteq> 0 \<and>
       w_protocolName cobj = w_protocolName obj \<and> w_version cobj = w_version obj \<and> w_spec cobj = w_spec obj)"
proof -
  let ?seq = "cs_seq c + 1"
  obtain sp sps where sp: "spec_objects spec = sp # sps" using assms(3) by (cases "spec_objects spec") auto
  let ?cobj = "\<lparr>w_listeners = [], w_id = 0, w_version = version, w_seq = ?seq, w_destroyed = False,
    w_protocolName = specName spec, w_spec = Some sp\<rparr>"
  obtain c1 where c1: "bind_request spec version c = Inr (Some ?seq, c1)"
    "cs_objects c1 = cs_objects c @ [?cobj]"
    "cs_sent c1 = cs_sent c @ [(enc_BindProtocol \<lparr>bind_protocol = specName spec, bind_seq = ?seq, bind_version = version\<rparr>, [])]"
    using assms(1,6) sp by (simp add: bind_request_def socket_sendMessage_def Let_def not_less)
  have find: "find (\<lambda>q. objectName q = [] \<or> [] = ([] :: string)) (spec_objects spec) = Some sp"
    using sp by simp
  let ?obj = "(fresh_object (sc_maxId s) version)\<lparr>w_spec := Some sp, w_protocolName := specName spec\<rparr>"
  have res: "resolve_object impls (sc_exposedProtocols s) (specName spec) [] version (fresh_object (sc_maxId s) version) =
      (?obj, None)"
    using assms(1,9,10,11) sp by (simp add: resolve_object_def not_less Let_def)
  then obtain s1 where s1: "announce_object impls (specName spec) [] version ?seq s = (Some ?obj, s1)"
    by (cases rule: announce_cases[of impls "specName spec" "[]" version ?seq s]) auto
  note id = announced_object[OF assms(7) s1]
  have "objectForSeq ?seq c1 = Some ?cobj"
    using assms(5) c1(2) by (simp add: objectForSeq_def find_append)
  then have "objectForSeq ?seq (onSeq ?seq (w_id ?obj) c1) = Some (?cobj\<lparr>w_id := w_id ?obj\<rparr>)"
    by (rule onSeq_found)
  with c1 s1 id assms(8) show ?thesis by (auto simp: fresh_object_def)
qed

section \<open>Deferred calls\<close>

text \<open>A message built before its object had an id, once patched, is the message for the id.\<close>

lemma resolveSeq_enc: "resolveSeq oid (enc_Generic q mid args) = enc_Generic oid mid args"
  by (simp add: resolveSeq_def enc_Generic_def u32_bytes_def)

lemma objectForSeq_sent [simp]: "objectForSeq seq (socket_sendMessage data fds s) = objectForSeq seq s"
  by (simp add: socket_sendMessage_def objectForSeq_def)

lemma fdValid_sent [simp]: "cs_fdValid (socket_sendMessage data fds s) = cs_fdValid s"
  by (simp add: socket_sendMessage_def)

definition waits :: "client_socket \<Rightarrow> pending_msg \<Rightarrow> bool" where
  "waits s m \<longleftrightarrow> (case objectForSeq (pm_dependsOnSeq m) s of None \<Rightarrow> False | Some obj \<Rightarrow> w_id obj = 0)"

definition resolved :: "client_socket \<Rightarrow> pending_msg \<Rightarrow> (byte list \<times> int list) list" where
  "resolved s m =
     (case objectForSeq (pm_dependsOnSeq m) s of
        None \<Rightarrow> []
      | Some obj \<Rightarrow> if w_id obj = 0 then [] else [(resolveSeq (w_id obj) (pm_data m), pm_fds m)])"

lemma flush_pending_spec:
  "cs_fdValid s \<Longrightarrow> flush_pending ms s =
     (filter (waits s) ms, s\<lparr>cs_sent := cs_sent s @ concat (map (resolved s) ms)\<rparr>)"
proof (induction ms arbitrary: s)
  case Nil
  then show ?case by simp
next
  case (Cons m ms)
  show ?case
  proof (cases "objectForSeq (pm_dependsOnSeq m) s")
    case None
    with Cons show ?thesis by (simp add: waits_def resolved_def)
  next
    case (Some obj)
    show ?thesis
    proof (cases "w_id obj = 0")
      case True
      with Cons Some show ?thesis by (simp add: waits_def resolved_def)
    next
      case False
      let ?t = "socket_sendMessage (resolveSeq (w_id obj) (pm_data m)) (pm_fds m) s"
      have same: "waits ?t = waits s" "resolved ?t = resolved s"
        by (simp_all add: waits_def resolved_def fun_eq_iff)
      have now: "\<not> waits s m" "resolved s m = [(resolveSeq (w_id obj) (pm_data m), pm_fds m)]"
        using Some False by (simp_all add: waits_def resolved_def)
      have "flush_pending (m # ms) s = flush_pending ms ?t" using Some False by simp
      also have "\<dots> = (filter (waits s) ms, ?t\<lparr>cs_sent := cs_sent ?t @ concat (map (resolved s) ms)\<rparr>)"
        using Cons.IH[of ?t] Cons.prems by (simp add: same)
      also have "\<dots> = (filter (waits s) (m # ms), s\<lparr>cs_sent := cs_sent s @ concat (map (resolved s) (m # ms))\<rparr>)"
        using Cons.prems by (simp add: now socket_sendMessage_def)
      finally show ?thesis .
    qed
  qed
qed

text \<open>A flush sends, in the order of the calls, exactly the deferred calls whose object has
  its id by then, each patched with that id; it keeps those whose object still waits and
  drops those whose object is gone.\<close>

theorem flush_pending_exact:
  assumes "cs_fdValid s"
  shows "flushPendingOutgoing s =
     s\<lparr>cs_sent := cs_sent s @ concat (map (resolved s) (cs_pendingOutgoing s)),
       cs_pendingOutgoing := filter (waits s) (cs_pendingOutgoing s)\<rparr>"
  using assms by (simp add: flushPendingOutgoing_def flush_pending_spec)

lemma flush_one:
  assumes "objectForSeq (pm_dependsOnSeq m) s = Some ob" and "w_id ob \<noteq> 0"
    and "cs_pendingOutgoing s = [m]" and "cs_fdValid s"
  shows "flushPendingOutgoing s =
     s\<lparr>cs_sent := cs_sent s @ [(resolveSeq (w_id ob) (pm_data m), pm_fds m)], cs_pendingOutgoing := []\<rparr>"
  using assms by (simp add: flushPendingOutgoing_def socket_sendMessage_def)

lemma find_destroyed:
  "find (\<lambda>ob. w_seq ob = seq) (map (\<lambda>ob. if w_seq ob = seq then ob\<lparr>w_destroyed := d\<rparr> else ob) objs) =
     map_option (\<lambda>ob. ob\<lparr>w_destroyed := d\<rparr>) (find (\<lambda>ob. w_seq ob = seq) objs)"
  by (induction objs) auto

text \<open>C20. A call made on an object before the server has named it is not lost and reaches the
  server as if the id had been known: it is held back, and after the \<^verbatim>\<open>NEW_OBJECT\<close> for the
  object has been received the flush sends the same arguments and descriptors under the
  id.\<close>

theorem deferred_call_sent:
  assumes "objectForSeq seq c = Some obj" and "w_id obj = 0" and "w_spec obj = Some sp"
    and "call_error False obj (client_methodsOut sp) mid = None"
    and "m_params (client_methodsOut sp ! unat mid) = args_params args" and "list_all call_ok args"
    and "m_returnsType (client_methodsOut sp ! unat mid) = []"
    and "cs_pendingOutgoing c = []" and "cs_fdValid c" and "oid \<noteq> 0"
  shows "\<exists>c1 c2. call_seq seq mid (map arg_va args) c = Inr (0, c1) \<and> cs_sent c1 = cs_sent c \<and>
    receive_one env (SmNewObject \<lparr>no_seq = seq, no_id = oid\<rparr>) c1 = Inr (True, c2) \<and>
    cs_sent (flushPendingOutgoing c2) =
      cs_sent c @ [(enc_client_msg (CmCall oid mid args), client_msg_fds (CmCall oid mid args))] \<and>
    cs_pendingOutgoing (flushPendingOutgoing c2) = []"
proof -
  let ?m = "client_methodsOut sp ! unat mid"
  let ?obj = "if m_isDestructor ?m then obj\<lparr>w_destroyed := True\<rparr> else obj"
  let ?p = "\<lparr>pm_dependsOnSeq = seq, pm_data = enc_Generic 0 mid args, pm_fds = wire_args_fds args\<rparr>"
  let ?upd = "\<lambda>ob. if w_seq ob = seq then ob\<lparr>w_destroyed := w_destroyed ?obj\<rparr> else ob"
  have seq: "w_seq obj = seq" using assms(1) by (auto simp: objectForSeq_def find_Some_iff)
  have sent: "sent_args ?m 0 args = args" using assms(7) by (simp add: sent_args_def)
  have msg: "call_message ?obj ?m mid 0 (map arg_va args) =
      Inr (Marshalled (enc_Generic 0 mid args) (wire_args_fds args))"
    using call_message_args[OF assms(5,6), of ?obj mid 0] assms(2) by (simp add: sent)
  let ?c1 = "c\<lparr>cs_pendingOutgoing := [?p], cs_objects := map ?upd (cs_objects c)\<rparr>"
  have one: "client_call mid (map arg_va args) obj c = Inr (0, ?obj, c\<lparr>cs_pendingOutgoing := [?p]\<rparr>)"
    using assms(2-4,7,8) msg seq by (cases "m_isDestructor ?m") (simp_all add: client_call_def Let_def)
  have call: "call_seq seq mid (map arg_va args) c = Inr (0, ?c1)"
    using assms(1) one by (simp add: call_seq_def)
  have found: "objectForSeq seq ?c1 = Some (obj\<lparr>w_destroyed := w_destroyed ?obj\<rparr>)"
  proof -
    have "cs_objects ?c1 = map ?upd (cs_objects c)" by (simp del: map_eq_conv)
    then have "objectForSeq seq ?c1 = find (\<lambda>ob. w_seq ob = seq) (map ?upd (cs_objects c))"
      by (simp only: objectForSeq_def)
    with assms(1) show ?thesis unfolding objectForSeq_def find_destroyed by simp
  qed
  let ?c2 = "onSeq seq oid ?c1"
  have "objectForSeq seq ?c2 = Some (obj\<lparr>w_destroyed := w_destroyed ?obj, w_id := oid\<rparr>)"
    using onSeq_found[OF found] by simp
  moreover have "cs_fdValid ?c2" "cs_pendingOutgoing ?c2 = [?p]"
    using assms(9) by (simp_all add: onSeq_def)
  ultimately have flushed: "flushPendingOutgoing ?c2 =
      ?c2\<lparr>cs_sent := cs_sent ?c2 @ [(resolveSeq oid (enc_Generic 0 mid args), wire_args_fds args)], cs_pendingOutgoing := []\<rparr>"
    using flush_one[of ?p ?c2] assms(10) by (simp del: if_split_asm split del: if_split)
  have sent2: "cs_sent ?c2 = cs_sent c" by (simp add: onSeq_def)
  have "cs_sent (flushPendingOutgoing ?c2) = cs_sent c @ [(enc_Generic oid mid args, wire_args_fds args)]"
    "cs_pendingOutgoing (flushPendingOutgoing ?c2) = []"
    unfolding flushed sent2 resolveSeq_enc by simp_all
  moreover have "cs_sent ?c1 = cs_sent c" by simp
  ultimately show ?thesis using call by (intro exI[of _ ?c1] exI[of _ ?c2] conjI) simp_all
qed

text \<open>An object that a method returned is made with version zero, so that every method its
  specification introduced in a later version is refused on it without a message: the call
  returns zero and changes nothing.\<close>

theorem returned_object_version:
  assumes "find_spec (cs_impls s) protocolName name = Some sp"
    and "unat mid < length (client_methodsOut sp)" and "m_since (client_methodsOut sp ! unat mid) \<noteq> 0"
  shows "\<exists>obj. cs_objects (makeObject protocolName name seq s) = cs_objects s @ [obj] \<and> w_seq obj = seq \<and>
    (\<forall>oid t vas. client_call mid vas (obj\<lparr>w_id := oid\<rparr>) t = Inr (0, obj\<lparr>w_id := oid\<rparr>, t))"
  using assms
  by (auto simp: makeObject_def client_call_def call_error_def Let_def word_greater_zero_iff not_le)

section \<open>Instances\<close>

text \<open>A client whose user keeps no reference and ignores what it is told.\<close>

definition example_client_env :: client_env where
  "example_client_env = \<lparr>cenv_prep = (\<lambda>_. True), cenv_held = (\<lambda>_. False), cenv_invoke = (\<lambda>fn seq vals s. s)\<rparr>"

definition example_replies :: "server_msg list" where
  "example_replies =
     [SmHandshakeBegin [1], SmProtocols [protocol_entry example_spec], SmNewObject \<lparr>no_seq = 1, no_id = 1\<rparr>, SmDone 4]"

lemma example_replies_ok: "list_all ok_server_msg example_replies" "vec_ok (enc_replies example_replies)"
proof -
  have dec: "dec_u32 1 = ''1''" by code_simp
  show "list_all ok_server_msg example_replies"
    by (simp add: example_replies_def ok_HandshakeBegin_def ok_HandshakeProtocols_def ok_string_def array_limit_def
        protocol_entry_def example_spec_def dec)
  show "vec_ok (enc_replies example_replies)"
    using length_encodeVarInt(1)[of "Suc 0"] length_encodeVarInt(1)[of "length ''my_protocol@1''"]
    by (simp add: example_replies_def vec_ok_def enc_HandshakeBegin_def enc_HandshakeProtocols_def enc_string_def
        enc_bytes_def enc_NewObject_def enc_RoundtripDone_def protocol_entry_def example_spec_def dec)
qed

theorem client_stream_refines_witness:
  "client_handleMessage example_client_env (enc_replies example_replies) (replies_fds example_replies) (open_socket True) =
     Some (bnd (receive example_client_env example_replies (open_socket True)) (\<lambda>(go, t).
       Inr (if go then MESSAGE_PARSED_OK else MESSAGE_PARSED_ERROR, t)))"
  by (rule client_stream_refines[OF example_replies_ok])

lemma example_first_poll:
  "dispatchFirstPoll example_env example_impls (new_server_client 5 True) =
     (new_server_client 5 True)\<lparr>sc_firstPollDone := True, sc_pid := 42,
       sc_protocolFilter := Some (\<lambda>name. name = ''my_protocol''), sc_exposedProtocols := [''my_protocol'']\<rparr>"
  by (simp add: dispatchFirstPoll_def new_server_client_def example_env_def setupExposedProtocols_def
      setProtocolFilter_def example_impls_def example_spec_def Let_def)

theorem handshake_agrees_witness:
  "\<exists>s1 c1 s2 c2.
     server_handleMessage example_env example_impls (enc_Hello ()) [] (new_server_client 5 True) =
       Some (Inr (MESSAGE_PARSED_OK, s1)) \<and>
     client_handleMessage example_client_env (enc_HandshakeBegin [1]) [] (open_socket True) =
       Some (Inr (MESSAGE_PARSED_OK, c1)) \<and>
     server_handleMessage example_env example_impls (enc_HandshakeAck 1) [] s1 = Some (Inr (MESSAGE_PARSED_OK, s2)) \<and>
     client_handleMessage example_client_env (enc_HandshakeProtocols [protocol_entry example_spec]) [] c1 =
       Some (Inr (MESSAGE_PARSED_OK, c2)) \<and>
     cs_handshakeDone c2 \<and> cs_serverSpecs c2 = [server_spec ''my_protocol'' 1]"
proof -
  let ?s = "new_server_client 5 True" and ?c = "open_socket True"
  have ok: "ok_HandshakeProtocols [protocol_entry example_spec]"
    "vec_ok (enc_HandshakeProtocols [protocol_entry example_spec])"
    using example_replies_ok
    by (simp_all add: example_replies_def vec_ok_def)
  have names: "protocol_names example_impls [''my_protocol''] = [protocol_entry example_spec]"
    by (simp add: protocol_names_def example_impls_def example_spec_def)
  let ?polled = "dispatchFirstPoll example_env example_impls ?s" and ?offer = "enc_HandshakeBegin [HYPRWIRE_PROTOCOL_VER]"
  have err: "\<not> sc_error ?s" "\<not> sc_error ?polled" by (simp_all add: example_first_poll) (simp_all add: new_server_client_def)
  have exposed: "sc_exposedProtocols ?polled = [''my_protocol'']" by (simp add: example_first_poll)
  have sent: "sc_exposedProtocols (client_sendMessage ?offer [] ?polled) = [''my_protocol'']"
    using exposed by (simp add: client_sendMessage_def)
  have specs: "map (\<lambda>i. server_spec (specName (protocol i)) (specVer (protocol i)))
      (filter (\<lambda>i. specName (protocol i) \<in> set [''my_protocol'']) example_impls) = [server_spec ''my_protocol'' 1]"
    by (simp add: example_impls_def example_spec_def)
  have none: "cs_serverSpecs (socket_sendMessage (enc_HandshakeAck HYPRWIRE_PROTOCOL_VER) [] ?c) = []"
    by (simp add: open_socket_def socket_sendMessage_def)
  have "ok_HandshakeProtocols (protocol_names example_impls (sc_exposedProtocols ?polled))"
    "vec_ok (enc_HandshakeProtocols (protocol_names example_impls (sc_exposedProtocols ?polled)))"
    using ok by (simp_all only: exposed names)
  note agreed = handshake_agrees[OF err this, of ?c example_client_env, unfolded Let_def sent specs none names]
  have one: "HYPRWIRE_PROTOCOL_VER = 1" by (simp add: HYPRWIRE_PROTOCOL_VER_def)
  from agreed show ?thesis unfolding one by fastforce
qed

theorem bind_agrees_witness:
  "\<exists>c1 c2 obj s1 cobj.
     bind_request example_spec 1 (open_socket True) = Inr (Some 1, c1) \<and>
     announce_object example_impls ''my_protocol'' [] 1 1
       ((new_server_client 5 True)\<lparr>sc_exposedProtocols := [''my_protocol'']\<rparr>) = (Some obj, s1) \<and>
     receive_one example_client_env (SmNewObject \<lparr>no_seq = 1, no_id = w_id obj\<rparr>) c1 = Inr (True, c2) \<and>
     objectForSeq 1 c2 = Some cobj \<and> w_id cobj = w_id obj \<and> w_id obj \<noteq> 0"
proof -
  let ?c = "open_socket True" and ?s = "(new_server_client 5 True)\<lparr>sc_exposedProtocols := [''my_protocol'']\<rparr>"
  have "ids_ok ?s" by (simp add: ids_ok_def new_server_client_def)
  moreover have "cs_seq ?c = 0" "cs_fdValid ?c" "objectForSeq (cs_seq ?c + 1) ?c = None"
    by (simp_all add: open_socket_def socket_sendMessage_def objectForSeq_def)
  moreover have "specName example_spec = ''my_protocol''" "specVer example_spec = 1" "spec_objects example_spec \<noteq> []"
    "ok_string (specName example_spec)"
    "find (\<lambda>p. specName (protocol p) = specName example_spec) example_impls = Some (hd example_impls)"
    "protocol (hd example_impls) = example_spec"
    by (simp_all add: example_spec_def example_impls_def ok_string_def array_limit_def)
  moreover have "sc_fdValid ?s" "specName example_spec \<in> set (sc_exposedProtocols ?s)"
    by (simp_all add: new_server_client_def example_spec_def)
  ultimately show ?thesis
    using bind_agrees[of 1 example_spec ?c ?s example_impls "hd example_impls" example_client_env]
    by simp metis
qed

definition example_pending :: client_socket where
  "example_pending = (open_socket True)\<lparr>cs_objects := [\<lparr>w_listeners = [], w_id = 0, w_version = 1, w_seq = 1,
     w_destroyed = False, w_protocolName = ''my_protocol'', w_spec = Some (hd (spec_objects example_spec))\<rparr>]\<rparr>"

theorem flush_pending_exact_witness:
  "(let s = (onSeq 1 9 example_pending)\<lparr>cs_pendingOutgoing :=
       [\<lparr>pm_dependsOnSeq = 1, pm_data = enc_Generic 0 1 [], pm_fds = [3]\<rparr>,
        \<lparr>pm_dependsOnSeq = 7, pm_data = enc_Generic 0 1 [], pm_fds = []\<rparr>]\<rparr>
    in cs_sent (flushPendingOutgoing s) = cs_sent s @ [(enc_Generic 9 1 [], [3])] \<and>
       cs_pendingOutgoing (flushPendingOutgoing s) = [])"
proof -
  let ?s = "(onSeq 1 9 example_pending)\<lparr>cs_pendingOutgoing :=
       [\<lparr>pm_dependsOnSeq = 1, pm_data = enc_Generic 0 1 [], pm_fds = [3]\<rparr>,
        \<lparr>pm_dependsOnSeq = 7, pm_data = enc_Generic 0 1 [], pm_fds = []\<rparr>]\<rparr>"
  have "cs_fdValid ?s" by (simp add: onSeq_def example_pending_def open_socket_def socket_sendMessage_def)
  from flush_pending_exact[OF this] show ?thesis
    by (simp add: waits_def resolved_def objectForSeq_def onSeq_def example_pending_def resolveSeq_enc)
qed

theorem deferred_call_sent_witness:
  "\<exists>c1 c2. call_seq 1 1 [] example_pending = Inr (0, c1) \<and> cs_sent c1 = cs_sent example_pending \<and>
     receive_one example_client_env (SmNewObject \<lparr>no_seq = 1, no_id = 9\<rparr>) c1 = Inr (True, c2) \<and>
     cs_sent (flushPendingOutgoing c2) = cs_sent example_pending @ [(enc_client_msg (CmCall 9 1 []), [])]"
proof -
  let ?obj = "\<lparr>w_listeners = [], w_id = 0, w_version = 1, w_seq = 1,
     w_destroyed = False, w_protocolName = ''my_protocol'', w_spec = Some (hd (spec_objects example_spec))\<rparr> :: wire_object"
  have obj: "objectForSeq 1 example_pending = Some ?obj"
    by (simp add: objectForSeq_def example_pending_def)
  have "cs_pendingOutgoing example_pending = []" "cs_fdValid example_pending"
    by (simp_all add: example_pending_def open_socket_def socket_sendMessage_def)
  moreover have "call_error False ?obj (client_methodsOut (hd (spec_objects example_spec))) 1 = None"
    "m_params (client_methodsOut (hd (spec_objects example_spec)) ! unat (1 :: u32)) = args_params []"
    "m_returnsType (client_methodsOut (hd (spec_objects example_spec)) ! unat (1 :: u32)) = []"
    by (simp_all add: example_spec_def client_methodsOut_def call_error_def)
  ultimately show ?thesis
    using deferred_call_sent[OF obj, of "hd (spec_objects example_spec)" 1 "[]" 9 example_client_env] by simp blast
qed

theorem returned_object_version_witness:
  "(let s = addImplementation example_spec (open_socket True) in
      \<exists>obj. cs_objects (makeObject ''my_protocol'' ''my_manager'' 5 s) = [obj] \<and>
        client_call 0 [VaU32 7] (obj\<lparr>w_id := 3\<rparr>) s = Inr (0, obj\<lparr>w_id := 3\<rparr>, s))"
proof -
  let ?s = "addImplementation example_spec (open_socket True)"
  have spec: "find_spec (cs_impls ?s) ''my_protocol'' ''my_manager'' = Some (hd (spec_objects example_spec))"
    by (simp add: find_spec_def addImplementation_def open_socket_def socket_sendMessage_def example_spec_def)
  have "cs_objects ?s = []" by (simp add: addImplementation_def open_socket_def socket_sendMessage_def)
  then show ?thesis
    using returned_object_version[OF spec, of 0 5]
    by (simp add: client_methodsOut_def) (auto simp: example_spec_def example_method_def)
qed

end
