(* ===== verification/Client_Safety.thy ===== *)
theory Client_Safety
  imports Client_Invariants Conversation
begin

text \<open>
  The theorems about the client: a read ends and stops for one reason only, a sequence
  identifies its object, objects nobody holds are destroyed on the server, an error is final,
  and a roundtrip completes against the server's own answer.
\<close>

section \<open>A read ends\<close>

lemma client_parsed_bounds:
  assumes step: "client_parsed p fds s act = Inr (n, fds', s')"
    and len: "\<And>m k. p = Inr (m, k) \<Longrightarrow> off + k \<le> length data"
    and act: "\<And>m k. fst (act m k) = 0 \<or> fst (act m k) = k"
  shows "n = 0 \<or> off + n \<le> length data"
proof -
  from step obtain r where r: "caught p = Inr r" by (auto simp: client_parsed_def bnd_eq_Inr)
  show ?thesis
  proof (cases r)
    case None
    with step r show ?thesis by (simp add: client_parsed_def client_refused_def)
  next
    case (Some x)
    obtain m k where x: "x = (m, k)" by (cases x)
    with step r Some have "n = fst (act m k)" by (auto simp: client_parsed_def split: prod.splits)
    with act[of m k] len[of m k] r Some x show ?thesis by auto
  qed
qed

lemma client_parseSingle_returns:
  assumes sh: "short_runs data" and v: "vec_ok data" and off: "off < length data"
  shows "\<exists>r. client_parseSingle env data off fds s = Some r \<and>
    (\<forall>n fds' s'. r = Inr (n, fds', s') \<longrightarrow> n = 0 \<or> off + n \<le> length data)"
proof -
  obtain g where g: "parse_Generic data fds off = Some g"
    and bound: "\<forall>msg n rest. g = Inr (msg, n, rest) \<longrightarrow> 12 \<le> n \<and> off + n \<le> length data \<and> length (gm_data msg) = n - 11"
    using parse_Generic_returns[OF sh v off] by blast
  have at: "vec_at data off = Inr (data ! off)" using off by (rule vec_at_less)
  have total: "\<exists>r. client_parseSingle env data off fds s = Some r"
    using off g by (auto simp: client_parseSingle_def split: option.splits message_type.split)
  have bounds: "n = 0 \<or> off + n \<le> length data"
    if step: "client_parseSingle env data off fds s = Some (Inr (n, fds', s'))" for n fds' s'
  proof (cases "type_of_byte (data ! off)")
    case None
    with step show ?thesis by (simp add: client_parseSingle_def at client_refused_def)
  next
    case (Some ty)
    note step = step[unfolded client_parseSingle_def at obnd_simps Some option.case]
    show ?thesis
    proof (cases ty)
      case MSG_HANDSHAKE_BEGIN
      show ?thesis using step[unfolded MSG_HANDSHAKE_BEGIN message_type.case option.inject]
        by (rule client_parsed_bounds) (use handshake_begin.parse_bounds in \<open>auto\<close>)
    next
      case MSG_HANDSHAKE_PROTOCOLS
      show ?thesis using step[unfolded MSG_HANDSHAKE_PROTOCOLS message_type.case option.inject]
        by (rule client_parsed_bounds) (use handshake_protocols.parse_bounds in \<open>auto\<close>)
    next
      case MSG_NEW_OBJECT
      show ?thesis using step[unfolded MSG_NEW_OBJECT message_type.case option.inject]
        by (rule client_parsed_bounds) (use new_object.parse_bounds in \<open>auto\<close>)
    next
      case MSG_FATAL_PROTOCOL_ERROR
      show ?thesis using step[unfolded MSG_FATAL_PROTOCOL_ERROR message_type.case option.inject]
        by (rule client_parsed_bounds) (use fatal_error.parse_bounds in \<open>auto\<close>)
    next
      case MSG_ROUNDTRIP_DONE
      show ?thesis using step[unfolded MSG_ROUNDTRIP_DONE message_type.case option.inject]
        by (rule client_parsed_bounds) (use roundtrip_done.parse_bounds in \<open>auto\<close>)
    next
      case MSG_GENERIC_PROTOCOL_MESSAGE
      with step g bound show ?thesis by (auto simp: bnd_eq_Inr client_refused_def split: option.splits)
    qed (use step in \<open>auto simp: client_refused_def\<close>)
  qed
  from total bounds show ?thesis by blast
qed

lemma socket_onGeneric_block:
  assumes ok: "client_ok s" and blk: "block_at (gm_data msg) 0 args" "vec_ok (gm_data msg)" "gm_fds msg = wire_args_fds args"
  shows "\<exists>t. socket_onGeneric env msg s = Inr t"
proof (cases "objectForId (gm_object msg) s")
  case None
  then show ?thesis by (simp add: socket_onGeneric_def)
next
  case (Some obj)
  then have "obj \<in> set (cs_objects s)" by (auto simp: objectForId_def find_Some_iff)
  then obtain sp where sp: "w_spec obj = Some sp" "generated sp"
    using ok by (auto simp: client_ok_def list_all_iff client_object_ok_def split: option.splits)
  then have "\<forall>m \<in> set (client_methodsIn sp). params_ok (m_params m)"
    by (simp add: generated_def spec_ok_def client_methodsIn_def list_all_iff)
  moreover have fds: "stands (gm_fds msg) 0 (wire_args_fds args)" by (simp add: blk(3))
  ultimately have "\<exists>r. called (cenv_prep env) obj (client_methodsIn sp) (gm_method msg) (gm_data msg) (gm_fds msg) = Inr r"
    using called_block[OF blk(1,2) fds, of "gm_method msg" "client_methodsIn sp" "cenv_prep env" obj] by auto
  with Some sp show ?thesis by (auto simp: socket_onGeneric_def socket_object_called_def)
qed

lemma client_parseSingle_stop:
  assumes sh: "short_runs data" "vec_ok data" "off < length data" and ok: "client_ok s"
    and stop: "client_parseSingle env data off fds s = Some (Inl e)"
  shows "e = Undefined"
proof -
  have gen: "e = Undefined"
    if g: "parse_Generic data fds off = Some p" and r: "bnd (caught p) (\<lambda>r. case r of None \<Rightarrow> client_refused fds s
         | Some (m, len, fds') \<Rightarrow> bnd (socket_onGeneric env m s) (\<lambda>s'. Inr (len, fds', s'))) = Inl e" for p
  proof (cases "caught p")
    case (Inl e')
    with r g show ?thesis by auto
  next
    case (Inr o')
    with r obtain m n fds' where "o' = Some (m, n, fds')" and e: "socket_onGeneric env m s = Inl e"
      by (auto simp: client_refused_def bnd_eq_Inl split: option.splits)
    with Inr g have msg: "parse_Generic data fds off = Some (Inr (m, n, fds'))" by simp
    obtain args where "block_at (gm_data m) 0 args" "gm_fds m = wire_args_fds args"
      using parse_Generic_block[OF sh msg] by blast
    moreover have "vec_ok (gm_data m)"
      using parse_Generic_returns[OF sh, of fds] msg sh(2) by (auto simp: vec_ok_def)
    ultimately show ?thesis using socket_onGeneric_block[OF ok, of m args env] e by auto
  qed
  from stop sh(3) obtain ty where ty: "type_of_byte (data ! off) = Some ty"
    by (cases "type_of_byte (data ! off)") (auto simp: client_parseSingle_def client_refused_def)
  note stop = stop[unfolded client_parseSingle_def vec_at_less[OF sh(3)] obnd_simps ty]
  show ?thesis
  proof (cases "ty = MSG_GENERIC_PROTOCOL_MESSAGE")
    case True
    with stop gen show ?thesis by (auto split: option.splits)
  next
    case False
    with stop show ?thesis
      by (cases ty) (auto simp: client_parsed_def client_refused_def bnd_eq_Inl parse_strings_no_throw[OF sh(1)]
          split: option.splits prod.splits)
  qed
qed

lemma client_loop_ends:
  assumes env: "client_env_ok env" and sh: "short_runs data" "vec_ok data"
  shows "needle \<le> length data \<Longrightarrow> client_ok s \<Longrightarrow>
    \<exists>r. client_loop env data needle fds s = Some r \<and> (\<forall>e. r = Inl e \<longrightarrow> e = Undefined)"
proof (induction "length data - needle" arbitrary: needle fds s rule: less_induct)
  case less
  show ?case
  proof (cases "needle < length data")
    case False
    then show ?thesis by (subst client_loop.simps) auto
  next
    case run: True
    obtain r where r: "client_parseSingle env data needle fds s = Some r"
      and bound: "\<forall>n fds' s'. r = Inr (n, fds', s') \<longrightarrow> n = 0 \<or> needle + n \<le> length data"
      using client_parseSingle_returns[OF sh run] by blast
    show ?thesis
    proof (cases r)
      case (Inl e)
      with r run client_parseSingle_stop[OF sh run less.prems(2)] show ?thesis by (subst client_loop.simps) simp
    next
      case (Inr t)
      obtain n fds' s' where t: "t = (n, fds', s')" by (cases t)
      show ?thesis
      proof (cases "n = 0")
        case True
        with r Inr t run show ?thesis by (subst client_loop.simps) simp
      next
        case False
        with bound Inr t have n: "needle + n \<le> length data" "0 < n" by auto
        then have "sadd needle n = needle + n" using vec_okD[OF sh(2)] by (simp add: size_simps)
        moreover have "length data - (needle + n) < length data - needle" using n by linarith
        moreover have "client_ok s'" using client_objects.keep_parseSingle[OF env less.prems(2)] r Inr t by blast
        ultimately show ?thesis
          using r Inr t run False less.hyps[of "needle + n" s' fds'] n(1) by (subst client_loop.simps) simp
      qed
    qed
  qed
qed

text \<open>C31. On arbitrary bytes from a server, without a run of four continuation bytes, the read of a client
  never goes on for ever and never ends with an exception: it ends with a result, or it stops
  at a read past the end of the buffer in a truncated or malformed message (\<open>Undefined\<close>). No call is made
  on an object without a specification.\<close>

theorem client_read_ends:
  assumes "client_env_ok env" and "client_ok s" and "short_runs data" and "vec_ok data"
  shows "\<exists>r. client_handleMessage env data fds s = Some r \<and>
    (case r of Inl e \<Rightarrow> e = Undefined | Inr (res, t) \<Rightarrow> client_ok t)"
proof -
  obtain r where r: "client_loop env data 0 fds s = Some r" "\<forall>e. r = Inl e \<longrightarrow> e = Undefined"
    using client_loop_ends[OF assms(1,3,4) _ assms(2), of 0 fds] by auto
  then show ?thesis
    using client_objects.keep_loop[OF assms(1) r(1) assms(2)]
    by (auto simp: client_handleMessage_def split: sum.split)
qed

section \<open>Sequences\<close>

lemma find_distinct:
  "distinct (map f xs) \<Longrightarrow> x \<in> set xs \<Longrightarrow> find (\<lambda>y. f y = f x) xs = Some x"
  by (induction xs) auto

text \<open>A sequence identifies its object: after any dispatch, with whatever the server sent and
  listeners did, every object is the one found for its own sequence, and the next sequence
  to be drawn belongs to none - until the counter wraps.\<close>

theorem sequences_identify:
  assumes "client_env_ok env" and "client_ok s" and "dispatchEvents env block inp s = Some (Inr (go, t))"
  shows "(\<forall>obj \<in> set (cs_objects t). objectForSeq (w_seq obj) t = Some obj) \<and>
    (cs_seq t \<noteq> - 1 \<longrightarrow> objectForSeq (cs_seq t + 1) t = None)"
proof -
  have ok: "client_ok t" using client_objects.keep_dispatchEvents[OF assms] .
  then have "distinct (map w_seq (cs_objects t))" by (simp add: client_ok_def)
  moreover have "cs_seq t \<noteq> - 1 \<Longrightarrow> objectForSeq (cs_seq t + 1) t = None"
    using next_seq_fresh(2)[OF ok] by (force simp: objectForSeq_def find_None_iff)
  ultimately show ?thesis by (auto simp: objectForSeq_def find_distinct)
qed

text \<open>An error of the client is final: no read, no wait and no roundtrip clears it, and every
  dispatch after it fails without an effect.\<close>

theorem client_error_final:
  assumes "client_env_ok env" and "cs_error s"
  shows "dispatchEvents env block inp s = Some (Inr (False, s)) \<and> roundtrip env inps s = Some (Inr (inps, s)) \<and>
    (\<forall>data fds res t. client_handleMessage env data fds s = Some (Inr (res, t)) \<longrightarrow> cs_error t)"
  using client_sticky.keep_handleMessage[OF assms] assms(2)
  by (auto simp: dispatchEvents_def roundtrip_def)

section \<open>Orphans\<close>

text \<open>What the destruction of one orphan sends.\<close>

definition destructor_msg :: "wire_object \<Rightarrow> (byte list \<times> int list) list" where
  "destructor_msg obj =
     (if w_destroyed obj then []
      else case auto_destructor obj of None \<Rightarrow> [] | Some mid \<Rightarrow> [(enc_client_msg (CmCall (w_id obj) mid []), [])])"

lemma release_sends:
  assumes "client_object_ok obj" and "w_id obj \<noteq> 0" and "cs_fdValid s"
  shows "release_object obj s = Inr (s\<lparr>cs_sent := cs_sent s @ destructor_msg obj\<rparr>)"
proof (cases "w_destroyed obj \<or> auto_destructor obj = None")
  case True
  with assms show ?thesis by (auto simp: release_object_def destructor_msg_def)
next
  case False
  then obtain mid where mid: "auto_destructor obj = Some mid" by auto
  then obtain sp m where sp: "w_spec obj = Some sp" "m \<in> set (client_methodsOut sp)" "m_idx m = mid"
    "m_returnsType m = []" "m_params m = []" "\<not> m_since m > w_version obj"
    by (auto simp: auto_destructor_def find_Some_iff split: option.splits if_splits dest: nth_mem)
  then obtain i where i: "i < length (c2s sp)" "c2s sp ! i = m" by (auto simp: client_methodsOut_def in_set_conv_nth)
  have "generated sp" using assms(1) sp(1) by (simp add: client_object_ok_def)
  then have idx: "client_methodsOut sp ! unat mid = m" "unat mid < length (client_methodsOut sp)"
    using i sp(3) by (auto simp: generated_def client_methodsOut_def)
  have "call_error False obj (client_methodsOut sp) mid = None"
    using sp(4,6) idx by (simp add: call_error_def)
  moreover have "call_message ob m mid q [] = Inr (Marshalled (enc_Generic (w_id ob) mid []) [])" for ob q
    using sp(4,5) by (simp add: call_message_def enc_Generic_def)
  ultimately show ?thesis
    using False mid sp idx assms(2,3)
    by (simp add: release_object_def client_call_def destructor_msg_def Let_def socket_sendMessage_def)
qed

lemma releases_send:
  "\<forall>obj \<in> set objs. client_object_ok obj \<and> w_id obj \<noteq> 0 \<Longrightarrow> cs_fdValid s \<Longrightarrow>
     release_objects objs s = Inr (s\<lparr>cs_sent := cs_sent s @ concat (map destructor_msg objs)\<rparr>)"
  by (induction objs arbitrary: s) (simp_all add: release_sends)

text \<open>C37. Objects that no one holds are collected exactly: those with an id and no reference but
  the socket's leave the list, all others stay, and for each that was not destroyed by a
  call and whose version has a plain destructor one call of that destructor is sent.\<close>

theorem orphans_collected:
  assumes "client_ok s" and "cs_fdValid s"
  shows "collectOrphanedObjects env s = Inr (s\<lparr>
     cs_objects := filter (\<lambda>obj. \<not> orphaned env obj) (cs_objects s),
     cs_sent := cs_sent s @ concat (map destructor_msg (filter (orphaned env) (cs_objects s)))\<rparr>)"
proof -
  have "\<forall>obj \<in> set (filter (orphaned env) (cs_objects s)). client_object_ok obj \<and> w_id obj \<noteq> 0"
    using assms(1) by (auto simp: client_ok_def list_all_iff orphaned_def)
  from releases_send[OF this, of "s\<lparr>cs_objects := filter (\<lambda>obj. \<not> orphaned env obj) (cs_objects s)\<rparr>"] assms(2)
  show ?thesis by (simp add: collectOrphanedObjects_def)
qed

section \<open>A roundtrip\<close>

text \<open>A roundtrip completes: the server that reads the client's request answers with exactly
  one acknowledgement, and the client that reads that answer returns from \<^verbatim>\<open>roundtrip\<close>
  after this one dispatch, with the sequence acknowledged.\<close>

theorem roundtrip_completes:
  assumes "client_ok c" and "\<not> cs_error c" and "cs_handshakeDone c" and "cs_fdValid c"
    and "cs_pendingOutgoing c = []" and "\<forall>obj \<in> set (cs_objects c). \<not> orphaned cenv obj"
    and "cs_lastSentRoundtripSeq c \<noteq> - 1"
    and "cs_lastAckdRoundtripSeq c \<le> cs_lastSentRoundtripSeq c"
    and "\<not> sc_error s" and "sc_fdValid s"
  shows "let q = cs_lastSentRoundtripSeq c + 1;
      request = enc_RoundtripRequest q;
      answer = enc_RoundtripDone q;
      inp = \<lparr>di_deadlinePassed = False, di_pollEvent = True, di_pollin = True, di_pollhup = False,
        di_read = Some (answer, [])\<rparr>
    in dispatchClient env impls (Some (request, [])) s =
         Some (Inr (s\<lparr>sc_scheduledRoundtripSeq := 0, sc_sent := sc_sent s @ [(answer, [])]\<rparr>)) \<and>
       roundtrip cenv (inp # inps) c =
         Some (Inr (inps, c\<lparr>cs_lastSentRoundtripSeq := q, cs_lastAckdRoundtripSeq := q,
           cs_sent := cs_sent c @ [(request, [])]\<rparr>))"
proof -
  let ?q = "cs_lastSentRoundtripSeq c + 1"
  let ?request = "enc_RoundtripRequest ?q" and ?answer = "enc_RoundtripDone ?q"
  let ?inp = "\<lparr>di_deadlinePassed = False, di_pollEvent = True, di_pollin = True, di_pollhup = False,
        di_read = Some (?answer, [])\<rparr>"
  have q: "?q \<noteq> 0" "cs_lastAckdRoundtripSeq c < ?q" using u32_succ[OF assms(7)] assms(8) by auto
  have server: "server_handleMessage env impls ?request [] s =
      Some (Inr (MESSAGE_PARSED_OK, s\<lparr>sc_scheduledRoundtripSeq := ?q\<rparr>))"
    using server_handle_one[of "CmRoundtrip ?q" s env impls] assms(9)
    by (simp add: vec_ok_def enc_RoundtripRequest_def)
  have "?request \<noteq> []" "?answer \<noteq> []" by (simp_all add: enc_RoundtripRequest_def enc_RoundtripDone_def)
  moreover from this have "dispatchClient env impls (Some (?request, [])) s =
      Some (Inr (s\<lparr>sc_scheduledRoundtripSeq := 0, sc_sent := sc_sent s @ [(?answer, [])]\<rparr>))"
    using server q(1) assms(10) by (simp add: dispatchClient_def client_sendMessage_def word_greater_zero_iff)
  moreover
  let ?c1 = "c\<lparr>cs_lastSentRoundtripSeq := ?q, cs_sent := cs_sent c @ [(?request, [])]\<rparr>"
  have quiet: "collectOrphanedObjects cenv u = Inr u" if "cs_objects u = cs_objects c" for u
  proof -
    have "filter (orphaned cenv) (cs_objects u) = []" "filter (\<lambda>obj. \<not> orphaned cenv obj) (cs_objects u) = cs_objects u"
      using assms(6) that by (simp_all add: filter_empty_conv)
    then show ?thesis by (simp add: collectOrphanedObjects_def)
  qed
  have read: "client_handleMessage cenv ?answer [] u = Some (Inr (MESSAGE_PARSED_OK, u\<lparr>cs_lastAckdRoundtripSeq := ?q\<rparr>))" for u
    using client_handle_one[of "SmDone ?q" cenv u] by (simp add: vec_ok_def enc_RoundtripDone_def)
  have flush: "flushPendingOutgoing u = u" if "cs_pendingOutgoing u = []" for u
    using that by (simp add: flushPendingOutgoing_def)
  have "dispatchEvents cenv True ?inp ?c1 = Some (Inr (True, ?c1\<lparr>cs_lastAckdRoundtripSeq := ?q\<rparr>))"
    using assms(2,3,5) \<open>?answer \<noteq> []\<close> by (simp add: dispatchEvents_def dispatch_read_def quiet read flush)
  then have "roundtrip cenv (?inp # inps) c = Some (Inr (inps, ?c1\<lparr>cs_lastAckdRoundtripSeq := ?q\<rparr>))"
    using assms(2,4) q(2)
    by (simp add: roundtrip_def Let_def socket_sendMessage_def await_roundtrip.simps[of cenv ?q "?inp # inps"]
        await_roundtrip.simps[of cenv ?q inps])
  ultimately show ?thesis unfolding Let_def by simp
qed

section \<open>Instances\<close>

lemma example_client_env_ok: "client_env_ok example_client_env"
  by (simp add: client_env_ok_def example_client_env_def)

text \<open>A client that bound an object of the example protocol and dropped its reference.\<close>

definition example_bound :: client_socket where
  "example_bound = onSeq 1 9 (example_pending\<lparr>cs_seq := 1, cs_handshakeDone := True\<rparr>)"

lemma example_generated: "list_all generated (spec_objects example_spec)"
  by (auto simp: generated_def spec_ok_def example_spec_def example_method_def less_Suc_eq)

lemma example_bound_objects:
  "cs_objects example_bound = [\<lparr>w_listeners = [], w_id = 9, w_version = 1, w_seq = 1,
     w_destroyed = False, w_protocolName = ''my_protocol'', w_spec = Some (hd (spec_objects example_spec))\<rparr>]"
  "cs_seq example_bound = 1" "cs_impls example_bound = []" "cs_fdValid example_bound" "\<not> cs_error example_bound"
  "cs_handshakeDone example_bound" "cs_pendingOutgoing example_bound = []"
  "cs_lastSentRoundtripSeq example_bound = 0" "cs_lastAckdRoundtripSeq example_bound = 0"
  by (simp_all add: example_bound_def onSeq_def example_pending_def open_socket_def socket_sendMessage_def)

lemma example_bound_ok: "client_ok example_bound"
proof -
  have "generated (hd (spec_objects example_spec))" using example_generated by (simp add: example_spec_def)
  then show ?thesis by (simp add: client_ok_def example_bound_objects client_object_ok_def)
qed

theorem client_read_ends_witness:
  "\<exists>r. client_handleMessage example_client_env (enc_RoundtripDone 4 @ [100, 0]) [] example_bound = Some r"
proof -
  have "short_runs (enc_RoundtripDone 4 @ [100, 0])" "vec_ok (enc_RoundtripDone 4 @ [100, 0])"
    by (simp_all add: short_runs_def enc_RoundtripDone_def u32_bytes_def vec_ok_def)
  from client_read_ends[OF example_client_env_ok example_bound_ok this, of "[]"] show ?thesis by blast
qed

text \<open>A dispatch with nothing to read.\<close>

definition idle_input :: dispatch_input where
  "idle_input = \<lparr>di_deadlinePassed = False, di_pollEvent = False, di_pollin = False, di_pollhup = False, di_read = None\<rparr>"

lemma example_idle: "\<exists>t. dispatchEvents example_client_env True idle_input example_bound = Some (Inr (True, t))"
proof -
  obtain u where u: "collectOrphanedObjects example_client_env example_bound = Inr u" "client_ok u" "cs_fdValid u"
    "cs_handshakeDone u"
    using releases_send[of "filter (orphaned example_client_env) (cs_objects example_bound)"
        "example_bound\<lparr>cs_objects := filter (\<lambda>obj. \<not> orphaned example_client_env obj) (cs_objects example_bound)\<rparr>"]
      example_bound_ok collect_ok[OF example_bound_ok]
    by (auto simp: collectOrphanedObjects_def example_bound_objects client_ok_def list_all_iff orphaned_def)
  obtain v where "collectOrphanedObjects example_client_env u = Inr v"
    using releases_send[of "filter (orphaned example_client_env) (cs_objects u)"
        "u\<lparr>cs_objects := filter (\<lambda>obj. \<not> orphaned example_client_env obj) (cs_objects u)\<rparr>"] u
    by (auto simp: collectOrphanedObjects_def client_ok_def list_all_iff orphaned_def)
  with u show ?thesis by (simp add: dispatchEvents_def idle_input_def example_bound_objects)
qed

theorem sequences_identify_witness:
  "\<exists>t. dispatchEvents example_client_env True idle_input example_bound = Some (Inr (True, t)) \<and>
     (\<forall>obj \<in> set (cs_objects t). objectForSeq (w_seq obj) t = Some obj)"
  using example_idle sequences_identify[OF example_client_env_ok example_bound_ok] by blast

theorem client_error_final_witness:
  "dispatchEvents example_client_env True idle_input (client_errd example_bound) =
     Some (Inr (False, client_errd example_bound))"
  using client_error_final[OF example_client_env_ok, of "client_errd example_bound" True idle_input "[]"]
  by (simp add: client_errd_def)

theorem orphans_collected_witness:
  "\<exists>t. collectOrphanedObjects example_client_env example_bound = Inr t \<and> cs_objects t = [] \<and>
     cs_sent t = cs_sent example_bound @ [(enc_client_msg (CmCall 9 1 []), [])]"
  using orphans_collected[OF example_bound_ok example_bound_objects(4), of example_client_env]
  by (simp add: example_bound_objects orphaned_def example_client_env_def destructor_msg_def auto_destructor_def
      client_methodsOut_def) (simp add: example_spec_def example_method_def)

theorem roundtrip_completes_witness:
  "let c = example_bound\<lparr>cs_objects := []\<rparr>; s = new_server_client 5 True;
     inp = \<lparr>di_deadlinePassed = False, di_pollEvent = True, di_pollin = True, di_pollhup = False,
        di_read = Some (enc_RoundtripDone 1, [])\<rparr>
   in dispatchClient example_env example_impls (Some (enc_RoundtripRequest 1, [])) s =
        Some (Inr (s\<lparr>sc_scheduledRoundtripSeq := 0, sc_sent := sc_sent s @ [(enc_RoundtripDone 1, [])]\<rparr>)) \<and>
      roundtrip example_client_env [inp] c =
        Some (Inr ([], c\<lparr>cs_lastSentRoundtripSeq := 1, cs_lastAckdRoundtripSeq := 1,
          cs_sent := cs_sent c @ [(enc_RoundtripRequest 1, [])]\<rparr>))"
proof -
  let ?c = "example_bound\<lparr>cs_objects := []\<rparr>"
  have "client_ok ?c" using client_ok_filter[OF example_bound_ok, of "\<lambda>_. False"] by simp
  moreover have "\<not> cs_error ?c" "cs_handshakeDone ?c" "cs_fdValid ?c" "cs_pendingOutgoing ?c = []"
    "\<forall>obj \<in> set (cs_objects ?c). \<not> orphaned example_client_env obj" "cs_lastSentRoundtripSeq ?c = 0"
    "cs_lastAckdRoundtripSeq ?c = 0"
    by (simp_all add: example_bound_objects)
  moreover have "\<not> sc_error (new_server_client 5 True)" "sc_fdValid (new_server_client 5 True)"
    by (simp_all add: new_server_client_def)
  ultimately show ?thesis
    using roundtrip_completes[of ?c example_client_env "new_server_client 5 True" example_env example_impls "[]"]
    by (simp add: Let_def)
qed

end
