(* ===== verification/Server_Socket.thy ===== *)
theory Server_Socket
  imports Server_Safety
begin

text \<open>
  \<^verbatim>\<open>CServerSocket\<close>: the list of connections, the array it polls, and the dispatch of both.
  What the kernel answers to one \<^verbatim>\<open>poll\<close>, \<^verbatim>\<open>accept\<close> and the reads that follow is an input of
  each round; so is what the user's handlers do to the list of connections while one of them
  is served. \<^verbatim>\<open>m_pollfds\<close> runs parallel to \<^verbatim>\<open>m_clients\<close>, behind the internal descriptors,
  and the dispatch loop uses one index into both.
\<close>

section \<open>State\<close>

text \<open>An entry of \<^verbatim>\<open>m_pollfds\<close>: its descriptor and the two bits of \<^verbatim>\<open>revents\<close> that are read.\<close>

record poll_entry =
  pf_fd :: int
  pf_in :: bool
  pf_hup :: bool

text \<open>Descriptors are numbers; the invalid one is -1.\<close>

record server_socket =
  ss_impls :: "protocol_impl list"
  ss_fd :: int
  ss_exportFd :: int
  ss_exitFd :: int
  ss_wakeupFd :: int
  ss_pollfds :: "poll_entry list"
  ss_clients :: "server_client list"
  ss_threadCanPoll :: bool
  ss_pollEvent :: bool
  ss_isEmptyListener :: bool
  ss_path :: string

definition poll_entry_of :: "int \<Rightarrow> poll_entry" where
  "poll_entry_of fd = \<lparr>pf_fd = fd, pf_in = False, pf_hup = False\<rparr>"

definition internalFds :: "server_socket \<Rightarrow> nat" where
  "internalFds s = (if ss_isEmptyListener s then 2 else 3)"

definition recheckPollFds :: "server_socket \<Rightarrow> server_socket" where
  "recheckPollFds s = s\<lparr>ss_pollfds :=
     (if ss_isEmptyListener s then [] else [poll_entry_of (ss_fd s)]) @
     [poll_entry_of (ss_exitFd s), poll_entry_of (ss_wakeupFd s)] @
     map (\<lambda>c. poll_entry_of (sc_fd c)) (ss_clients s)\<rparr>"

text \<open>The constructor; the wake-up pipe is -1 when \<^verbatim>\<open>pipe\<close> fails.\<close>

definition new_server_socket :: "int \<Rightarrow> server_socket" where
  "new_server_socket wakeup =
     \<lparr>ss_impls = [], ss_fd = - 1, ss_exportFd = - 1, ss_exitFd = - 1, ss_wakeupFd = wakeup, ss_pollfds = [],
      ss_clients = [], ss_threadCanPoll = False, ss_pollEvent = False, ss_isEmptyListener = False, ss_path = []\<rparr>"

definition attemptEmpty :: "server_socket \<Rightarrow> server_socket" where
  "attemptEmpty s = recheckPollFds (s\<lparr>ss_isEmptyListener := True\<rparr>)"

definition server_addImplementation :: "protocol_impl \<Rightarrow> server_socket \<Rightarrow> server_socket" where
  "server_addImplementation p s = s\<lparr>ss_impls := ss_impls s @ [p]\<rparr>"

section \<open>Opening a path\<close>

text \<open>
  The answers \<^verbatim>\<open>attempt\<close> gets: whether the file exists, and whether asking failed; what the
  probing \<^verbatim>\<open>connect\<close>, on a socket of its own, says; whether the stale file could be removed;
  the new socket and whether \<^verbatim>\<open>bind\<close> failed.
\<close>

datatype connect_answer = Connected | Refused | OtherError

record attempt_input =
  ai_exists :: bool
  ai_existsError :: bool
  ai_probe :: int
  ai_connect :: connect_answer
  ai_removeError :: bool
  ai_socket :: int
  ai_bindFails :: bool

text \<open>What it does to the file system.\<close>

datatype file_op = RemoveFile string | BindPath string

definition max_path :: nat where
  "max_path = 108"

definition probe_path :: "string \<Rightarrow> attempt_input \<Rightarrow> server_socket \<Rightarrow> bool \<times> file_op list \<times> server_socket" where
  "probe_path path inp s =
     (if \<not> ai_exists inp then (True, [], s)
      else if ai_existsError inp then (False, [], s)
      else
        let s = s\<lparr>ss_fd := ai_probe inp\<rparr>
        in if max_path \<le> length path then (False, [], s)
           else
             (case ai_connect inp of
                Connected \<Rightarrow> (False, [], s\<lparr>ss_fd := - 1\<rparr>)
              | OtherError \<Rightarrow> (False, [], s)
              | Refused \<Rightarrow> (\<not> ai_removeError inp, [RemoveFile path], s\<lparr>ss_fd := - 1\<rparr>)))"

definition attempt_path :: "string \<Rightarrow> attempt_input \<Rightarrow> server_socket \<Rightarrow> bool \<times> file_op list \<times> server_socket" where
  "attempt_path path inp s =
     (case probe_path path inp s of
        (go, ops, s) \<Rightarrow>
          if \<not> go then (False, ops, s)
          else
            let s = s\<lparr>ss_fd := ai_socket inp\<rparr>
            in if max_path \<le> length path then (False, ops, s)
               else if ai_bindFails inp then (False, ops @ [BindPath path], s)
               else (True, ops @ [BindPath path], recheckPollFds (s\<lparr>ss_path := path\<rparr>)))"

text \<open>
  The destructor, after the poll thread has been joined; and \<^verbatim>\<open>IServerSocket::open\<close>, which
  drops the server it has made when the attempt fails.
\<close>

definition destroy_server :: "server_socket \<Rightarrow> file_op list \<times> server_socket" where
  "destroy_server s = ((if ss_path s \<noteq> [] then [RemoveFile (ss_path s)] else []), s\<lparr>ss_fd := - 1\<rparr>)"

definition server_open :: "string \<Rightarrow> attempt_input \<Rightarrow> int \<Rightarrow> server_socket option \<times> file_op list" where
  "server_open path inp wakeup =
     (case attempt_path path inp (new_server_socket wakeup) of
        (ok, ops, s) \<Rightarrow> if ok then (Some s, ops) else (None, ops @ fst (destroy_server s)))"

definition server_open_empty :: "int \<Rightarrow> server_socket option" where
  "server_open_empty wakeup = Some (attemptEmpty (new_server_socket wakeup))"

definition setNewClientHandler :: "(server_client \<Rightarrow> server_client) option \<Rightarrow> server_env \<Rightarrow> server_env" where
  "setNewClientHandler fn env = env\<lparr>env_newClient := fn\<rparr>"

section \<open>The list of connections\<close>

text \<open>The flag says whether the descriptor is open, as \<^verbatim>\<open>isClosed\<close> and \<^verbatim>\<open>isValid\<close> report it.\<close>

definition createClient :: "int \<Rightarrow> bool \<Rightarrow> server_socket \<Rightarrow> bool \<times> server_socket" where
  "createClient fd usable s =
     (if usable then (True, s\<lparr>ss_clients := ss_clients s @ [new_server_client fd True]\<rparr>) else (False, s))"

definition addClient :: "int \<Rightarrow> bool \<Rightarrow> server_socket \<Rightarrow> bool \<times> server_socket" where
  "addClient fd usable s = (case createClient fd usable s of (ok, s) \<Rightarrow> (ok, recheckPollFds s))"

definition removeClient :: "int \<Rightarrow> server_socket \<Rightarrow> bool \<times> server_socket" where
  "removeClient fd s =
     (let kept = filter (\<lambda>c. sc_fd c \<noteq> fd) (ss_clients s);
          r = length (ss_clients s) - length kept;
          s = s\<lparr>ss_clients := kept\<rparr>
      in if 0 < r then (True, recheckPollFds s) else (False, s))"

datatype sock_op = OpAdd int bool | OpRemove int

fun sock_ops :: "sock_op list \<Rightarrow> server_socket \<Rightarrow> server_socket" where
  "sock_ops [] s = s"
| "sock_ops (OpAdd fd usable # ops) s = sock_ops ops (snd (addClient fd usable s))"
| "sock_ops (OpRemove fd # ops) s = sock_ops ops (snd (removeClient fd s))"

section \<open>A round\<close>

text \<open>
  The answers of one round: the bits \<^verbatim>\<open>poll\<close> reports for a descriptor, the descriptor
  \<^verbatim>\<open>accept\<close> returns and whether it is open, the read of each descriptor, and what handlers
  do to the socket while the connection of a descriptor is dispatched.
\<close>

record round_input =
  ri_poll :: "int \<Rightarrow> bool \<times> bool"
  ri_accept :: "int \<times> bool"
  ri_read :: "int \<Rightarrow> (byte list \<times> int list) option"
  ri_ops :: "int \<Rightarrow> sock_op list"

definition poll_fds :: "(int \<Rightarrow> bool \<times> bool) \<Rightarrow> server_socket \<Rightarrow> server_socket" where
  "poll_fds answer s = s\<lparr>ss_pollfds :=
     map (\<lambda>p. p\<lparr>pf_in := fst (answer (pf_fd p)), pf_hup := snd (answer (pf_fd p))\<rparr>) (ss_pollfds s)\<rparr>"

definition dispatchNewConnections :: "round_input \<Rightarrow> server_socket \<Rightarrow> (bool \<times> server_socket) attempt" where
  "dispatchNewConnections inp s =
     (if ss_isEmptyListener s then Inr (False, s)
      else
        (case ss_pollfds s of
           [] \<Rightarrow> Inl OutOfRange
         | p # _ \<Rightarrow>
             if \<not> pf_in p then Inr (False, s)
             else
               (case createClient (fst (ri_accept inp)) (snd (ri_accept inp)) s of
                  (ok, s) \<Rightarrow> if \<not> ok then Inr (False, s) else Inr (True, recheckPollFds s))))"

text \<open>
  The body of the loop over the entries, for an entry with \<^verbatim>\<open>POLLIN\<close>. The connection is
  served on its own; then what the handlers did to the socket takes place; then the same
  index is looked up in both lists again. The flag is \<^verbatim>\<open>needsPollRecheck\<close>.
\<close>

definition dispatch_entry ::
  "server_env \<Rightarrow> round_input \<Rightarrow> nat \<Rightarrow> server_socket \<Rightarrow> (stop + bool \<times> server_socket) option" where
  "dispatch_entry env inp i s =
     (let k = i - internalFds s
      in if length (ss_clients s) \<le> k then Some (Inl OutOfRange)
         else
           let c = ss_clients s ! k
           in Option.bind (dispatchClient env (ss_impls s) (ri_read inp (sc_fd c)) c) (\<lambda>r.
              obnd r (\<lambda>c'.
              let s = sock_ops (ri_ops inp (sc_fd c)) (s\<lparr>ss_clients := (ss_clients s)[k := c']\<rparr>)
              in if length (ss_pollfds s) \<le> i \<or> length (ss_clients s) \<le> k then Some (Inl OutOfRange)
                 else if pf_hup (ss_pollfds s ! i) then
                   Some (Inr (True, s\<lparr>ss_clients := (ss_clients s)[k := (ss_clients s ! k)\<lparr>sc_error := True\<rparr>]\<rparr>))
                 else Some (Inr (sc_error (ss_clients s ! k), s)))))"

definition drop_errors :: "server_socket \<Rightarrow> server_socket" where
  "drop_errors s = recheckPollFds (s\<lparr>ss_clients := filter (\<lambda>c. \<not> sc_error c) (ss_clients s)\<rparr>)"

text \<open>
  The loop ends: an entry that is served loses its \<^verbatim>\<open>POLLIN\<close> bit for the rest of the loop, as
  the index moves on, and a handler that changes the list clears them all.
\<close>

definition live_entries :: "nat \<Rightarrow> server_socket \<Rightarrow> nat" where
  "live_entries i s = length (filter pf_in (drop i (ss_pollfds s)))"

lemma recheck_quiet: "\<forall>p \<in> set (ss_pollfds (recheckPollFds s)). \<not> pf_in p"
  by (auto simp: recheckPollFds_def poll_entry_of_def)

lemma sock_ops_pollfds:
  "ss_pollfds (sock_ops ops s) = ss_pollfds s \<or> (\<forall>p \<in> set (ss_pollfds (sock_ops ops s)). \<not> pf_in p)"
proof (induction ops s rule: sock_ops.induct)
  case (2 fd usable ops s)
  have "\<forall>p \<in> set (ss_pollfds (snd (addClient fd usable s))). \<not> pf_in p"
    by (simp add: addClient_def recheck_quiet split: prod.split)
  with 2 show ?case by auto
next
  case (3 fd ops s)
  have "ss_pollfds (snd (removeClient fd s)) = ss_pollfds s \<or>
      (\<forall>p \<in> set (ss_pollfds (snd (removeClient fd s))). \<not> pf_in p)"
    by (simp add: removeClient_def recheck_quiet Let_def)
  with 3 show ?case by auto
qed simp

lemma live_quiet: "\<forall>p \<in> set (ss_pollfds s). \<not> pf_in p \<Longrightarrow> live_entries i s = 0"
  by (auto simp: live_entries_def filter_empty_conv dest: in_set_dropD)

lemma live_step:
  assumes "i < length (ss_pollfds s)"
  shows "live_entries i s = (if pf_in (ss_pollfds s ! i) then Suc (live_entries (Suc i) s) else live_entries (Suc i) s)"
  using assms by (simp add: live_entries_def Cons_nth_drop_Suc[symmetric])

lemma dispatch_entry_live:
  assumes "dispatch_entry env inp i s = Some (Inr (need, t))"
    and "i < length (ss_pollfds s)" and "pf_in (ss_pollfds s ! i)"
  shows "live_entries (Suc i) t < live_entries i s"
proof -
  from assms(1) obtain cs ops where "ss_pollfds t = ss_pollfds (sock_ops ops (s\<lparr>ss_clients := cs\<rparr>))"
    by (auto simp: dispatch_entry_def Let_def obnd_eq_Some bind_eq_Some_conv split: if_splits)
  with sock_ops_pollfds[of ops "s\<lparr>ss_clients := cs\<rparr>"]
  consider "ss_pollfds t = ss_pollfds s" | "\<forall>p \<in> set (ss_pollfds t). \<not> pf_in p" by auto
  then show ?thesis
  proof cases
    case 1
    then have "live_entries (Suc i) t = live_entries (Suc i) s" by (simp add: live_entries_def)
    with live_step[OF assms(2)] assms(3) show ?thesis by simp
  next
    case 2
    with live_step[OF assms(2)] assms(3) show ?thesis by (simp add: live_quiet)
  qed
qed

lemma obnd_cong [fundef_cong]:
  "m = m' \<Longrightarrow> (\<And>x. m' = Inr x \<Longrightarrow> f x = g x) \<Longrightarrow> obnd m f = obnd m' g"
  by (auto simp: obnd_def split: sum.splits)

function existing_loop ::
  "server_env \<Rightarrow> round_input \<Rightarrow> nat \<Rightarrow> bool \<Rightarrow> bool \<Rightarrow> server_socket \<Rightarrow> (stop + bool \<times> server_socket) option" where
  "existing_loop env inp i hadAny need s =
     (if i < length (ss_pollfds s) then
        (if \<not> pf_in (ss_pollfds s ! i) then existing_loop env inp (Suc i) hadAny need s
         else
           Option.bind (dispatch_entry env inp i s) (\<lambda>r.
           obnd r (\<lambda>x. existing_loop env inp (Suc i) True (need \<or> fst x) (snd x))))
      else Some (Inr (hadAny, if need then drop_errors s else s)))"
  by pat_completeness auto

termination
  by (relation "measures [\<lambda>(env, inp, i, hadAny, need, s). live_entries i s,
        \<lambda>(env, inp, i, hadAny, need, s). length (ss_pollfds s) - i]")
    (auto simp: live_step dest: dispatch_entry_live)

declare existing_loop.simps [simp del]

definition dispatchExistingConnections ::
  "server_env \<Rightarrow> round_input \<Rightarrow> server_socket \<Rightarrow> (stop + bool \<times> server_socket) option" where
  "dispatchExistingConnections env inp s = existing_loop env inp (internalFds s) False False s"

text \<open>A round; it is repeated while new connections come. \<open>None\<close>: the answers given do not
  suffice, or a dispatch does not return.\<close>

fun dispatchPending ::
  "server_env \<Rightarrow> round_input list \<Rightarrow> server_socket \<Rightarrow> (stop + bool \<times> round_input list \<times> server_socket) option" where
  "dispatchPending env [] s = None"
| "dispatchPending env (inp # inps) s =
     obnd (dispatchNewConnections inp (poll_fds (ri_poll inp) s)) (\<lambda>(new, s).
     if new then dispatchPending env inps s
     else
       Option.bind (dispatchExistingConnections env inp s) (\<lambda>r.
       obnd r (\<lambda>(hadAny, s). Some (Inr (hadAny, inps, s)))))"

lemma dispatchPending_shorter:
  "dispatchPending env inps s = Some (Inr (go, inps', t)) \<Longrightarrow> length inps' < length inps"
proof (induction env inps s rule: dispatchPending.induct)
  case (2 env inp inps s)
  from 2(2) obtain new u where "dispatchNewConnections inp (poll_fds (ri_poll inp) s) = Inr (new, u)"
    by (auto simp: obnd_eq_Some)
  with 2 show ?case
    by (cases new) (fastforce simp: obnd_eq_Some bind_eq_Some_conv)+
qed simp

function pending_loop ::
  "server_env \<Rightarrow> round_input list \<Rightarrow> server_socket \<Rightarrow> (stop + round_input list \<times> server_socket) option" where
  "pending_loop env inps s =
     Option.bind (dispatchPending env inps s) (\<lambda>r.
     obnd r (\<lambda>x. if fst x then pending_loop env (fst (snd x)) (snd (snd x)) else Some (Inr (snd x))))"
  by pat_completeness auto

termination
  by (relation "measure (\<lambda>(env, inps, s). length inps)") (auto dest: dispatchPending_shorter)

declare pending_loop.simps [simp del]

text \<open>
  The pipes that are drained in between carry no state of the model. The blocking \<^verbatim>\<open>poll\<close>
  overwrites the bits that the next round overwrites again.
\<close>

definition server_dispatchEvents ::
  "server_env \<Rightarrow> bool \<Rightarrow> (int \<Rightarrow> bool \<times> bool) \<Rightarrow> round_input list \<Rightarrow> server_socket \<Rightarrow>
   (stop + round_input list \<times> server_socket) option" where
  "server_dispatchEvents env block answer inps s =
     Option.bind (pending_loop env inps s) (\<lambda>r.
     obnd r (\<lambda>(inps, s).
     Option.bind (if block then pending_loop env inps (poll_fds answer s) else Some (Inr (inps, s))) (\<lambda>r.
     obnd r (\<lambda>(inps, s). Some (Inr (inps, s\<lparr>ss_pollEvent := False\<rparr>))))))"

text \<open>\<^verbatim>\<open>extractLoopFD\<close>: the read ends of the two pipes it makes, \<open>None\<close> where \<^verbatim>\<open>pipe\<close> fails.\<close>

definition extractLoopFD :: "int option \<Rightarrow> int option \<Rightarrow> server_socket \<Rightarrow> int \<times> server_socket" where
  "extractLoopFD export exit s =
     (if ss_exportFd s \<noteq> - 1 then (ss_exportFd s, s)
      else
        (case export of
           None \<Rightarrow> (- 1, s)
         | Some fd \<Rightarrow>
             let s = s\<lparr>ss_exportFd := fd\<rparr>
             in (case exit of
                   None \<Rightarrow> (- 1, s)
                 | Some fd' \<Rightarrow> (fd, recheckPollFds (s\<lparr>ss_exitFd := fd', ss_threadCanPoll := True\<rparr>)))))"

end
