(* ===== verification/Server_Connections.thy ===== *)
theory Server_Connections
  imports Server_Socket
begin

text \<open>
  The theorems about the server as a whole: an invariant of one connection is one of all of
  them, the two parallel lists stay aligned, a round serves each readable connection
  exactly once and drops exactly the failed ones, and when the dispatch ends and when it
  does not.
\<close>

section \<open>Lifting an invariant through a dispatch\<close>

text \<open>What every step of a dispatch keeps, the whole dispatch keeps.\<close>

locale socket_invariant =
  fixes env :: server_env and Q :: "server_socket \<Rightarrow> bool"
  assumes keep_entry: "Q s \<Longrightarrow> dispatch_entry env inp i s = Some (Inr (need, t)) \<Longrightarrow> Q t"
    and keep_drop: "Q s \<Longrightarrow> Q (drop_errors s)"
    and keep_new: "Q s \<Longrightarrow> dispatchNewConnections inp s = Inr (new, t) \<Longrightarrow> Q t"
    and keep_poll: "Q s \<Longrightarrow> Q (poll_fds answer s)"
    and keep_event: "Q s \<Longrightarrow> Q (s\<lparr>ss_pollEvent := event\<rparr>)"
begin

lemma keep_loop:
  "existing_loop e inp i hadAny need s = Some (Inr (r, t)) \<Longrightarrow> e = env \<Longrightarrow> Q s \<Longrightarrow> Q t"
proof (induction e inp i hadAny need s rule: existing_loop.induct)
  case (1 e inp i hadAny need s)
  note run = "1.prems"(1)[unfolded existing_loop.simps[of e inp i hadAny need s]]
  consider "\<not> i < length (ss_pollfds s)" | "i < length (ss_pollfds s)" "\<not> pf_in (ss_pollfds s ! i)"
    | "i < length (ss_pollfds s)" "pf_in (ss_pollfds s ! i)" by blast
  then show ?case
  proof cases
    case 1
    with run "1.prems"(3) keep_drop[of s] show ?thesis by (auto split: if_splits)
  next
    case 2
    with run "1.IH"(1)[OF 2(1)] "1.prems"(2,3) show ?thesis by simp
  next
    case 3
    with run obtain x where x: "dispatch_entry e inp i s = Some (Inr x)"
      and rest: "existing_loop e inp (Suc i) True (need \<or> fst x) (snd x) = Some (Inr (r, t))"
      by (auto simp: bind_eq_Some_conv obnd_eq_Some)
    have "Q (snd x)" using keep_entry[of s inp i "fst x" "snd x"] x "1.prems"(2,3) by simp
    with "1.IH"(2)[OF 3(1) _ x refl rest "1.prems"(2)] 3 show ?thesis by blast
  qed
qed

lemma keep_pending:
  "dispatchPending e inps s = Some (Inr (go, inps', t)) \<Longrightarrow> e = env \<Longrightarrow> Q s \<Longrightarrow> Q t"
proof (induction e inps s rule: dispatchPending.induct)
  case (2 e inp inps s)
  from "2.prems"(1) obtain new u where u: "dispatchNewConnections inp (poll_fds (ri_poll inp) s) = Inr (new, u)"
    by (auto simp: obnd_eq_Some)
  have Q: "Q u" using keep_new[OF keep_poll[OF "2.prems"(3)] u] .
  show ?case
  proof (cases new)
    case True
    with 2 u Q show ?thesis by simp
  next
    case False
    with "2.prems"(1) u have "dispatchExistingConnections e inp u = Some (Inr (go, t))"
      by (auto simp: bind_eq_Some_conv obnd_eq_Some)
    then show ?thesis using keep_loop "2.prems"(2) Q by (auto simp: dispatchExistingConnections_def)
  qed
qed simp

lemma keep_pending_loop: "pending_loop e inps s = Some (Inr (inps', t)) \<Longrightarrow> e = env \<Longrightarrow> Q s \<Longrightarrow> Q t"
proof (induction e inps s rule: pending_loop.induct)
  case (1 e inps s)
  from "1.prems"(1)[unfolded pending_loop.simps[of e inps s]] obtain x
    where x: "dispatchPending e inps s = Some (Inr x)"
      and rest: "(if fst x then pending_loop e (fst (snd x)) (snd (snd x)) else Some (Inr (snd x))) = Some (Inr (inps', t))"
    by (auto simp: bind_eq_Some_conv obnd_eq_Some)
  have "Q (snd (snd x))"
    using keep_pending[of e inps s "fst x" "fst (snd x)" "snd (snd x)"] x "1.prems"(2,3) by simp
  with rest "1.IH"[OF x refl] "1.prems"(2) show ?case by (auto split: if_splits)
qed

lemma keep_dispatchEvents:
  assumes "Q s" and "server_dispatchEvents env block answer inps s = Some (Inr (inps', t))"
  shows "Q t"
proof -
  from assms(2) obtain is' u t' where u: "pending_loop env inps s = Some (Inr (is', u))"
    and rest: "(if block then pending_loop env is' (poll_fds answer u) else Some (Inr (is', u))) = Some (Inr (inps', t'))"
    and t: "t = t'\<lparr>ss_pollEvent := False\<rparr>"
    by (fastforce simp: server_dispatchEvents_def bind_eq_Some_conv obnd_eq_Some)
  have "Q u" using keep_pending_loop[OF u refl assms(1)] .
  with rest keep_pending_loop[of env is' "poll_fds answer u"] have "Q t'"
    by (auto split: if_splits intro: keep_poll)
  then show ?thesis using t keep_event by simp
qed

end

lemma dispatch_entry_cases:
  assumes "dispatch_entry env inp i s = Some (Inr (need, t))"
  obtains k c c' u where "k = i - internalFds s" "k < length (ss_clients s)" "c = ss_clients s ! k"
    "dispatchClient env (ss_impls s) (ri_read inp (sc_fd c)) c = Some (Inr c')"
    "u = sock_ops (ri_ops inp (sc_fd c)) (s\<lparr>ss_clients := (ss_clients s)[k := c']\<rparr>)" "k < length (ss_clients u)"
    "t = u \<or> t = u\<lparr>ss_clients := (ss_clients u)[k := (ss_clients u ! k)\<lparr>sc_error := True\<rparr>]\<rparr>"
proof -
  let ?k = "i - internalFds s"
  let ?c = "ss_clients s ! ?k"
  have k: "?k < length (ss_clients s)"
    using assms by (auto simp: dispatch_entry_def Let_def split: if_splits)
  with assms obtain c' where c': "dispatchClient env (ss_impls s) (ri_read inp (sc_fd ?c)) ?c = Some (Inr c')"
    and t: "let u = sock_ops (ri_ops inp (sc_fd ?c)) (s\<lparr>ss_clients := (ss_clients s)[?k := c']\<rparr>) in
      ?k < length (ss_clients u) \<and>
      (t = u \<or> t = u\<lparr>ss_clients := (ss_clients u)[?k := (ss_clients u ! ?k)\<lparr>sc_error := True\<rparr>]\<rparr>)"
    by (auto simp: dispatch_entry_def Let_def bind_eq_Some_conv obnd_eq_Some split: if_splits)
  then show ?thesis using that[OF refl k refl c' refl] by (simp add: Let_def)
qed

section \<open>Lifting an invariant of a connection\<close>

locale every_connection =
  fixes env :: server_env and impls :: "protocol_impl list" and P :: "server_client \<Rightarrow> bool"
  assumes fresh: "P (new_server_client fd True)"
    and served: "P c \<Longrightarrow> dispatchClient env impls raw c = Some (Inr c') \<Longrightarrow> P c'"
    and failed: "P c \<Longrightarrow> P (c\<lparr>sc_error := True\<rparr>)"
begin

lemma lift_update: "list_all P cs \<Longrightarrow> P c \<Longrightarrow> list_all P (cs[k := c])"
  by (auto simp: list_all_iff dest!: subsetD[OF set_update_subset_insert])

lemma lift_ops:
  "list_all P (ss_clients s) \<Longrightarrow> list_all P (ss_clients (sock_ops ops s)) \<and> ss_impls (sock_ops ops s) = ss_impls s"
proof (induction ops s rule: sock_ops.induct)
  case (2 fd usable ops s)
  then show ?case by (auto simp: addClient_def createClient_def recheckPollFds_def fresh)
next
  case (3 fd ops s)
  have "list_all P (filter (\<lambda>c. sc_fd c \<noteq> fd) (ss_clients s))"
    using "3.prems" by (auto simp: list_all_iff)
  with 3 show ?case by (auto simp: removeClient_def recheckPollFds_def Let_def)
qed simp

lemma lift_entry:
  assumes "list_all P (ss_clients s)" and "ss_impls s = impls"
    and "dispatch_entry env inp i s = Some (Inr (need, t))"
  shows "list_all P (ss_clients t) \<and> ss_impls t = impls"
  using assms(3)
proof (cases rule: dispatch_entry_cases)
  case (1 k c c' u)
  have "P c" using assms(1) 1(2,3) by (simp add: list_all_length)
  then have "P c'" using 1(4) assms(2) by (auto intro: served)
  then have "list_all P (ss_clients (s\<lparr>ss_clients := (ss_clients s)[k := c']\<rparr>))"
    using assms(1) by (simp add: lift_update)
  then have u: "list_all P (ss_clients u) \<and> ss_impls u = impls"
    using lift_ops 1(5) assms(2) by auto
  then have "P (ss_clients u ! k)" using 1(6) by (simp add: list_all_length)
  with 1(7) u failed show ?thesis by (auto simp: lift_update)
qed

end

sublocale every_connection \<subseteq> all: socket_invariant env "\<lambda>s. list_all P (ss_clients s) \<and> ss_impls s = impls"
proof unfold_locales
  fix s t inp i need
  assume "list_all P (ss_clients s) \<and> ss_impls s = impls" "dispatch_entry env inp i s = Some (Inr (need, t))"
  then show "list_all P (ss_clients t) \<and> ss_impls t = impls" using lift_entry by blast
qed (auto simp: drop_errors_def recheckPollFds_def list_all_iff poll_fds_def dispatchNewConnections_def
    createClient_def fresh split: list.splits if_splits)

interpretation objects: every_connection env impls "\<lambda>c. env_ok env impls \<longrightarrow> objects_ok impls c" for env impls
proof unfold_locales
  fix fd
  show "env_ok env impls \<longrightarrow> objects_ok impls (new_server_client fd True)"
    by (simp add: objects_ok_def new_server_client_def)
qed (auto intro: bound.keep_dispatchClient bound.keep_flag)

text \<open>C22. Whatever clients connect and send, and whatever handlers do to the list of clients,
  after a dispatch every connection the server still has, in error or not, has given a
  specification only to objects of protocols that are registered and exposed to it. A
  connection that is not in error only has objects in a version the server has; one in error
  may have refused objects, without a specification or too new (\<open>objects_ok\<close>).\<close>

theorem all_connections_sound:
  assumes "env_ok env (ss_impls s)" and "list_all (objects_ok (ss_impls s)) (ss_clients s)"
    and "server_dispatchEvents env block answer inps s = Some (Inr (rest, t))"
  shows "list_all (objects_ok (ss_impls t)) (ss_clients t) \<and> ss_impls t = ss_impls s \<and>
    (\<forall>c \<in> set (ss_clients t). \<forall>obj \<in> set (sc_objects c). \<forall>sp. w_spec obj = Some sp \<longrightarrow>
       w_protocolName obj \<in> set (sc_exposedProtocols c) \<and>
       (\<exists>p \<in> set (ss_impls t). specName (protocol p) = w_protocolName obj \<and> sp \<in> set (spec_objects (protocol p))))"
proof -
  have all: "list_all (objects_ok (ss_impls t)) (ss_clients t)" "ss_impls t = ss_impls s"
    using objects.all.keep_dispatchEvents[OF _ assms(3), of "ss_impls s"] assms(1,2) by (simp_all add: list_all_iff)
  have "w_protocolName obj \<in> set (sc_exposedProtocols c) \<and>
      (\<exists>p \<in> set (ss_impls t). specName (protocol p) = w_protocolName obj \<and> sp \<in> set (spec_objects (protocol p)))"
    if "c \<in> set (ss_clients t)" "obj \<in> set (sc_objects c)" "w_spec obj = Some sp" for c obj sp
    using all(1) that(1) by (intro objects_ok_exposed[OF _ that(2,3)]) (simp add: list_all_iff)
  with all show ?thesis by blast
qed

section \<open>The two lists\<close>

definition internal_list :: "server_socket \<Rightarrow> int list" where
  "internal_list s = (if ss_isEmptyListener s then [] else [ss_fd s]) @ [ss_exitFd s, ss_wakeupFd s]"

definition aligned :: "server_socket \<Rightarrow> bool" where
  "aligned s \<longleftrightarrow> map pf_fd (ss_pollfds s) = internal_list s @ map sc_fd (ss_clients s)"

lemma internalFds_eq: "internalFds s = length (internal_list s)"
  by (simp add: internalFds_def internal_list_def)

lemma recheck_aligned: "aligned (recheckPollFds s)"
  by (simp add: aligned_def internal_list_def recheckPollFds_def poll_entry_of_def)

lemma drop_errors_aligned: "aligned (drop_errors s)"
  by (simp add: drop_errors_def recheck_aligned)

lemma addClient_aligned: "aligned (snd (addClient fd usable s))"
  by (simp add: addClient_def recheck_aligned split: prod.split)

lemma removeClient_aligned: "aligned s \<Longrightarrow> aligned (snd (removeClient fd s))"
proof -
  assume s: "aligned s"
  let ?kept = "filter (\<lambda>c. sc_fd c \<noteq> fd) (ss_clients s)"
  show ?thesis
  proof (cases "length ?kept < length (ss_clients s)")
    case True
    then show ?thesis by (simp add: removeClient_def Let_def recheck_aligned)
  next
    case False
    then have "?kept = ss_clients s"
      using length_filter_le[of "\<lambda>c. sc_fd c \<noteq> fd" "ss_clients s"] by (metis filter_id_conv length_filter_less linorder_neqE_nat)
    with s False show ?thesis by (simp add: removeClient_def Let_def)
  qed
qed

lemma sock_ops_aligned: "aligned s \<Longrightarrow> aligned (sock_ops ops s)"
  by (induction ops s rule: sock_ops.induct) (simp_all add: addClient_aligned removeClient_aligned)

lemma poll_fds_aligned [simp]: "aligned (poll_fds answer s) = aligned s"
  by (simp add: aligned_def internal_list_def poll_fds_def o_def)

lemma aligned_clients:
  "map sc_fd cs = map sc_fd (ss_clients s) \<Longrightarrow> aligned (s\<lparr>ss_clients := cs\<rparr>) = aligned s"
  by (simp add: aligned_def internal_list_def)

lemma map_update_same: "k < length xs \<Longrightarrow> f y = f (xs ! k) \<Longrightarrow> map f (xs[k := y]) = map f xs"
  by (simp add: map_update list_update_same_conv)

text \<open>A dispatch never changes the descriptor of its connection.\<close>

interpretation handle: connection_invariant impls "\<lambda>s. sc_fd s = fd" for impls fd
proof unfold_locales
  fix s t :: server_client
  assume "api impls s t" "sc_fd s = fd"
  then show "sc_fd t = fd"
  proof cases
    case (api_call oid mid vas)
    then show ?thesis using \<open>sc_fd s = fd\<close> by (elim object_call_cases) (auto simp: sc_ops)
  next
    case (api_create ref r object seq)
    then show ?thesis
      using \<open>sc_fd s = fd\<close>
      by (cases rule: announce_cases[of impls "w_protocolName r" object "w_version r" seq s]) (auto simp: sc_ops)
  qed (auto simp: sc_ops)
next
  fix s :: server_client and name object version seq
  assume "sc_fd s = fd"
  then show "sc_fd (snd (announce_object impls name object version seq s)) = fd"
    by (cases rule: announce_cases[of impls name object version seq s]) (auto simp: sc_ops)
qed (auto simp: sc_ops setupExposedProtocols_def Let_def)

lemma sock_ops_impls: "ss_impls (sock_ops ops s) = ss_impls s"
  by (induction ops s rule: sock_ops.induct)
    (simp_all add: addClient_def createClient_def removeClient_def recheckPollFds_def Let_def)

interpretation aligned: socket_invariant env "\<lambda>s. ss_impls s = impls \<and> (env_ok env impls \<longrightarrow> aligned s)" for env impls
proof unfold_locales
  fix s t inp i need
  assume inv: "ss_impls s = impls \<and> (env_ok env impls \<longrightarrow> aligned s)"
    and "dispatch_entry env inp i s = Some (Inr (need, t))"
  from this(2) show "ss_impls t = impls \<and> (env_ok env impls \<longrightarrow> aligned t)"
  proof (cases rule: dispatch_entry_cases)
    case (1 k c c' u)
    have "aligned t" if env: "env_ok env impls"
    proof -
      have "sc_fd c' = sc_fd c" using handle.keep_dispatchClient[OF env refl] 1(4) inv by simp
      then have "aligned (s\<lparr>ss_clients := (ss_clients s)[k := c']\<rparr>)"
        using inv env 1(2,3) by (simp add: aligned_clients map_update_same)
      then have "aligned u" unfolding 1(5) by (rule sock_ops_aligned)
      with 1(6,7) show ?thesis by (auto simp: aligned_clients map_update_same)
    qed
    with 1(5,7) inv show ?thesis by (auto simp: sock_ops_impls)
  qed
next
  fix s t inp new
  assume "ss_impls s = impls \<and> (env_ok env impls \<longrightarrow> aligned s)" "dispatchNewConnections inp s = Inr (new, t)"
  then show "ss_impls t = impls \<and> (env_ok env impls \<longrightarrow> aligned t)"
    by (auto simp: dispatchNewConnections_def createClient_def recheck_aligned split: list.splits if_splits)
      (simp_all add: recheckPollFds_def)
next
  fix s event
  assume "ss_impls s = impls \<and> (env_ok env impls \<longrightarrow> aligned s)"
  then show "ss_impls (s\<lparr>ss_pollEvent := event\<rparr>) = impls \<and> (env_ok env impls \<longrightarrow> aligned (s\<lparr>ss_pollEvent := event\<rparr>))"
    by (simp add: aligned_def internal_list_def)
qed (simp_all add: drop_errors_aligned, simp_all add: drop_errors_def recheckPollFds_def poll_fds_def)

text \<open>C21. The array that is polled stays parallel to the list of clients: if entry and client
  agree before a dispatch they agree after it, with every connection that was accepted,
  dropped, or added and removed by a handler in between.\<close>

theorem poll_list_aligned:
  assumes "env_ok env (ss_impls s)" and "aligned s"
    and "server_dispatchEvents env block answer inps s = Some (Inr (rest, t))"
  shows "aligned t"
  using aligned.keep_dispatchEvents[OF _ assms(3), of "ss_impls s"] assms(1,2) by simp

section \<open>A round without interference\<close>

text \<open>What a round does to one connection, given what its dispatch returns.\<close>

definition after_round :: "round_input \<Rightarrow> (server_client \<Rightarrow> server_client) \<Rightarrow> server_client \<Rightarrow> server_client" where
  "after_round inp f c =
     (if \<not> fst (ri_poll inp (sc_fd c)) then c
      else if snd (ri_poll inp (sc_fd c)) then (f c)\<lparr>sc_error := True\<rparr> else f c)"

definition polled :: "round_input \<Rightarrow> server_client \<Rightarrow> bool" where
  "polled inp c \<longleftrightarrow> fst (ri_poll inp (sc_fd c))"

lemma polled_entry:
  assumes "aligned s" and "k < length (ss_clients s)"
  shows "internalFds s + k < length (ss_pollfds (poll_fds (ri_poll inp) s))"
    and "ss_pollfds (poll_fds (ri_poll inp) s) ! (internalFds s + k) =
      \<lparr>pf_fd = sc_fd (ss_clients s ! k), pf_in = polled inp (ss_clients s ! k),
       pf_hup = snd (ri_poll inp (sc_fd (ss_clients s ! k)))\<rparr>"
proof -
  have len: "length (ss_pollfds s) = internalFds s + length (ss_clients s)"
    using arg_cong[OF assms(1)[unfolded aligned_def], of length] by (simp add: internalFds_eq)
  then show "internalFds s + k < length (ss_pollfds (poll_fds (ri_poll inp) s))"
    using assms(2) by (simp add: poll_fds_def)
  have "pf_fd (ss_pollfds s ! (internalFds s + k)) = map pf_fd (ss_pollfds s) ! (internalFds s + k)"
    using len assms(2) by simp
  also have "\<dots> = sc_fd (ss_clients s ! k)"
    using assms unfolding aligned_def by (simp add: internalFds_eq nth_append)
  finally show "ss_pollfds (poll_fds (ri_poll inp) s) ! (internalFds s + k) =
      \<lparr>pf_fd = sc_fd (ss_clients s ! k), pf_in = polled inp (ss_clients s ! k),
       pf_hup = snd (ri_poll inp (sc_fd (ss_clients s ! k)))\<rparr>"
    using len assms(2) by (simp add: poll_fds_def polled_def)
qed

text \<open>No handler touches the list, and each dispatch of the round returns what \<open>f\<close> says.\<close>

definition round_runs :: "server_env \<Rightarrow> round_input \<Rightarrow> (server_client \<Rightarrow> server_client) \<Rightarrow> server_socket \<Rightarrow> bool" where
  "round_runs env inp f s \<longleftrightarrow> ri_ops inp = (\<lambda>_. []) \<and>
     (\<forall>c \<in> set (ss_clients s). polled inp c \<longrightarrow>
        dispatchClient env (ss_impls s) (ri_read inp (sc_fd c)) c = Some (Inr (f c)))"

lemma dispatch_entry_alone:
  assumes "round_runs env inp f s" and "aligned s" and k: "k < length (ss_clients s)"
    and "polled inp (ss_clients s ! k)" and "length cs = length (ss_clients s)" and "cs ! k = ss_clients s ! k"
  shows "dispatch_entry env inp (internalFds s + k) ((poll_fds (ri_poll inp) s)\<lparr>ss_clients := cs\<rparr>) =
    Some (Inr (sc_error (after_round inp f (cs ! k)),
      (poll_fds (ri_poll inp) s)\<lparr>ss_clients := cs[k := after_round inp f (cs ! k)]\<rparr>))"
proof -
  have "dispatchClient env (ss_impls s) (ri_read inp (sc_fd (cs ! k))) (cs ! k) = Some (Inr (f (cs ! k)))"
    using assms(1,3,4,6) by (simp add: round_runs_def)
  moreover have "ri_ops inp = (\<lambda>_. [])" using assms(1) by (simp add: round_runs_def)
  moreover note polled_entry[OF assms(2) k, of inp]
  moreover have "ss_impls (poll_fds (ri_poll inp) s) = ss_impls s" "internalFds (poll_fds (ri_poll inp) s) = internalFds s"
    by (simp_all add: poll_fds_def internalFds_def)
  moreover have "internalFds (u\<lparr>ss_clients := v\<rparr>) = internalFds u" for u v by (simp add: internalFds_def)
  moreover have "fst (ri_poll inp (sc_fd (ss_clients s ! k)))" using assms(4) by (simp add: polled_def)
  ultimately show ?thesis
    using assms(5,6) k by (simp add: dispatch_entry_def after_round_def Let_def)
qed

lemma existing_loop_alone:
  assumes run: "round_runs env inp f s" and al: "aligned s"
  shows "k \<le> length (ss_clients s) \<Longrightarrow>
    existing_loop env inp (internalFds s + k) hadAny need ((poll_fds (ri_poll inp) s)\<lparr>ss_clients :=
      map (after_round inp f) (take k (ss_clients s)) @ drop k (ss_clients s)\<rparr>) =
    (let left = drop k (ss_clients s);
         t = (poll_fds (ri_poll inp) s)\<lparr>ss_clients := map (after_round inp f) (ss_clients s)\<rparr>
     in Some (Inr (hadAny \<or> (\<exists>c \<in> set left. polled inp c),
          if need \<or> (\<exists>c \<in> set left. polled inp c \<and> sc_error (after_round inp f c)) then drop_errors t else t)))"
proof (induction "length (ss_clients s) - k" arbitrary: k hadAny need)
  case 0
  then have k: "k = length (ss_clients s)" by simp
  have "length (ss_pollfds (poll_fds (ri_poll inp) s)) = internalFds s + length (ss_clients s)"
    using arg_cong[OF al[unfolded aligned_def], of length] by (simp add: internalFds_eq poll_fds_def)
  with k show ?case by (subst existing_loop.simps) simp
next
  case (Suc n)
  then have k: "k < length (ss_clients s)" by simp
  let ?u = "poll_fds (ri_poll inp) s"
  let ?c = "ss_clients s ! k" and ?g = "after_round inp f"
  let ?cs = "map ?g (take k (ss_clients s)) @ drop k (ss_clients s)"
  let ?cs' = "map ?g (take (Suc k) (ss_clients s)) @ drop (Suc k) (ss_clients s)"
  have nth: "?cs ! k = ?c" and len: "length ?cs = length (ss_clients s)" using k by (simp_all add: nth_append)
  have upd: "?cs[k := ?g ?c] = ?cs'"
    using k by (simp add: list_update_append take_Suc_conv_app_nth Cons_nth_drop_Suc[symmetric])
  have split: "set (drop k (ss_clients s)) = insert ?c (set (drop (Suc k) (ss_clients s)))"
    using Cons_nth_drop_Suc[OF k] by (metis list.simps(15))
  note IH = Suc.hyps(1)[of "Suc k"]
  show ?case
  proof (cases "polled inp ?c")
    case False
    then have "?cs' = ?cs" using k upd nth by (simp add: after_round_def polled_def) (metis list_update_id nth upd)
    with False polled_entry[OF al k, of inp] IH[of hadAny need] Suc.hyps(2) k split
    show ?thesis by (subst existing_loop.simps) (simp add: Let_def)
  next
    case True
    with dispatch_entry_alone[OF run al k True len nth] polled_entry[OF al k, of inp]
      IH[of True "need \<or> sc_error (?g ?c)"] Suc.hyps(2) k split nth upd
    show ?thesis by (subst existing_loop.simps) (simp add: Let_def)
  qed
qed

lemma existing_alone:
  assumes "round_runs env inp f s" and "aligned s"
  shows "dispatchExistingConnections env inp (poll_fds (ri_poll inp) s) =
    (let t = (poll_fds (ri_poll inp) s)\<lparr>ss_clients := map (after_round inp f) (ss_clients s)\<rparr>
     in Some (Inr (\<exists>c \<in> set (ss_clients s). polled inp c,
          if \<exists>c \<in> set (ss_clients s). polled inp c \<and> sc_error (after_round inp f c) then drop_errors t else t)))"
proof -
  have same: "(poll_fds (ri_poll inp) s)\<lparr>ss_clients := ss_clients s\<rparr> = poll_fds (ri_poll inp) s"
    "internalFds (poll_fds (ri_poll inp) s) = internalFds s"
    by (simp_all add: poll_fds_def internalFds_def)
  then show ?thesis
    using existing_loop_alone[OF assms, of 0 False False] by (simp add: dispatchExistingConnections_def Let_def)
qed

text \<open>When no handler touches the list of clients, a round serves every client whose
  descriptor is readable exactly once, with that client's own read, marks those that hung
  up, and changes no other; it drops the clients in error exactly if one of those it served
  is.\<close>

theorem round_serves_each:
  assumes "round_runs env inp f s" and "aligned s"
  shows "dispatchExistingConnections env inp (poll_fds (ri_poll inp) s) =
    (let t = (poll_fds (ri_poll inp) s)\<lparr>ss_clients := map (after_round inp f) (ss_clients s)\<rparr>
     in Some (Inr (\<exists>c \<in> set (ss_clients s). polled inp c,
          if \<exists>c \<in> set (ss_clients s). polled inp c \<and> sc_error (after_round inp f c) then drop_errors t else t)))"
  by (rule existing_alone[OF assms])

section \<open>A handler that removes its own client\<close>

text \<open>C33. A handler that removes the client whose message it handles, with
  \<^verbatim>\<open>IServerSocket::removeClient\<close>, makes the dispatch throw: when that client is the last of
  the list, the loop's next look at its index is out of range.\<close>

theorem removal_in_handler_throws:
  assumes "aligned s" and "ss_clients s = cs @ [c]" and "polled inp c"
    and "dispatchClient env (ss_impls s) (ri_read inp (sc_fd c)) c = Some (Inr c')" and "sc_fd c' = sc_fd c"
    and "ri_ops inp (sc_fd c) = [OpRemove (sc_fd c)]"
    and "\<forall>d \<in> set cs. \<not> polled inp d"
  shows "dispatchExistingConnections env inp (poll_fds (ri_poll inp) s) = Some (Inl OutOfRange)"
proof -
  let ?u = "poll_fds (ri_poll inp) s" and ?n = "length cs"
  have same: "internalFds ?u = internalFds s" "ss_impls ?u = ss_impls s" "ss_clients ?u = ss_clients s"
    by (simp_all add: poll_fds_def internalFds_def)
  have last: "existing_loop env inp (internalFds s + ?n) hadAny need ?u = Some (Inl OutOfRange)" for hadAny need
  proof -
    let ?w = "sock_ops [OpRemove (sc_fd c)] (?u\<lparr>ss_clients := (ss_clients s)[?n := c']\<rparr>)"
    have "length (filter (\<lambda>d. sc_fd d \<noteq> sc_fd c) (cs @ [c'])) < Suc ?n"
      using assms(5) by (simp add: le_imp_less_Suc)
    then have w: "length (ss_clients ?w) \<le> ?n"
      by (simp add: assms(2) removeClient_def recheckPollFds_def Let_def)
    have "dispatch_entry env inp (internalFds s + ?n) ?u = Some (Inl OutOfRange)"
      using assms(4,6) w by (simp add: dispatch_entry_def same assms(2) Let_def del: sock_ops.simps)
    then show ?thesis
      using polled_entry[OF assms(1), of ?n inp] assms(2,3) by (subst existing_loop.simps) simp
  qed
  have "k \<le> ?n \<Longrightarrow> existing_loop env inp (internalFds s + (?n - k)) hadAny need ?u = Some (Inl OutOfRange)"
    for k hadAny need
  proof (induction k)
    case 0
    then show ?case using last by simp
  next
    case (Suc k)
    let ?i = "?n - Suc k"
    have i: "?i < ?n" "Suc ?i = ?n - k" "Suc (internalFds s + ?n - Suc k) = internalFds s + ?n - k"
      using Suc.prems by simp_all
    then have "\<not> polled inp (ss_clients s ! ?i)" using assms(2,7) by (simp add: nth_append)
    then show ?case
      using polled_entry[OF assms(1), of ?i inp] Suc i assms(2) by (subst existing_loop.simps) simp
  qed
  from this[of ?n] show ?thesis by (simp add: dispatchExistingConnections_def same)
qed

section \<open>When a dispatch ends\<close>

text \<open>A round in which the readable clients have nothing to read: their peer has shut down its
  sending side, which is readable and no hangup.\<close>

definition half_closed_round :: "server_socket \<Rightarrow> round_input \<Rightarrow> bool" where
  "half_closed_round s inp \<longleftrightarrow>
     \<not> fst (ri_poll inp (ss_fd s)) \<and> ri_ops inp = (\<lambda>_. []) \<and>
     (\<exists>c \<in> set (ss_clients s). polled inp c) \<and>
     (\<forall>c \<in> set (ss_clients s). polled inp c \<longrightarrow>
        \<not> snd (ri_poll inp (sc_fd c)) \<and> ri_read inp (sc_fd c) = Some ([], []) \<and> \<not> sc_error c)"

lemma no_new_connection:
  assumes "aligned s" and "\<not> fst (ri_poll inp (ss_fd s))"
  shows "dispatchNewConnections inp (poll_fds (ri_poll inp) s) = Inr (False, poll_fds (ri_poll inp) s)"
proof (cases "ss_isEmptyListener s")
  case True
  then show ?thesis by (simp add: dispatchNewConnections_def poll_fds_def)
next
  case False
  then obtain p ps where p: "ss_pollfds s = p # ps" "pf_fd p = ss_fd s"
    using assms(1) by (cases "ss_pollfds s") (auto simp: aligned_def internal_list_def)
  with False assms(2) show ?thesis by (simp add: dispatchNewConnections_def poll_fds_def)
qed

lemma half_closed_pending:
  assumes "aligned s" and "half_closed_round s inp"
  shows "dispatchPending env (inp # inps) s = Some (Inr (True, inps, poll_fds (ri_poll inp) s))"
proof -
  have "round_runs env inp (\<lambda>c. c) s"
    using assms(2) by (simp add: round_runs_def half_closed_round_def dispatchClient_def)
  note served = existing_alone[OF this assms(1)]
  have same: "map (after_round inp (\<lambda>c. c)) (ss_clients s) = ss_clients s"
    using assms(2) by (auto simp: half_closed_round_def after_round_def polled_def intro: map_idI)
  have calm: "\<not> (\<exists>c \<in> set (ss_clients s). polled inp c \<and> sc_error (after_round inp (\<lambda>c. c) c))"
    using assms(2) by (auto simp: half_closed_round_def after_round_def polled_def)
  have "(poll_fds (ri_poll inp) s)\<lparr>ss_clients := ss_clients s\<rparr> = poll_fds (ri_poll inp) s"
    by (simp add: poll_fds_def)
  then have "dispatchExistingConnections env inp (poll_fds (ri_poll inp) s) = Some (Inr (True, poll_fds (ri_poll inp) s))"
    unfolding served same Let_def if_not_P[OF calm] using assms(2) by (simp add: half_closed_round_def)
  then show ?thesis
    using no_new_connection[OF assms(1)] assms(2) by (simp add: half_closed_round_def)
qed

lemma half_closed_poll [simp]: "half_closed_round (poll_fds answer s) inp = half_closed_round s inp"
  by (simp add: half_closed_round_def poll_fds_def)

text \<open>C32. A client that shuts down its sending side while it keeps the connection open makes the
  server's dispatch spin: each round finds the descriptor readable, reads nothing, changes
  no client and asks for another round, so that \<^verbatim>\<open>dispatchEvents\<close> does not return however
  often it polls.\<close>

theorem half_closed_client_spins:
  assumes "aligned s" and "list_all (half_closed_round s) inps"
  shows "server_dispatchEvents env block answer inps s = None \<and>
    (\<forall>inp rest. inps = inp # rest \<longrightarrow>
       (\<exists>t. dispatchPending env inps s = Some (Inr (True, rest, t)) \<and> ss_clients t = ss_clients s))"
proof -
  have "aligned u \<Longrightarrow> list_all (half_closed_round u) is \<Longrightarrow> pending_loop env is u = None" for "is" u
  proof (induction "is" arbitrary: u)
    case Nil
    then show ?case by (subst pending_loop.simps) simp
  next
    case (Cons inp "is")
    have "pending_loop env is (poll_fds (ri_poll inp) u) = None"
      using Cons.IH[of "poll_fds (ri_poll inp) u"] Cons.prems by (simp add: list_all_iff)
    with half_closed_pending[OF Cons.prems(1)] Cons.prems(2) show ?case
      by (subst pending_loop.simps) simp
  qed
  from this[OF assms] have "server_dispatchEvents env block answer inps s = None"
    by (simp add: server_dispatchEvents_def)
  moreover have "\<exists>t. dispatchPending env inps s = Some (Inr (True, rest, t)) \<and> ss_clients t = ss_clients s"
    if "inps = inp # rest" for inp rest
    using half_closed_pending[OF assms(1)] assms(2) that by (simp add: poll_fds_def)
  ultimately show ?thesis by blast
qed

text \<open>The reads of a round end, as for bytes without four continuation bytes in a row.\<close>

definition ok_reads :: "round_input \<Rightarrow> bool" where
  "ok_reads inp \<longleftrightarrow> (\<forall>fd data fds. ri_read inp fd = Some (data, fds) \<longrightarrow> short_runs data \<and> vec_ok data)"

definition calm :: "round_input \<Rightarrow> bool" where
  "calm inp \<longleftrightarrow> (\<forall>fd. \<not> fst (ri_poll inp fd))"

lemma dispatchClient_returns:
  assumes "\<And>data fds. raw = Some (data, fds) \<Longrightarrow> short_runs data \<and> vec_ok data"
  shows "\<exists>r. dispatchClient env impls raw c = Some r"
proof (cases raw)
  case None
  then show ?thesis by (simp add: dispatchClient_def)
next
  case (Some x)
  obtain data fds where x: "x = (data, fds)" by (cases x)
  with Some assms obtain r where "server_handleMessage env impls data fds c = Some r"
    using server_loop_returns[of data 0 env impls fds c] by (auto simp: server_handleMessage_def)
  with Some x show ?thesis by (cases r) (auto simp: dispatchClient_def)
qed

lemma existing_loop_returns:
  "ok_reads inp \<Longrightarrow> \<exists>r. existing_loop env inp i hadAny need s = Some r"
proof (induction env inp i hadAny need s rule: existing_loop.induct)
  case (1 env inp i hadAny need s)
  show ?case
  proof (cases "i < length (ss_pollfds s) \<and> pf_in (ss_pollfds s ! i)")
    case False
    with 1 show ?thesis by (subst existing_loop.simps) auto
  next
    case True
    let ?k = "i - internalFds s"
    let ?c = "ss_clients s ! ?k"
    obtain r where "dispatchClient env (ss_impls s) (ri_read inp (sc_fd ?c)) ?c = Some r"
      using dispatchClient_returns[of "ri_read inp (sc_fd ?c)" env "ss_impls s" ?c] "1.prems"
      unfolding ok_reads_def by blast
    then have "dispatch_entry env inp i s \<noteq> None" by (cases r) (simp_all add: dispatch_entry_def Let_def)
    then obtain e where e: "dispatch_entry env inp i s = Some e" by blast
    show ?thesis
    proof (cases e)
      case (Inl x)
      with e True show ?thesis by (subst existing_loop.simps) simp
    next
      case (Inr x)
      with "1.IH"(2)[OF _ _ e Inr "1.prems"] e True show ?thesis by (subst existing_loop.simps) simp
    qed
  qed
qed

lemma existing_loop_calm: "\<forall>p \<in> set (ss_pollfds s). \<not> pf_in p \<Longrightarrow> existing_loop env inp i hadAny False s = Some (Inr (hadAny, s))"
proof (induction "length (ss_pollfds s) - i" arbitrary: i)
  case 0
  then show ?case by (subst existing_loop.simps) simp
next
  case (Suc n)
  then show ?case by (subst existing_loop.simps) simp
qed

lemma calm_pending:
  assumes "calm inp" and "ss_isEmptyListener s \<or> ss_pollfds s \<noteq> []"
  shows "dispatchPending env (inp # inps) s = Some (Inr (False, inps, poll_fds (ri_poll inp) s))"
proof -
  have "\<forall>p \<in> set (ss_pollfds (poll_fds (ri_poll inp) s)). \<not> pf_in p"
    using assms(1) by (auto simp: poll_fds_def calm_def)
  with assms(2) existing_loop_calm[OF this, of env inp] show ?thesis
    by (cases "ss_pollfds s")
      (auto simp: dispatchNewConnections_def dispatchExistingConnections_def poll_fds_def)
qed

lemma dispatchPending_ends:
  "list_all ok_reads inps \<Longrightarrow> \<exists>inp \<in> set inps. calm inp \<Longrightarrow>
     \<exists>r. dispatchPending env inps s = Some r \<and>
       (\<forall>inps' t. r = Inr (True, inps', t) \<longrightarrow> list_all ok_reads inps' \<and> (\<exists>inp \<in> set inps'. calm inp))"
proof (induction inps arbitrary: s)
  case (Cons inp inps)
  show ?case
  proof (cases "calm inp")
    case True
    then show ?thesis
      using calm_pending[of inp s env inps]
      by (cases "ss_isEmptyListener s \<or> ss_pollfds s \<noteq> []") (auto simp: dispatchNewConnections_def poll_fds_def)
  next
    case False
    with Cons.prems have tail: "list_all ok_reads inps" "\<exists>inp \<in> set inps. calm inp" by auto
    show ?thesis
    proof (cases "dispatchNewConnections inp (poll_fds (ri_poll inp) s)")
      case (Inl e)
      then show ?thesis by simp
    next
      case (Inr x)
      obtain new u where x: "x = (new, u)" by (cases x)
      obtain r where r: "dispatchExistingConnections env inp u = Some r"
        using existing_loop_returns[of inp env "internalFds u" False False u] Cons.prems(1)
        by (auto simp: dispatchExistingConnections_def)
      show ?thesis
      proof (cases new)
        case True
        with Cons.IH[OF tail, of u] Inr x show ?thesis by simp
      next
        case False
        with r Inr x tail show ?thesis by (cases r) auto
      qed
    qed
  qed
qed simp

lemma pending_loop_ends:
  "list_all ok_reads inps \<Longrightarrow> \<exists>inp \<in> set inps. calm inp \<Longrightarrow> \<exists>r. pending_loop env inps s = Some r"
proof (induction env inps s rule: pending_loop.induct)
  case (1 env inps s)
  obtain r where r: "dispatchPending env inps s = Some r"
    and more: "\<forall>inps' t. r = Inr (True, inps', t) \<longrightarrow> list_all ok_reads inps' \<and> (\<exists>inp \<in> set inps'. calm inp)"
    using dispatchPending_ends[OF "1.prems"] by blast
  show ?case
  proof (cases r)
    case (Inl e)
    with r show ?thesis by (subst pending_loop.simps) simp
  next
    case (Inr x)
    obtain go inps' t where x: "x = (go, inps', t)" by (cases x)
    show ?thesis
    proof (cases go)
      case True
      with more Inr x have "list_all ok_reads inps'" "\<exists>inp \<in> set inps'. calm inp" by auto
      with "1.IH"[OF r Inr] x True obtain r' where "pending_loop env inps' t = Some r'" by auto
      with r Inr x True show ?thesis by (subst pending_loop.simps) simp
    next
      case False
      with r Inr x show ?thesis by (subst pending_loop.simps) simp
    qed
  qed
qed

text \<open>A dispatch that does not block returns as soon as one poll finds nothing readable,
  whoever connected and whatever handlers did before, as long as no read holds a run of
  four continuation bytes.\<close>

theorem dispatch_ends:
  assumes "list_all ok_reads inps" and "\<exists>inp \<in> set inps. calm inp"
  shows "\<exists>r. server_dispatchEvents env False answer inps s = Some r"
proof -
  obtain r where "pending_loop env inps s = Some r" using pending_loop_ends[OF assms] by blast
  then show ?thesis by (cases r) (auto simp: server_dispatchEvents_def)
qed

section \<open>Opening a path\<close>

text \<open>What an attempt makes of a path, and of the socket it probed it with.\<close>

lemma attempt_takes_free_path:
  assumes "attempt_path path inp s = (ok, ops, t)"
  shows "(RemoveFile p \<in> set ops \<longrightarrow> p = path \<and> ai_exists inp \<and> ai_connect inp = Refused \<and> length path < max_path) \<and>
    (BindPath p \<in> set ops \<longrightarrow> p = path \<and> length path < max_path \<and>
       (\<not> ai_exists inp \<or> ops = [RemoveFile path, BindPath path] \<and> \<not> ai_removeError inp)) \<and>
    (ok \<longleftrightarrow> length path < max_path \<and> \<not> ai_bindFails inp \<and>
       (ai_exists inp \<longrightarrow> \<not> ai_existsError inp \<and> ai_connect inp = Refused \<and> \<not> ai_removeError inp)) \<and>
    (ok \<longrightarrow> BindPath path \<in> set ops \<and> ss_path t = path \<and> aligned t \<and>
       (\<not> ss_isEmptyListener s \<longrightarrow> pf_fd (hd (ss_pollfds t)) = ai_socket inp)) \<and>
    (\<not> ok \<longrightarrow> ss_path t = ss_path s)"
  using assms
  by (auto simp: attempt_path_def probe_path_def recheck_aligned Let_def split: if_splits connect_answer.splits)
    (simp_all add: recheckPollFds_def poll_entry_of_def)

text \<open>C40. The server owns the file of its socket (safety). Opening a path succeeds exactly if the path fits a socket
  address, can be bound, and was free or stale - a connection to it was refused and it could
  be removed -; a file is only ever removed, or bound, under that path and on those
  conditions, so never one a live server listens on; the listener comes first in the array
  the new server polls; and its destructor removes the file it has bound and no other, as
  does the one of a failed attempt, which removes none.\<close>

theorem server_owns_its_file:
  assumes "server_open path inp wakeup = (r, ops)"
  shows "(r \<noteq> None \<longleftrightarrow> length path < max_path \<and> \<not> ai_bindFails inp \<and>
       (ai_exists inp \<longrightarrow> \<not> ai_existsError inp \<and> ai_connect inp = Refused \<and> \<not> ai_removeError inp)) \<and>
    (RemoveFile p \<in> set ops \<longrightarrow> p = path \<and> ai_exists inp \<and> ai_connect inp = Refused) \<and>
    (BindPath p \<in> set ops \<longrightarrow> p = path \<and> length path < max_path \<and>
       (\<not> ai_exists inp \<or> ops = [RemoveFile path, BindPath path] \<and> \<not> ai_removeError inp)) \<and>
    (\<forall>s. r = Some s \<longrightarrow> BindPath path \<in> set ops \<and> aligned s \<and> pf_fd (hd (ss_pollfds s)) = ai_socket inp \<and>
       fst (destroy_server s) = (if path = [] then [] else [RemoveFile path]))"
proof -
  obtain ok fs s where a: "attempt_path path inp (new_server_socket wakeup) = (ok, fs, s)"
    by (cases "attempt_path path inp (new_server_socket wakeup)")
  have new: "\<not> ss_isEmptyListener (new_server_socket wakeup)" "ss_path (new_server_socket wakeup) = []"
    by (simp_all add: new_server_socket_def)
  note facts = attempt_takes_free_path[OF a, of p]
  show ?thesis
  proof (cases ok)
    case True
    with a assms have "r = Some s" "ops = fs" by (simp_all add: server_open_def)
    with facts new True show ?thesis by (auto simp: destroy_server_def)
  next
    case False
    with facts new(2) have "ss_path s = []" by simp
    then have "r = None" "ops = fs" using a assms False by (auto simp: server_open_def destroy_server_def)
    with facts False show ?thesis by auto
  qed
qed

section \<open>Instances\<close>

definition example_server :: server_socket where
  "example_server = recheckPollFds
     \<lparr>ss_impls = example_impls, ss_fd = 3, ss_exportFd = - 1, ss_exitFd = - 1, ss_wakeupFd = 4, ss_pollfds = [],
      ss_clients = [new_server_client 5 True, new_server_client 6 True], ss_threadCanPoll = False,
      ss_pollEvent = False, ss_isEmptyListener = False, ss_path = ''/tmp/hw''\<rparr>"

text \<open>The second client sends a greeting, or hangs up its sending side, or is removed.\<close>

definition example_round :: "byte list \<Rightarrow> sock_op list \<Rightarrow> round_input" where
  "example_round data ops =
     \<lparr>ri_poll = (\<lambda>fd. (fd = 6, False)), ri_accept = (- 1, False), ri_read = (\<lambda>fd. Some (data, [])),
      ri_ops = (\<lambda>fd. ops)\<rparr>"

definition calm_round :: round_input where
  "calm_round = \<lparr>ri_poll = (\<lambda>fd. (False, False)), ri_accept = (- 1, False), ri_read = (\<lambda>fd. None), ri_ops = (\<lambda>fd. [])\<rparr>"

lemma example_server_aligned: "aligned example_server"
  by (simp add: example_server_def recheck_aligned)

lemma example_server_clients:
  "ss_clients example_server = [new_server_client 5 True, new_server_client 6 True]"
  "ss_impls example_server = example_impls" "ss_isEmptyListener example_server = False" "ss_fd example_server = 3"
  by (simp_all add: example_server_def recheckPollFds_def)

lemma calm_dispatch:
  "calm_round \<in> set [calm_round]"
  "server_dispatchEvents example_env False (\<lambda>_. (False, False)) [calm_round] example_server =
     Some (Inr ([], (poll_fds (\<lambda>fd. (False, False)) example_server)\<lparr>ss_pollEvent := False\<rparr>))"
proof -
  have "dispatchPending example_env [calm_round] example_server =
      Some (Inr (False, [], poll_fds (\<lambda>fd. (False, False)) example_server))"
    using calm_pending[of calm_round example_server example_env "[]"]
    by (simp add: calm_def calm_round_def example_server_def recheckPollFds_def)
  then show "server_dispatchEvents example_env False (\<lambda>_. (False, False)) [calm_round] example_server =
     Some (Inr ([], (poll_fds (\<lambda>fd. (False, False)) example_server)\<lparr>ss_pollEvent := False\<rparr>))"
    by (simp add: server_dispatchEvents_def pending_loop.simps)
qed simp

lemma new_client_dispatch:
  "dispatchClient example_env example_impls (Some (enc_Hello (), [])) (new_server_client fd True) =
     Some (Inr (client_sendMessage (enc_HandshakeBegin [HYPRWIRE_PROTOCOL_VER]) []
       (dispatchFirstPoll example_env example_impls (new_server_client fd True))))"
proof -
  let ?c = "new_server_client fd True"
  let ?t = "client_sendMessage (enc_HandshakeBegin [HYPRWIRE_PROTOCOL_VER]) [] (dispatchFirstPoll example_env example_impls ?c)"
  have "\<not> sc_error ?c" by (simp add: new_server_client_def)
  then have "serve example_env example_impls [CmHello] ?c = Inr ([], ?t)" by simp
  with server_loop_stream[of "[CmHello]" "enc_stream [CmHello]" 0 example_env example_impls ?c]
  have "server_handleMessage example_env example_impls (enc_Hello ()) [] ?c = Some (Inr (MESSAGE_PARSED_OK, ?t))"
    by (simp add: server_handleMessage_def vec_ok_def del: serve.simps)
  moreover have "sc_scheduledRoundtripSeq ?t = 0"
    by (simp add: client_sendMessage_def dispatchFirstPoll_def new_server_client_def example_env_def
        setProtocolFilter_def setupExposedProtocols_def Let_def)
  moreover have "enc_Hello () \<noteq> []" by (simp add: enc_Hello_def)
  ultimately show ?thesis by (simp add: dispatchClient_def)
qed

theorem all_connections_sound_witness:
  "\<exists>t. server_dispatchEvents example_env False (\<lambda>_. (False, False)) [calm_round] example_server = Some (Inr ([], t)) \<and>
     list_all (objects_ok (ss_impls t)) (ss_clients t) \<and> ss_impls t = ss_impls example_server"
proof -
  have "list_all (objects_ok (ss_impls example_server)) (ss_clients example_server)"
    by (simp add: example_server_clients new_client_ok)
  from all_connections_sound[OF _ this calm_dispatch(2)] calm_dispatch(2) example_env_ok
  show ?thesis by blast
qed

theorem poll_list_aligned_witness:
  "\<exists>t. server_dispatchEvents example_env False (\<lambda>_. (False, False)) [calm_round] example_server = Some (Inr ([], t)) \<and>
     aligned t"
  using poll_list_aligned[OF example_env_ok example_server_aligned calm_dispatch(2)] calm_dispatch(2) by blast

theorem round_serves_each_witness:
  "\<exists>t c. dispatchExistingConnections example_env (example_round (enc_Hello ()) [])
       (poll_fds (ri_poll (example_round (enc_Hello ()) [])) example_server) = Some (Inr (True, t)) \<and>
     ss_clients t = [new_server_client 5 True, c] \<and> sc_sent c = [(enc_HandshakeBegin [1], [])]"
proof -
  let ?inp = "example_round (enc_Hello ()) []"
  let ?f = "\<lambda>c. client_sendMessage (enc_HandshakeBegin [HYPRWIRE_PROTOCOL_VER]) [] (dispatchFirstPoll example_env example_impls c)"
  have runs: "round_runs example_env ?inp ?f example_server"
    by (simp add: round_runs_def example_server_clients new_client_dispatch)
      (simp add: example_round_def polled_def new_server_client_def new_client_dispatch[unfolded new_server_client_def])
  have c5: "\<not> polled ?inp (new_server_client 5 True)" "after_round ?inp ?f (new_server_client 5 True) = new_server_client 5 True"
    by (simp_all add: polled_def after_round_def example_round_def new_server_client_def)
  have c6: "polled ?inp (new_server_client 6 True)" "after_round ?inp ?f (new_server_client 6 True) = ?f (new_server_client 6 True)"
    by (simp_all add: polled_def after_round_def example_round_def new_server_client_def)
  have ok: "\<not> sc_error (?f (new_server_client 6 True))"
    "sc_sent (?f (new_server_client 6 True)) = [(enc_HandshakeBegin [1], [])]"
    by (simp_all add: client_sendMessage_def dispatchFirstPoll_def new_server_client_def example_env_def
        setProtocolFilter_def setupExposedProtocols_def Let_def HYPRWIRE_PROTOCOL_VER_def)
  from round_serves_each[OF runs example_server_aligned] c5 c6 ok show ?thesis
    by (simp add: example_server_clients Let_def)
qed

theorem removal_in_handler_throws_witness:
  "dispatchExistingConnections example_env (example_round (enc_Hello ()) [OpRemove 6])
     (poll_fds (ri_poll (example_round (enc_Hello ()) [OpRemove 6])) example_server) = Some (Inl OutOfRange)"
proof -
  let ?c = "new_server_client 6 True" and ?inp = "example_round (enc_Hello ()) [OpRemove 6]"
  let ?t = "client_sendMessage (enc_HandshakeBegin [HYPRWIRE_PROTOCOL_VER]) [] (dispatchFirstPoll example_env example_impls ?c)"
  have fd: "sc_fd ?c = 6" by (simp add: new_server_client_def)
  have "dispatchClient example_env (ss_impls example_server) (ri_read ?inp (sc_fd ?c)) ?c = Some (Inr ?t)"
    by (simp add: example_server_clients new_client_dispatch example_round_def)
  moreover have "sc_fd ?t = sc_fd ?c"
    using handle.keep_dispatchClient[OF example_env_ok refl new_client_dispatch] .
  moreover have "polled ?inp ?c" "ri_ops ?inp (sc_fd ?c) = [OpRemove (sc_fd ?c)]"
    "\<forall>d \<in> set [new_server_client 5 True]. \<not> polled ?inp d"
    by (simp_all add: polled_def example_round_def new_server_client_def)
  ultimately show ?thesis
    using removal_in_handler_throws[OF example_server_aligned, of "[new_server_client 5 True]" ?c ?inp example_env ?t]
    by (simp add: example_server_clients)
qed

theorem half_closed_client_spins_witness:
  "server_dispatchEvents example_env False (\<lambda>_. (False, False)) [example_round [] [], example_round [] []] example_server = None"
proof -
  have "half_closed_round example_server (example_round [] [])"
    by (simp add: half_closed_round_def example_server_clients polled_def example_round_def new_server_client_def)
  then show ?thesis
    using half_closed_client_spins[OF example_server_aligned,
      of "[example_round [] [], example_round [] []]" example_env False "\<lambda>_. (False, False)"] by simp
qed

theorem dispatch_ends_witness:
  "\<exists>r. server_dispatchEvents example_env False (\<lambda>_. (False, False)) [example_round (enc_Hello ()) [], calm_round]
     example_server = Some r"
proof -
  have "short_runs (enc_Hello ())" by (simp add: short_runs_def enc_Hello_def)
  then have "list_all ok_reads [example_round (enc_Hello ()) [], calm_round]"
    by (simp add: ok_reads_def example_round_def calm_round_def vec_ok_def)
  moreover have "calm calm_round" by (simp add: calm_def calm_round_def)
  ultimately show ?thesis by (intro dispatch_ends) simp_all
qed

theorem server_owns_its_file_witness:
  "(let inp = \<lparr>ai_exists = True, ai_existsError = False, ai_probe = 7, ai_connect = Refused, ai_removeError = False,
      ai_socket = 3, ai_bindFails = False\<rparr>
    in \<exists>s. server_open ''/tmp/hw'' inp 4 = (Some s, [RemoveFile ''/tmp/hw'', BindPath ''/tmp/hw'']) \<and> aligned s \<and>
         fst (destroy_server s) = [RemoveFile ''/tmp/hw''])"
proof -
  let ?inp = "\<lparr>ai_exists = True, ai_existsError = False, ai_probe = 7, ai_connect = Refused, ai_removeError = False,
      ai_socket = 3, ai_bindFails = False\<rparr>"
  obtain s where s: "server_open ''/tmp/hw'' ?inp 4 = (Some s, [RemoveFile ''/tmp/hw'', BindPath ''/tmp/hw''])"
    by (simp add: server_open_def attempt_path_def probe_path_def max_path_def)
  then show ?thesis using server_owns_its_file[OF s] by (simp add: Let_def)
qed

end
