(* ===== verification/Wire_Format.thy ===== *)
theory Wire_Format
  imports Server_Safety
begin

text \<open>
  What the wire format guarantees by itself: the variable-length quantities against their
  reference, the bounds a receiver may rely on, that a byte stream and its descriptors
  determine the messages they carry, and the quantity on which the generic parser hangs.
\<close>

section \<open>Variable-length quantities\<close>

text \<open>C36. The encoder is the base-128 encoding, least significant group first, of the low 28
  bits of its argument: lengths of 2^28 and more are truncated silently.\<close>

theorem encoder_is_vlq: "encodeVarInt n = vlq (n mod 2 ^ 28)"
  by (rule encodeVarInt_vlq)

text \<open>A length below 2^28, encoded anywhere in a buffer, is read back exactly, with the
  number of bytes it occupies, at most four.\<close>

theorem varint_roundtrip:
  assumes "n < 2 ^ 28"
  shows "parseVarInt (pre @ encodeVarInt n @ post) (length pre) = Inr (n, length (encodeVarInt n)) \<and>
    0 < length (encodeVarInt n) \<and> length (encodeVarInt n) \<le> 4"
  using parse_encode[OF stands_mid assms] length_encodeVarInt by blast

text \<open>Whatever the bytes, a quantity that is read lies inside the buffer and has at most
  five groups, its value fits \<^verbatim>\<open>size_t\<close>, and with at most four groups it is below 2^28;
  past the end of the buffer it is zero without bytes.\<close>

theorem varint_bounds:
  assumes "parseVarInt data off = Inr (v, l)"
  shows "l \<le> 5 \<and> v < 2 ^ 64 \<and> (l \<le> 4 \<longrightarrow> v < 2 ^ 28) \<and>
    (if off < length data then 0 < l \<and> off + l \<le> length data else v = 0 \<and> l = 0)"
proof (cases "off < length data")
  case True
  then have "parseVarInt_span data off (length data - off) = Inr (v, l)"
    using assms by (simp add: parseVarInt_def split: if_splits)
  with True parse_extent[OF assms] parse_span_less parse_span_value show ?thesis by fastforce
next
  case False
  with assms show ?thesis by (simp add: parseVarInt_def)
qed

section \<open>A read that never ends\<close>

text \<open>
  A call whose only argument is a string of length \<open>- 6\<close>: the fifth group of the quantity
  is shifted into the sign of an \<^verbatim>\<open>int\<close>.
\<close>

definition endless_call :: "u32 \<Rightarrow> u32 \<Rightarrow> byte list" where
  "endless_call oid mid =
     [type_code MSG_GENERIC_PROTOCOL_MESSAGE, magic_code TYPE_OBJECT] @ u32_bytes oid @
     [magic_code TYPE_UINT] @ u32_bytes mid @ [magic_code TYPE_VARCHAR, 0xFA, 0xFF, 0xFF, 0xFF, 0x7F]"

lemma endless_scan:
  assumes st: "stands data off (endless_call oid mid)" and v: "vec_ok data"
  shows "parse_Generic data fds off = None"
proof -
  let ?head = "[type_code MSG_GENERIC_PROTOCOL_MESSAGE, magic_code TYPE_OBJECT] @ u32_bytes oid @
     [magic_code TYPE_UINT] @ u32_bytes mid"
  have len: "off + 17 \<le> length data" using stands_length[OF st] by (simp add: endless_call_def)
  have parts: "stands data off ?head" "stands data (off + 11) [magic_code TYPE_VARCHAR]"
    "stands data (off + 12) [0xFA, 0xFF, 0xFF, 0xFF, 0x7F]"
    using st by (simp_all add: endless_call_def stands_Cons ac_simps)
  have head: "generic_head data off = Inr (oid, mid)"
    by (rule generic_head_stands[OF parts(1)])
  have at: "vec_at data (sadd off 11) = Inr (magic_code TYPE_VARCHAR)"
    using parts(2) len vec_okD[OF v] by (simp add: size_simps stands_Cons vec_at_less)
  have "parseVarInt data (sadd (sadd off 11) 1) = Inr (18446744073709551610, 5)"
    using parse_negative(1)[OF parts(3)] len vec_okD[OF v] by (simp add: size_simps add.commute[of off])
  then have "scan_arg data off 11 (magic_code TYPE_VARCHAR) fds [] = Inr (11, fds, [])"
    by (simp add: scan_arg_def sadd_def)
  then have "generic_scan data off 11 fds [] = None"
    using generic_scan_stuck[OF at] by simp
  with head show ?thesis by (simp add: parse_Generic_def)
qed

text \<open>C34. Seventeen bytes from a client hang the server: for every object and method id, a
  read that begins with such a call is never finished, whatever follows it.\<close>

theorem endless_read:
  assumes "\<not> sc_error s" and "vec_ok (endless_call oid mid @ post)"
  shows "server_handleMessage env impls (endless_call oid mid @ post) fds s = None"
proof -
  let ?data = "endless_call oid mid @ post"
  have "parse_Generic ?data fds 0 = None"
    using endless_scan[OF stands_prefix assms(2)] by simp
  moreover have "?data ! 0 = type_code MSG_GENERIC_PROTOCOL_MESSAGE" "?data \<noteq> []"
    by (simp_all add: endless_call_def)
  ultimately show ?thesis
    using assms(1) unfolding server_handleMessage_def
    by (subst server_loop.simps) (simp add: server_parseSingle_def vec_at_less)
qed

section \<open>Negative lengths that are noticed, or not\<close>

definition negative_bind :: "u32 \<Rightarrow> byte list" where
  "negative_bind seq =
     [type_code MSG_BIND_PROTOCOL, magic_code TYPE_UINT] @ u32_bytes seq @
     [magic_code TYPE_VARCHAR, 0xFA, 0xFF, 0xFF, 0xFF, 0x7F]"

lemma negative_bind_throws:
  assumes "stands data off (negative_bind seq)" and "off + 12 < length data"
  shows "parse_BindProtocol data off = Inl LengthError"
proof -
  have "stands data (off + 7) [0xFA, 0xFF, 0xFF, 0xFF, 0x7F]" "stands data off [type_code MSG_BIND_PROTOCOL, magic_code TYPE_UINT]"
    "stands data (off + 2) (u32_bytes seq)" "stands data (off + 6) [magic_code TYPE_VARCHAR]"
    using assms(1) by (simp_all add: negative_bind_def stands_Cons ac_simps)
  then show ?thesis
    using parse_negative(1)[of data "off + 7"] at_u32_stands[of data "off + 2" "u32_bytes seq" 0] assms(2)
    by (simp add: parse_BindProtocol_def Let_def stands_Cons vec_at_eq_Inr copy_string_def ac_simps)
qed

text \<open>C23. Thirteen bytes from a client throw through the server (error). After any messages the server has
  handled, a bind request whose name has the length \<open>- 6\<close>, with at least one more byte after
  it, makes the constructor of the name throw \<^verbatim>\<open>std::length_error\<close>; the parser only catches
  \<^verbatim>\<open>std::out_of_range\<close>, so the exception leaves the dispatch.\<close>

theorem bind_length_throws:
  assumes "list_all ok_client_msg ms" and "serve env impls ms s = Inr ([], u)" and "\<not> sc_error u"
    and "vec_ok (enc_stream ms @ negative_bind seq @ b # post)"
  shows "dispatchClient env impls (Some (enc_stream ms @ negative_bind seq @ b # post, stream_fds ms @ fds)) s =
    Some (Inl LengthError)"
proof -
  let ?data = "enc_stream ms @ negative_bind seq @ b # post" and ?n = "length (enc_stream ms)"
  have len: "length (negative_bind seq) = 12" by (simp add: negative_bind_def)
  have st: "stands ?data ?n (negative_bind seq)" by (simp add: stands_def)
  have hd: "negative_bind seq ! 0 = type_code MSG_BIND_PROTOCOL" by (simp add: negative_bind_def)
  have at: "vec_at ?data ?n = Inr (type_code MSG_BIND_PROTOCOL)"
    using len by (simp add: vec_at_def nth_append hd[simplified])
  have parse: "parse_BindProtocol ?data ?n = Inl LengthError"
    using negative_bind_throws[OF st] len by simp
  have "server_parseSingle env impls ?data ?n fds u = Some (Inl LengthError)"
    using parse by (simp add: server_parseSingle_def at parsed_def)
  then have "server_loop env impls ?data ?n fds u = Some (Inl LengthError)"
    using assms(3) len by (subst server_loop.simps) simp
  moreover have "stands ?data 0 (enc_stream ms)" by (simp add: stands_def)
  ultimately have "server_handleMessage env impls ?data (stream_fds ms @ fds) s = Some (Inl LengthError)"
    using server_loop_steps[OF assms(1) _ assms(4,2), of 0 fds] by (simp add: server_handleMessage_def)
  then show ?thesis by (simp add: dispatchClient_def)
qed

text \<open>
  A call with the arguments \<open>7\<close> and a string of length \<open>- 7\<close>: the cursor of the parser steps
  back onto the last byte of the first argument, which is zero, and takes it for the end of
  the message.
\<close>

definition misread_call :: "u32 \<Rightarrow> u32 \<Rightarrow> byte list" where
  "misread_call oid mid =
     [type_code MSG_GENERIC_PROTOCOL_MESSAGE, magic_code TYPE_OBJECT] @ u32_bytes oid @
     [magic_code TYPE_UINT] @ u32_bytes mid @ [magic_code TYPE_UINT, 7, 0, 0, 0] @
     [magic_code TYPE_VARCHAR, 0xF9, 0xFF, 0xFF, 0xFF, 0x7F]"

lemma misread_parse:
  "parse_Generic (misread_call oid mid) fds 0 =
     Some (Inr (\<lparr>gm_object = oid, gm_method = mid, gm_data = [magic_code TYPE_UINT, 7, 0, 0, 0], gm_fds = []\<rparr>, 16, fds))"
proof -
  let ?d = "misread_call oid mid"
  have self: "stands ?d 0 ?d" by (rule stands_self)
  have head: "generic_head ?d 0 = Inr (oid, mid)"
    using self by (intro generic_head_stands) (simp add: misread_call_def stands_Cons)
  have bytes: "?d ! 11 = 0x10" "?d ! 15 = 0" "?d ! 16 = 0x20" "length ?d = 22"
    "take 5 (drop 11 ?d) = [magic_code TYPE_UINT, 7, 0, 0, 0]" "stands ?d 17 [0xF9, 0xFF, 0xFF, 0xFF, 0x7F]"
    by (simp_all add: misread_call_def u32_bytes_def stands_def)
  have one: "scan_arg ?d 0 11 0x10 fds [] = Inr (16, fds, [])"
    by (simp add: scan_arg_def sadd_def)
  have two: "scan_arg ?d 0 16 0x20 fds [] = Inr (15, fds, [])"
    using parse_negative(2)[OF bytes(6)] by (simp add: scan_arg_def sadd_def)
  have "generic_scan ?d 0 11 fds [] = generic_scan ?d 0 16 fds []"
    using bytes one by (subst generic_scan.simps) (simp add: sadd_def)
  also have "\<dots> = generic_scan ?d 0 15 fds []"
    using bytes two by (subst generic_scan.simps) (simp add: sadd_def)
  also have "\<dots> = Some (Inr (15, fds, []))"
    using bytes by (subst generic_scan.simps) (simp add: sadd_def)
  finally show ?thesis
    using head bytes by (simp add: parse_Generic_def sadd_def ssub_def mem_range_def)
qed

definition two_uints :: spec_method where
  "two_uints = \<lparr>m_idx = 0, m_params = [0x10, 0x10], m_returnsType = [], m_since = 1, m_isDestructor = False\<rparr>"

text \<open>
  Without the condition on continuation bytes an accepted message is not safe to demarshal:
  the parser takes the misread call, with one argument left of it, and the check of a method
  of two parameters looks at a byte past the end of it.
\<close>

theorem negative_length_overread:
  "\<exists>m. parse_Generic (misread_call oid 0) fds 0 = Some (Inr (m, 16, fds)) \<and>
     called prep example_object [two_uints] (gm_method m) (gm_data m) (gm_fds m) = Inl Undefined"
proof -
  have "called prep example_object [two_uints] 0 [0x10, 7, 0, 0, 0] [] = Inl Undefined"
    by (simp add: called_def example_object_def two_uints_def wire_params_def sadd_def Let_def)
  then show ?thesis using misread_parse by simp
qed

section \<open>Streams are unambiguous\<close>

lemma encodeVarInt_prefix:
  assumes "encodeVarInt n @ xs = encodeVarInt m @ ys" and "n < 2 ^ 28" and "m < 2 ^ 28"
  shows "n = m \<and> xs = ys"
proof -
  have "parseVarInt (encodeVarInt n @ xs) 0 = Inr (n, length (encodeVarInt n))"
    by (rule parse_encode[OF stands_prefix assms(2)])
  moreover have "parseVarInt (encodeVarInt m @ ys) 0 = Inr (m, length (encodeVarInt m))"
    by (rule parse_encode[OF stands_prefix assms(3)])
  ultimately show ?thesis using assms(1) by simp
qed

lemma enc_bytes_prefix:
  assumes "enc_bytes s @ xs = enc_bytes t @ ys" and "length s < 2 ^ 28" and "length t < 2 ^ 28"
  shows "s = t \<and> xs = ys"
  using encodeVarInt_prefix[of "length s" "s @ xs" "length t" "t @ ys"] assms by (auto simp: enc_bytes_def append_eq_append_conv)

lemma u32_bytes_inject [simp]: "u32_bytes v = u32_bytes w \<longleftrightarrow> v = w"
  by (metis bytes_u32_u32_bytes)

lemma u32s_prefix:
  "length vs = length ws \<Longrightarrow> concat (map u32_bytes vs) @ xs = concat (map u32_bytes ws) @ ys \<Longrightarrow> vs = ws \<and> xs = ys"
  by (induction vs ws rule: list_induct2) auto

lemma strings_prefix:
  "length ss = length ts \<Longrightarrow> concat (map enc_bytes ss) @ xs = concat (map enc_bytes ts) @ ys \<Longrightarrow>
     \<forall>s \<in> set ss. length s < 2 ^ 28 \<Longrightarrow> \<forall>t \<in> set ts. length t < 2 ^ 28 \<Longrightarrow> ss = ts \<and> xs = ys"
proof (induction ss ts rule: list_induct2)
  case (Cons s ss t ts)
  with enc_bytes_prefix[of s "concat (map enc_bytes ss) @ xs" t "concat (map enc_bytes ts) @ ys"]
  show ?case by simp
qed simp

text \<open>One argument is determined by its bytes and the descriptors it took.\<close>

lemma wire_arg_prefix:
  assumes "wire_ok a" "wire_ok b" "wire_bytes a @ xs = wire_bytes b @ ys" "wire_fds a @ us = wire_fds b @ vs"
  shows "a = b \<and> xs = ys \<and> us = vs"
proof -
  have small: "n < array_limit \<Longrightarrow> n < 2 ^ 28" for n by (simp add: array_limit_def)
  show ?thesis
  proof (cases a; cases b)
    fix s t assume "a = WStr s" "b = WStr t"
    with assms enc_bytes_prefix[of s xs t ys] show ?thesis by simp
  next
    fix m vs' m' ws assume "a = WArrPrim m vs'" "b = WArrPrim m' ws"
    with assms encodeVarInt_prefix[of "length vs'" "concat (map u32_bytes vs') @ xs" "length ws"
        "concat (map u32_bytes ws) @ ys"] u32s_prefix[of vs' ws xs ys] small
    show ?thesis by (simp del: append_eq_append_conv)
  next
    fix ss ts assume "a = WArrStr ss" "b = WArrStr ts"
    with assms encodeVarInt_prefix[of "length ss" "concat (map enc_bytes ss) @ xs" "length ts"
        "concat (map enc_bytes ts) @ ys"] strings_prefix[of ss ts xs ys] small
    show ?thesis by simp
  next
    fix fs gs assume "a = WArrFd fs" "b = WArrFd gs"
    with assms encodeVarInt_prefix[of "length fs" xs "length gs" ys] small show ?thesis by simp
  qed (use assms in auto)
qed

lemma wire_args_prefix:
  "list_all wire_ok as \<Longrightarrow> list_all wire_ok bs \<Longrightarrow> wire_args as @ 0 # xs = wire_args bs @ 0 # ys \<Longrightarrow>
     wire_args_fds as @ us = wire_args_fds bs @ vs \<Longrightarrow> as = bs \<and> xs = ys \<and> us = vs"
proof (induction as arbitrary: bs)
  case Nil
  show ?case
  proof (cases bs)
    case (Cons b bs')
    with Nil hd_wire_bytes[of b] wire_bytes_nonempty[of b] show ?thesis
      by (cases "wire_bytes b") auto
  qed (use Nil in simp)
next
  case (Cons a as)
  show ?case
  proof (cases bs)
    case Nil
    with Cons.prems hd_wire_bytes[of a] wire_bytes_nonempty[of a] show ?thesis
      by (cases "wire_bytes a") auto
  next
    case (Cons b bs')
    with Cons.prems have "a = b \<and> wire_args as @ 0 # xs = wire_args bs' @ 0 # ys \<and>
        wire_args_fds as @ us = wire_args_fds bs' @ vs"
      by (intro wire_arg_prefix) simp_all
    with Cons.IH[of bs'] Cons Cons.prems show ?thesis by simp
  qed
qed

lemma client_msg_prefix:
  assumes "ok_client_msg m" "ok_client_msg m'" "enc_client_msg m @ xs = enc_client_msg m' @ ys"
    "client_msg_fds m @ us = client_msg_fds m' @ vs" and v: "vec_ok (enc_client_msg m @ xs)"
  shows "m = m' \<and> xs = ys \<and> us = vs"
proof -
  have "type_of_byte (hd (enc_client_msg m)) = type_of_byte (hd (enc_client_msg m'))"
    using assms(3) by (metis enc_client_msg_nonempty hd_append2)
  note type = this[unfolded hd_enc_client_msg]
  show ?thesis
  proof (cases m; cases m')
    fix w w' assume "m = CmAck w" "m' = CmAck w'"
    with assms handshake_ack.prefix_free[of w w' xs ys] show ?thesis by (simp add: ok_HandshakeAck_def)
  next
    fix b b' assume "m = CmBind b" "m' = CmBind b'"
    with assms bind_protocol_msg.prefix_free[of b b' xs ys] show ?thesis by simp
  next
    fix w w' assume "m = CmRoundtrip w" "m' = CmRoundtrip w'"
    with assms roundtrip_request.prefix_free[of w w' xs ys] show ?thesis by (simp add: ok_RoundtripRequest_def)
  next
    fix o1 m1 a1 o2 m2 a2 assume "m = CmCall o1 m1 a1" "m' = CmCall o2 m2 a2"
    with assms wire_args_prefix[of a1 a2 xs ys us vs] show ?thesis by (simp add: enc_Generic_def)
  qed (use type assms in auto)
qed

text \<open>C35. The bytes of a read and the descriptors that came with it determine the messages: two
  sequences of client messages with the same encoding are the same, so the stream needs no
  framing and no lengths of messages.\<close>

theorem stream_unambiguous:
  assumes "list_all ok_client_msg ms" and "list_all ok_client_msg ms'"
    and "enc_stream ms = enc_stream ms'" and "stream_fds ms = stream_fds ms'" and "vec_ok (enc_stream ms)"
  shows "ms = ms'"
  using assms
proof (induction ms arbitrary: ms')
  case Nil
  then show ?case by (cases ms') simp_all
next
  case (Cons m ms)
  have "enc_stream ms' \<noteq> []" unfolding Cons.prems(3)[symmetric] by simp
  then obtain m' ms'' where ms': "ms' = m' # ms''" by (cases ms') simp_all
  have "m = m' \<and> enc_stream ms = enc_stream ms'' \<and> stream_fds ms = stream_fds ms''"
  proof (rule client_msg_prefix)
    show "ok_client_msg m" "ok_client_msg m'" using Cons.prems(1,2) ms' by simp_all
    show "enc_client_msg m @ enc_stream ms = enc_client_msg m' @ enc_stream ms''" using Cons.prems(3) ms' by simp
    show "client_msg_fds m @ stream_fds ms = client_msg_fds m' @ stream_fds ms''" using Cons.prems(4) ms' by simp
    show "vec_ok (enc_client_msg m @ enc_stream ms)" using Cons.prems(5) by simp
  qed
  moreover have "vec_ok (enc_stream ms)" using Cons.prems(5) by (simp add: vec_ok_def)
  ultimately show ?case using Cons.IH[of ms''] Cons.prems(1,2) unfolding ms' by simp
qed

text \<open>The generic parser neither loses nor copies a descriptor: those of the message
  followed by those left are the queue it was given.\<close>

theorem descriptors_conserved:
  assumes "parse_Generic data fds off = Some (Inr (m, n, rest))"
  shows "gm_fds m @ rest = fds"
  using parse_Generic_conserve[OF assms] .

section \<open>Instances\<close>

theorem varint_roundtrip_witness: "parseVarInt ([7] @ encodeVarInt 300 @ [9]) (length [7 :: byte]) = Inr (300, 2)"
proof -
  have "encodeVarInt 300 = [0xAC, 2]" by (simp add: encodeVarInt_vlq vlq.simps cont_def)
  then show ?thesis using varint_roundtrip[of 300 "[7]" "[9]"] by simp
qed

theorem varint_bounds_witness: "(18446744073709551610 :: nat) < 2 ^ 64 \<and> 0 + 5 \<le> length [0xFA, 0xFF, 0xFF, 0xFF, 0x7F :: byte]"
  using varint_bounds[OF parse_negative(1)[OF stands_self]] by simp

theorem endless_read_witness:
  "server_handleMessage example_env example_impls (endless_call 1 0 @ [10]) [] (new_server_client 5 True) = None"
  by (rule endless_read) (simp_all add: new_server_client_def vec_ok_def endless_call_def)

theorem bind_length_throws_witness:
  "\<exists>u. serve example_env example_impls [CmHello, CmAck 1] (new_server_client 5 True) = Inr ([], u) \<and>
     dispatchClient example_env example_impls
       (Some (enc_stream [CmHello, CmAck 1] @ [10, 0x10, 1, 0, 0, 0, 0x20, 0xFA, 0xFF, 0xFF, 0xFF, 0x7F, 0], []))
       (new_server_client 5 True) = Some (Inl LengthError)"
proof -
  let ?s = "new_server_client 5 True"
  obtain u where u: "serve example_env example_impls [CmHello, CmAck 1] ?s = Inr ([], u)" "\<not> sc_error u"
    by (simp add: new_server_client_def dispatchFirstPoll_def setupExposedProtocols_def client_sendMessage_def
        example_env_def setProtocolFilter_def Let_def)
  then show ?thesis
    using bind_length_throws[OF _ u(1,2), of 1 0 "[]" "[]"]
    by (simp add: negative_bind_def u32_bytes_def vec_ok_def enc_Hello_def enc_HandshakeAck_def)
qed

theorem stream_unambiguous_witness:
  "[CmHello, CmCall 1 0 [WFd (2 + 2)]] = [CmHello] @ [CmCall 1 0 [WFd 4]]"
  by (rule stream_unambiguous) (simp_all add: vec_ok_def)

theorem descriptors_conserved_witness:
  "\<exists>m n rest. parse_Generic (enc_Generic 1 0 [WFd 4]) [4, 5] 0 = Some (Inr (m, n, rest)) \<and> gm_fds m @ rest = [4, 5]"
proof -
  have "parse_Generic (enc_Generic 1 0 [WFd 4]) ([4] @ [5]) 0 =
      Some (Inr (\<lparr>gm_object = 1, gm_method = 0, gm_data = wire_args [WFd 4] @ [0], gm_fds = [4]\<rparr>,
        length (enc_Generic 1 0 [WFd 4]), [5]))"
    using parse_Generic_stands[of "[WFd 4]" "enc_Generic 1 0 [WFd 4]" 0 1 0 "[5]"] by (simp add: vec_ok_def)
  from descriptors_conserved[OF this] this show ?thesis by auto
qed

end
