(* ===== verification/Scanner.thy ===== *)
theory Scanner
  imports Protocol_Spec
begin

text \<open>
  \<^verbatim>\<open>hyprwire-scanner\<close> (\<^verbatim>\<open>scanner/main.cpp\<close>): it reads a protocol from XML into a list of
  objects and enums, and prints the C++ headers and sources both ends compile. The XML
  library is a parameter: a document is the tree of its elements, and how an attribute is
  converted to a number or a truth value is a field of \<open>pugi\<close>.
\<close>

section \<open>Text\<close>

definition nl :: string where
  "nl = [CHR 0x0A]"

definition unlines :: "string list \<Rightarrow> string" where
  "unlines ls = concat (map (\<lambda>l. l @ nl) (butlast ls)) @ (if ls = [] then [] else last ls)"

text \<open>\<^verbatim>\<open>std::format\<close> with \<^verbatim>\<open>{}\<close> fields and the two escaped braces.\<close>

fun fmt :: "string \<Rightarrow> string list \<Rightarrow> string" where
  "fmt [] as = []"
| "fmt [c] as = [c]"
| "fmt (c # d # cs) as =
     (if c = CHR ''{'' \<and> d = CHR ''{'' then CHR ''{'' # fmt cs as
      else if c = CHR ''}'' \<and> d = CHR ''}'' then CHR ''}'' # fmt cs as
      else if c = CHR ''{'' \<and> d = CHR ''}'' then (case as of [] \<Rightarrow> [] | a # as' \<Rightarrow> a @ fmt cs as')
      else c # fmt (d # cs) as)"

text \<open>\<^verbatim>\<open>str.substr(0, str.size() - 2)\<close>.\<close>

definition drop2 :: "string \<Rightarrow> string" where
  "drop2 s = take (length s - 2) s"

definition toupper :: "char \<Rightarrow> char" where
  "toupper c = (if 97 \<le> (of_char c :: nat) \<and> (of_char c :: nat) \<le> 122 then char_of ((of_char c :: nat) - 32) else c)"

text \<open>The flag says that the position is the first one, where an underscore is kept.\<close>

fun camel_from :: "bool \<Rightarrow> string \<Rightarrow> string" where
  "camel_from first [] = []"
| "camel_from first [c] = [c]"
| "camel_from first (c # d # cs) =
     (if c = CHR ''_'' \<and> \<not> first \<and> d \<noteq> CHR ''_'' then toupper d # camel_from False cs
      else c # camel_from False (d # cs))"

definition camelize :: "string \<Rightarrow> string" where
  "camelize snake = camel_from True snake"

definition capitalize :: "string \<Rightarrow> string" where
  "capitalize str = (case str of [] \<Rightarrow> [] | c # cs \<Rightarrow> toupper c # cs)"

definition uppercase :: "string \<Rightarrow> string" where
  "uppercase str = map toupper str"

section \<open>Data\<close>

record request_argument =
  ra_magic :: message_magic
  ra_arrType :: message_magic
  ra_interface :: string
  ra_name :: string
  ra_allowNull :: bool
  ra_isEnum :: bool

record method_spec =
  ms_args :: "request_argument list"
  ms_name :: string
  ms_since :: u32
  ms_returns :: string
  ms_destructor :: bool
  ms_idx :: u32

record scan_object =
  so_s2c :: "method_spec list"
  so_c2s :: "method_spec list"
  so_name :: string
  so_nameCamel :: string
  so_version :: int

record scan_enum =
  se_interface :: string
  se_nameCamel :: string
  se_entries :: "(u32 \<times> string) list"

record proto_data =
  pd_name :: string
  pd_nameOriginal :: string
  pd_fileName :: string
  pd_version :: u32

section \<open>Types of arguments\<close>

definition strToMagic :: "string \<Rightarrow> message_magic" where
  "strToMagic sv =
     (if sv = ''varchar'' then TYPE_VARCHAR
      else if sv = ''uint'' then TYPE_UINT
      else if sv = ''enum'' then TYPE_UINT
      else if sv = ''int'' then TYPE_INT
      else if sv = ''f32'' then TYPE_F32
      else if sv = ''fd'' then TYPE_FD
      else if take 6 sv = ''array '' then TYPE_ARRAY
      else MAGIC_END)"

text \<open>\<^verbatim>\<open>magicToString\<close> without and with its second argument.\<close>

fun elemToString :: "message_magic \<Rightarrow> string" where
  "elemToString TYPE_VARCHAR = ''Hyprwire::HW_MESSAGE_MAGIC_TYPE_VARCHAR''"
| "elemToString TYPE_UINT = ''Hyprwire::HW_MESSAGE_MAGIC_TYPE_UINT''"
| "elemToString TYPE_INT = ''Hyprwire::HW_MESSAGE_MAGIC_TYPE_INT''"
| "elemToString TYPE_F32 = ''Hyprwire::HW_MESSAGE_MAGIC_TYPE_F32''"
| "elemToString TYPE_FD = ''Hyprwire::HW_MESSAGE_MAGIC_TYPE_FD''"
| "elemToString TYPE_ARRAY = ''Hyprwire::HW_MESSAGE_MAGIC_TYPE_ARRAY, ''"
| "elemToString _ = []"

definition typeToString :: "message_magic \<Rightarrow> message_magic \<Rightarrow> string" where
  "typeToString m arrType =
     (if m = TYPE_ARRAY then ''Hyprwire::HW_MESSAGE_MAGIC_TYPE_ARRAY, '' @ elemToString arrType else elemToString m)"

fun elemToC :: "message_magic \<Rightarrow> string" where
  "elemToC TYPE_VARCHAR = ''const char*''"
| "elemToC TYPE_UINT = ''uint32_t''"
| "elemToC TYPE_INT = ''int32_t''"
| "elemToC TYPE_F32 = ''float''"
| "elemToC TYPE_FD = ''int''"
| "elemToC _ = []"

definition argToC :: "proto_data \<Rightarrow> request_argument \<Rightarrow> string" where
  "argToC pd arg =
     (case ra_magic arg of
        TYPE_VARCHAR \<Rightarrow> ''const char*''
      | TYPE_UINT \<Rightarrow>
          if \<not> ra_isEnum arg then ''uint32_t''
          else camelize (pd_nameOriginal pd @ ''_'' @ ra_interface arg)
      | TYPE_INT \<Rightarrow> ''int32_t''
      | TYPE_F32 \<Rightarrow> ''float''
      | TYPE_FD \<Rightarrow> ''int''
      | TYPE_ARRAY \<Rightarrow> ''const std::vector<'' @ elemToC (ra_arrType arg) @ ''>&''
      | _ \<Rightarrow> [])"

text \<open>
  \<^verbatim>\<open>argsToC\<close>. The flags: without names, without types; plain C (an array is a pointer and a
  length), or from plain C (an array is made a vector again).
\<close>

definition arg_piece :: "proto_data \<Rightarrow> bool \<Rightarrow> bool \<Rightarrow> bool \<Rightarrow> bool \<Rightarrow> request_argument \<Rightarrow> string" where
  "arg_piece pd noNames noTypes pureC unC m =
     (if ra_arrType m \<noteq> MAGIC_END \<and> pureC then
        (if noTypes then fmt ''{}.data(), (uint32_t){}.size(), '' [ra_name m, ra_name m]
         else if noNames then fmt ''{}*, uint32_t, '' [elemToC (ra_arrType m)]
         else fmt ''{}* {}, uint32_t {}, '' [elemToC (ra_arrType m), ra_name m, ra_name m @ ''_len''])
      else if ra_arrType m \<noteq> MAGIC_END \<and> unC then
        (if noTypes then fmt ''std::vector<{}>{{ {}, {} + {} }}, ''
           [elemToC (ra_arrType m), ra_name m, ra_name m, ra_name m @ ''_len'']
         else if noNames then fmt ''{}, '' [argToC pd m]
         else fmt ''{} {}, '' [argToC pd m, ra_name m])
      else if noTypes then fmt ''{}, '' [ra_name m]
      else if noNames then fmt ''{}, '' [argToC pd m]
      else fmt ''{} {}, '' [argToC pd m, ra_name m])"

definition argsToC ::
  "proto_data \<Rightarrow> request_argument list \<Rightarrow> bool \<Rightarrow> bool \<Rightarrow> bool \<Rightarrow> bool \<Rightarrow> bool \<Rightarrow> string" where
  "argsToC pd args noNames noTypes addSequence pureC unC =
     (let seqStr = (if \<not> addSequence then [] else if noTypes then ''seq, ''
                    else if noNames then ''uint32_t, '' else ''uint32_t seq, '');
          cstr = seqStr @ concat (map (arg_piece pd noNames noTypes pureC unC) args)
      in if cstr \<noteq> [] then drop2 cstr else cstr)"

section \<open>Scanning\<close>

text \<open>
  An element with its name, its attributes, what \<^verbatim>\<open>child_value()\<close> reads from it and its
  children; a text node is one without name and attributes. A child that is not there is the
  null node, which has nothing.
\<close>

datatype xml = Xml (x_name: string) (x_attrs: "(string \<times> string) list") (x_value: string) (x_children: "xml list")

definition child :: "string \<Rightarrow> xml \<Rightarrow> xml" where
  "child name node = (case find (\<lambda>c. x_name c = name) (x_children node) of None \<Rightarrow> Xml [] [] [] [] | Some c \<Rightarrow> c)"

record pugi =
  pugi_int :: "string \<Rightarrow> int"
  pugi_bool :: "string \<Rightarrow> bool"

definition attr_string :: "string \<Rightarrow> xml \<Rightarrow> string" where
  "attr_string key node = (case map_of (x_attrs node) key of None \<Rightarrow> [] | Some v \<Rightarrow> v)"

definition attr_int :: "pugi \<Rightarrow> string \<Rightarrow> int \<Rightarrow> xml \<Rightarrow> int" where
  "attr_int pg key def node = (case map_of (x_attrs node) key of None \<Rightarrow> def | Some v \<Rightarrow> pugi_int pg v)"

definition attr_bool :: "pugi \<Rightarrow> string \<Rightarrow> xml \<Rightarrow> bool" where
  "attr_bool pg key node = (case map_of (x_attrs node) key of None \<Rightarrow> False | Some v \<Rightarrow> pugi_bool pg v)"

definition elem_type :: "string \<Rightarrow> message_magic" where
  "elem_type ty = (if strToMagic ty = TYPE_ARRAY then strToMagic (drop 6 ty) else MAGIC_END)"

text \<open>The arguments of a method from the server carry neither interface nor enum.\<close>

definition scan_arg_s2c :: "pugi \<Rightarrow> xml \<Rightarrow> request_argument" where
  "scan_arg_s2c pg param =
     \<lparr>ra_magic = strToMagic (attr_string ''type'' param), ra_arrType = elem_type (attr_string ''type'' param),
      ra_interface = [], ra_name = attr_string ''name'' param,
      ra_allowNull = attr_bool pg ''allow_null'' param, ra_isEnum = False\<rparr>"

definition scan_arg_c2s :: "pugi \<Rightarrow> xml \<Rightarrow> request_argument" where
  "scan_arg_c2s pg param =
     \<lparr>ra_magic = strToMagic (attr_string ''type'' param), ra_arrType = elem_type (attr_string ''type'' param),
      ra_interface = attr_string ''interface'' param, ra_name = attr_string ''name'' param,
      ra_allowNull = attr_bool pg ''allow_null'' param, ra_isEnum = (attr_string ''type'' param = ''enum'')\<rparr>"

fun scan_params :: "(xml \<Rightarrow> request_argument) \<Rightarrow> xml list \<Rightarrow> method_spec \<Rightarrow> method_spec" where
  "scan_params mk [] m = m"
| "scan_params mk (p # ps) m =
     (if x_name p = ''arg'' then scan_params mk ps (m\<lparr>ms_args := ms_args m @ [mk p]\<rparr>)
      else if x_name p = ''returns'' then scan_params mk ps (m\<lparr>ms_returns := attr_string ''iface'' p\<rparr>)
      else scan_params mk ps m)"

definition scan_method :: "pugi \<Rightarrow> (xml \<Rightarrow> request_argument) \<Rightarrow> u32 \<Rightarrow> xml \<Rightarrow> method_spec" where
  "scan_method pg mk idx m =
     scan_params mk (x_children m)
       \<lparr>ms_args = [], ms_name = attr_string ''name'' m, ms_since = of_int (attr_int pg ''since'' 0 m),
        ms_returns = [], ms_destructor = attr_bool pg ''destructor'' m, ms_idx = idx\<rparr>"

fun scan_methods ::
  "pugi \<Rightarrow> (xml \<Rightarrow> request_argument) \<Rightarrow> string \<Rightarrow> u32 \<Rightarrow> xml list \<Rightarrow> method_spec list" where
  "scan_methods pg mk tag currentIdx [] = []"
| "scan_methods pg mk tag currentIdx (m # ms) =
     (if x_name m \<noteq> tag then scan_methods pg mk tag currentIdx ms
      else scan_method pg mk currentIdx m # scan_methods pg mk tag (currentIdx + 1) ms)"

definition scan_one_object :: "pugi \<Rightarrow> xml \<Rightarrow> scan_object" where
  "scan_one_object pg object =
     \<lparr>so_s2c = scan_methods pg (scan_arg_s2c pg) ''s2c'' 0 (x_children object),
      so_c2s = scan_methods pg (scan_arg_c2s pg) ''c2s'' 0 (x_children object),
      so_name = attr_string ''name'' object, so_nameCamel = camelize (attr_string ''name'' object),
      so_version = attr_int pg ''version'' 0 object\<rparr>"

definition scan_one_enum :: "pugi \<Rightarrow> proto_data \<Rightarrow> xml \<Rightarrow> scan_enum" where
  "scan_one_enum pg pd object =
     (let interface = pd_nameOriginal pd @ ''_'' @ attr_string ''name'' object
      in \<lparr>se_interface = interface, se_nameCamel = camelize interface,
          se_entries = map (\<lambda>c. (of_int (attr_int pg ''idx'' 0 c), attr_string ''name'' c)) (x_children object)\<rparr>)"

definition scanProtocol :: "pugi \<Rightarrow> proto_data \<Rightarrow> xml \<Rightarrow> scan_enum list \<times> scan_object list" where
  "scanProtocol pg pd doc =
     (let root = child ''protocol'' doc
      in (map (scan_one_enum pg pd) (filter (\<lambda>c. x_name c = ''enum'') (x_children root)),
          map (scan_one_object pg) (filter (\<lambda>c. x_name c = ''object'') (x_children root))))"

text \<open>
  \<^verbatim>\<open>PROTO_DATA\<close>, as \<^verbatim>\<open>main\<close> fills it from the document and the path. Without a slash
  \<^verbatim>\<open>npos + 1\<close> is zero.
\<close>

definition base_name :: "string \<Rightarrow> string" where
  "base_name path = rev (takeWhile (\<lambda>c. c \<noteq> CHR ''/'') (rev path))"

definition proto_of :: "pugi \<Rightarrow> string \<Rightarrow> xml \<Rightarrow> proto_data" where
  "proto_of pg protopath doc =
     (let base = base_name protopath; root = child ''protocol'' doc
      in \<lparr>pd_name = camelize (attr_string ''name'' root), pd_nameOriginal = attr_string ''name'' root,
          pd_fileName = (if 4 \<le> length base then take (length base - 4) base else base),
          pd_version = of_int (attr_int pg ''version'' 1 root)\<rparr>)"

end
