(* ===== verification/Scanner_Code.thy ===== *)
theory Scanner_Code
  imports Scanner
begin

text \<open>
  The files \<^verbatim>\<open>hyprwire-scanner\<close> prints: the specification header both ends include, and the
  header and source of the client or of the server, in the order \<^verbatim>\<open>scanner/main.cpp\<close> appends
  their pieces, and \<^verbatim>\<open>main\<close> itself, over a parameter that stands for \<^verbatim>\<open>load_file\<close>.
\<close>

definition tab :: string where
  "tab = [CHR 0x09]"

section \<open>The specification header\<close>

definition enum_entry :: "scan_enum \<Rightarrow> u32 \<times> string \<Rightarrow> string" where
  "enum_entry e = (\<lambda>(id, name).
     fmt (tab @ ''{} = {},'' @ nl) [uppercase (se_interface e @ ''_'' @ name), dec_u32 id])"

definition enum_text :: "scan_enum \<Rightarrow> string" where
  "enum_text e =
     fmt (unlines [[], ''enum {} : uint32_t {{'', []])
       [se_nameCamel e] @ concat (map (enum_entry e) (se_entries e)) @ ''};'' @ nl"

text \<open>The table of methods: each parameter by the name of its enumerator.\<close>

definition params_text :: "request_argument list \<Rightarrow> string" where
  "params_text args =
     (let argArrayStr = concat (map (\<lambda>p. typeToString (ra_magic p) (ra_arrType p) @ '', '') args)
      in if argArrayStr \<noteq> [] then drop2 argArrayStr else argArrayStr)"

definition bool_text :: "bool \<Rightarrow> string" where
  "bool_text b = (if b then ''true'' else ''false'')"

definition c2s_entry :: "method_spec \<Rightarrow> string" where
  "c2s_entry m =
     fmt (unlines [[], ''Hyprwire::SMethod{{'', ''.idx = {},'', ''.params = {{ {} }},'',
       ''.returnsType = \"{}\",'', ''.since = {},'', ''.isDestructor = {},'', ''}},''])
       [dec_u32 (ms_idx m), params_text (ms_args m), ms_returns m, dec_u32 (ms_since m), bool_text (ms_destructor m)]"

definition s2c_entry :: "method_spec \<Rightarrow> string" where
  "s2c_entry m =
     fmt (unlines [[], ''Hyprwire::SMethod{{'', ''.idx = {},'', ''.params = {{ {} }},'', ''.since = {},'',
       ''.isDestructor = {},'', ''}},''])
       [dec_u32 (ms_idx m), params_text (ms_args m), dec_u32 (ms_since m), bool_text (ms_destructor m)]"

text \<open>\<^verbatim>\<open>pop_back\<close> removes the comma of the last entry.\<close>

definition table_text :: "(method_spec \<Rightarrow> string) \<Rightarrow> method_spec list \<Rightarrow> string" where
  "table_text entry ms = (let t = concat (map entry ms) in if ms \<noteq> [] then butlast t else t)"

definition spec_class :: "scan_object \<Rightarrow> string" where
  "spec_class object =
     fmt (unlines [[], ''class C{}Spec : public Hyprwire::IProtocolObjectSpec {{'', ''  public:'',
       ''    C{}Spec() = default;'', ''    virtual ~C{}Spec() = default;'', [],
       ''    virtual std::string objectName() {{'', ''        return \"{}\";'', ''    }}'', [],
       ''        ''])
       [capitalize (so_nameCamel object), capitalize (so_nameCamel object), capitalize (so_nameCamel object), so_name object] @
     nl @ tab @ ''std::vector<Hyprwire::SMethod>                m_c2s = {'' @
     table_text c2s_entry (so_c2s object) @
     unlines [[], ''    };'', [], ''    virtual const std::vector<Hyprwire::SMethod>& c2s() {'',
       ''        return m_c2s;'', ''    }'', []] @
     nl @ tab @ ''std::vector<Hyprwire::SMethod>                m_s2c = {'' @
     table_text s2c_entry (so_s2c object) @
     unlines [[], ''    };'', [], ''    virtual const std::vector<Hyprwire::SMethod>& s2c() {'',
       ''        return m_s2c;'', ''    }'', [], ''};'', []]"

definition protocol_class :: "proto_data \<Rightarrow> scan_object list \<Rightarrow> string" where
  "protocol_class pd objects =
     (let objectVecStr = concat (map (\<lambda>ob. fmt ''Hyprutils::Memory::makeShared<C{}Spec>(), '' [capitalize (so_nameCamel ob)]) objects)
      in fmt (unlines [[], ''class C{}ProtocolSpec : public Hyprwire::IProtocolSpec {{'', ''  public:'',
       ''    C{}ProtocolSpec()          = default;'',
       ''    virtual ~C{}ProtocolSpec() = default;'', [],
       ''    virtual std::string specName() {{'', ''        return \"{}\";'', ''    }}'', [],
       ''    virtual uint32_t specVer() {{'', ''        return {};'', ''    }}'', [],
       ''    virtual std::vector<Hyprutils::Memory::CSharedPointer<Hyprwire::IProtocolObjectSpec>> objects() {{'',
       ''        return {{ {} }};'', ''    }}'', ''}};'', []])
       [capitalize (pd_name pd), capitalize (pd_name pd), capitalize (pd_name pd), pd_nameOriginal pd,
        dec_u32 (pd_version pd), drop2 objectVecStr])"

definition generateProtocolHeader :: "proto_data \<Rightarrow> scan_enum list \<Rightarrow> scan_object list \<Rightarrow> string" where
  "generateProtocolHeader pd enums objects =
     unlines [[], ''#pragma once'', [], ''#include <hyprwire/core/types/MessageMagic.hpp>'',
       ''#include <hyprwire/hyprwire.hpp>'', ''#include <hyprutils/memory/WeakPtr.hpp>'',
       ''#include <vector>'', ''    ''] @
     concat (map enum_text enums) @ concat (map spec_class objects) @ protocol_class pd objects"

section \<open>The pieces both ends print\<close>

text \<open>
  A method, its C++ name with a capital, and \<open>CC\<dots>Object\<close> for the client, \<open>C\<dots>Object\<close> for
  the server. \<open>sq\<close> says that the method carries a sequence.
\<close>

definition method_name :: "method_spec \<Rightarrow> string" where
  "method_name m = capitalize (camelize (ms_name m))"

definition object_class :: "bool \<Rightarrow> scan_object \<Rightarrow> string" where
  "object_class client ob = fmt (if client then ''CC{}Object'' else ''C{}Object'') [capitalize (so_nameCamel ob)]"

text \<open>The function registered for a method: the plain C types on the outside, C++ ones inside.\<close>

definition handler_args :: "proto_data \<Rightarrow> bool \<Rightarrow> method_spec \<Rightarrow> string" where
  "handler_args pd sq m =
     (if ms_args m = [] \<and> \<not> sq then [] else '', '' @ argsToC pd (ms_args m) False False sq True False)"

definition handler_text :: "proto_data \<Rightarrow> bool \<Rightarrow> bool \<Rightarrow> scan_object \<Rightarrow> method_spec \<Rightarrow> string" where
  "handler_text pd client sq ob m =
     fmt (unlines [[], ''static void {}_method{}(Hyprwire::IObject* r{}) {{'',
       ''    auto& fn = rc<{}*>(r->getData())->m_listeners.{};'', ''    if (fn)'',
       ''        fn({});'', ''}}'', []])
       [so_nameCamel ob, dec_u32 (ms_idx m), handler_args pd sq m, object_class client ob, ms_name m,
        argsToC pd (ms_args m) False True sq False True]"

definition listen_text :: "scan_object \<Rightarrow> method_spec \<Rightarrow> string" where
  "listen_text ob m =
     fmt (unlines [[], ''    m_object->listen({}, rc<void*>(::{}_method{}));''])
       [dec_u32 (ms_idx m), so_nameCamel ob, dec_u32 (ms_idx m)]"

definition call_args :: "proto_data \<Rightarrow> method_spec \<Rightarrow> string" where
  "call_args pd m = (if ms_args m = [] then [] else '', '' @ argsToC pd (ms_args m) False True False True False)"

section \<open>The client\<close>

definition client_object_header :: "proto_data \<Rightarrow> scan_object \<Rightarrow> string" where
  "client_object_header pd ob =
     fmt (unlines [[], ''class CC{}Object {{'', ''  public:'',
       ''    CC{}Object(Hyprutils::Memory::CSharedPointer<Hyprwire::IObject>&& object);'',
       ''    ~CC{}Object();'', [],
       ''    Hyprutils::Memory::CSharedPointer<Hyprwire::IObject> getObject() {{'',
       ''        return m_object;'', ''    }}'', [], []])
       [capitalize (so_nameCamel ob), capitalize (so_nameCamel ob), capitalize (so_nameCamel ob)] @
     concat (map (\<lambda>m. fmt (unlines [[], ''    {} send{}({});'', ''            ''])
       [if ms_returns m = [] then ''void'' else ''Hyprutils::Memory::CSharedPointer<Hyprwire::IObject>'',
        method_name m, argsToC pd (ms_args m) False False False False False]) (so_c2s ob)) @
     concat (map (\<lambda>m. fmt (unlines [[], ''    void set{}(std::function<void({})>&& fn);'', ''            ''])
       [method_name m, argsToC pd (ms_args m) True False False False False]) (so_s2c ob)) @
     nl @ ''  private:'' @ nl @ tab @ ''struct {'' @ nl @
     concat (map (\<lambda>m. fmt (unlines ['' std::function<void({})> {};'', []])
       [argsToC pd (ms_args m) True False False False False, ms_name m]) (so_s2c ob)) @
     unlines ['' } m_listeners;'', ''        '',
       ''    Hyprutils::Memory::CSharedPointer<Hyprwire::IObject> m_object;'', ''};'', []]"

definition generateClientCodeHeader :: "proto_data \<Rightarrow> scan_object list \<Rightarrow> string" where
  "generateClientCodeHeader pd objects =
     fmt (unlines [[], ''#pragma once'', [], ''#include <functional>'', ''#include \"{}-spec.hpp\"'',
       ''    ''])
       [pd_nameOriginal pd] @
     concat (map (client_object_header pd) objects) @
     fmt (unlines [[], ''class CC{}Impl : public Hyprwire::IProtocolClientImplementation {{'', ''  public:'',
       ''    CC{}Impl(uint32_t version);'', ''    virtual ~CC{}Impl() = default;'', [],
       ''    virtual Hyprutils::Memory::CSharedPointer<Hyprwire::IProtocolSpec> protocol();'', [],
       ''    virtual std::vector<Hyprutils::Memory::CSharedPointer<Hyprwire::SClientObjectImplementation>> implementation();'',
       [], ''  private:'', ''    uint32_t m_version = 0;'', ''}};'', []])
       [capitalize (pd_name pd), capitalize (pd_name pd), capitalize (pd_name pd)]"

definition client_send_text :: "proto_data \<Rightarrow> scan_object \<Rightarrow> method_spec \<Rightarrow> string" where
  "client_send_text pd ob m =
     (if ms_returns m = [] then
        fmt (unlines [[], ''void CC{}Object::send{}({}) {{'', ''    m_object->call({}{});'', ''}}'', []])
          [capitalize (so_nameCamel ob), method_name m, argsToC pd (ms_args m) False False False False False,
           dec_u32 (ms_idx m), call_args pd m]
      else
        fmt (unlines [[], [], ''SP<Hyprwire::IObject> CC{}Object::send{}({}) {{'',
       ''    auto _seq = m_object->call({}{});'',
       ''    return m_object->clientSock()->objectForSeq(_seq);'', ''}}'', []])
          [capitalize (so_nameCamel ob), method_name m, argsToC pd (ms_args m) False False False False False,
           dec_u32 (ms_idx m), call_args pd m])"

definition client_object_source :: "proto_data \<Rightarrow> scan_object \<Rightarrow> string" where
  "client_object_source pd ob =
     concat (map (handler_text pd True False ob) (so_s2c ob)) @
     fmt (unlines [[],
       ''CC{}Object::CC{}Object(Hyprutils::Memory::CSharedPointer<Hyprwire::IObject>&& object) : m_object(std::move(object)) {{'',
       ''    m_object->setData(this);'', ''            ''])
       [capitalize (so_nameCamel ob), capitalize (so_nameCamel ob)] @
     concat (map (listen_text ob) (so_s2c ob)) @
     fmt (unlines [[], ''}}'', [], ''CC{}Object::~CC{}Object() {{'',
       ''    ; // TODO: call destructor if present'', ''}}''])
       [capitalize (so_nameCamel ob), capitalize (so_nameCamel ob)] @
     concat (map (client_send_text pd ob) (so_c2s ob)) @
     concat (map (\<lambda>m. fmt (unlines [[], ''void CC{}Object::set{}(std::function<void({})>&& fn) {{'',
       ''    m_listeners.{} = std::move(fn);'', ''}}'', []])
       [capitalize (so_nameCamel ob), method_name m, argsToC pd (ms_args m) True False False False False, ms_name m]) (so_s2c ob))"

definition generateClientCodeSource :: "proto_data \<Rightarrow> scan_object list \<Rightarrow> string" where
  "generateClientCodeSource pd objects =
     fmt (unlines [[], ''#define private public'', ''#include \"{}-client.hpp\"'', ''#undef private'', [],
       ''using namespace Hyprutils::Memory;'', ''#define SP CSharedPointer'', ''    ''])
       [pd_nameOriginal pd] @
     concat (map (client_object_source pd) objects) @
     fmt (unlines [[], ''CC{}Impl::CC{}Impl(uint32_t ver) : m_version(ver) {{'', ''    ;'', ''}}'', [],
       ''static auto {}Spec = makeShared<C{}ProtocolSpec>();'', [],
       ''SP<Hyprwire::IProtocolSpec> CC{}Impl::protocol() {{'', ''    return {}Spec;'', ''}}'',
       [],
       ''std::vector<SP<Hyprwire::SClientObjectImplementation>> CC{}Impl::implementation() {{'',
       ''    return {{'', []])
       [capitalize (pd_name pd), capitalize (pd_name pd), pd_name pd, capitalize (pd_name pd),
        capitalize (pd_name pd), pd_name pd, capitalize (pd_name pd)] @
     concat (map (\<lambda>ob. fmt (unlines [[],
       ''            makeShared<Hyprwire::SClientObjectImplementation>(Hyprwire::SClientObjectImplementation{{'',
       ''                .objectName = \"{}\",'', ''                .version    = m_version,'',
       ''            }}),'', []])
       [so_name ob]) objects) @
     ''};'' @ nl @ ''}'' @ nl"

section \<open>The server\<close>

definition server_object_header :: "proto_data \<Rightarrow> scan_object \<Rightarrow> string" where
  "server_object_header pd ob =
     fmt (unlines [[], ''class C{}Object {{'', ''  public:'',
       ''    C{}Object(Hyprutils::Memory::CSharedPointer<Hyprwire::IObject>&& object);'',
       ''    ~C{}Object();'', [],
       ''    Hyprutils::Memory::CSharedPointer<Hyprwire::IObject> getObject() {{'',
       ''        return m_object;'', ''    }}'', [],
       ''    void setOnDestroy(std::function<void()>&& fn) {{'',
       ''        m_object->setOnDestroy(std::move(fn));'', ''    }}'', [],
       ''    void error(uint32_t code, const std::string_view& sv) {{'',
       ''        m_object->error(code, sv);'', ''    }}'', [],
       ''    static const char* name() {{'', ''        return \"{}\";'', ''    }}'', []])
       [capitalize (so_nameCamel ob), capitalize (so_nameCamel ob), capitalize (so_nameCamel ob), so_name ob] @
     concat (map (\<lambda>m. fmt (unlines [[], ''    void send{}({});'', ''            ''])
       [method_name m, argsToC pd (ms_args m) False False False False False]) (so_s2c ob)) @
     concat (map (\<lambda>m. fmt (unlines [[], ''    void set{}(std::function<void({})>&& fn);'', ''            ''])
       [method_name m, argsToC pd (ms_args m) True False (ms_returns m \<noteq> []) False False]) (so_c2s ob)) @
     nl @ ''  private:'' @ nl @ tab @ ''struct {'' @ nl @
     concat (map (\<lambda>m. fmt (unlines ['' std::function<void({})> {};'', []])
       [argsToC pd (ms_args m) True False (ms_returns m \<noteq> []) False False, ms_name m]) (so_c2s ob)) @
     unlines ['' } m_listeners;'', ''        '',
       ''    Hyprutils::Memory::CSharedPointer<Hyprwire::IObject> m_object;'', ''};'', []]"

definition generateServerCodeHeader :: "proto_data \<Rightarrow> scan_object list \<Rightarrow> string" where
  "generateServerCodeHeader pd objects =
     fmt (unlines [[], ''#pragma once'', [], ''#include <functional>'', ''#include \"{}-spec.hpp\"'',
       ''    ''])
       [pd_nameOriginal pd] @
     concat (map (server_object_header pd) objects) @
     fmt (unlines [[], ''class C{}Impl : public Hyprwire::IProtocolServerImplementation {{'', ''  public:'',
       ''    C{}Impl(uint32_t version, std::function<void(Hyprutils::Memory::CSharedPointer<Hyprwire::IObject>)>&& bindFn);'',
       ''    virtual ~C{}Impl() = default;'', [],
       ''    virtual Hyprutils::Memory::CSharedPointer<Hyprwire::IProtocolSpec> protocol();'', [],
       ''    virtual std::vector<Hyprutils::Memory::CSharedPointer<Hyprwire::SServerObjectImplementation>> implementation();'',
       [], ''  private:'', ''    uint32_t m_version = 0;'',
       ''    std::function<void(Hyprutils::Memory::CSharedPointer<Hyprwire::IObject>)> m_bindFn;'',
       ''}};'', []])
       [capitalize (pd_name pd), capitalize (pd_name pd), capitalize (pd_name pd)]"

definition server_send_text :: "proto_data \<Rightarrow> scan_object \<Rightarrow> method_spec \<Rightarrow> string" where
  "server_send_text pd ob m =
     fmt (unlines [[], ''void C{}Object::send{}({}) {{'', ''    m_object->call({}{});'', ''}}'', []])
       [capitalize (so_nameCamel ob), method_name m, argsToC pd (ms_args m) False False False False False,
        dec_u32 (ms_idx m), call_args pd m]"

definition server_object_source :: "proto_data \<Rightarrow> scan_object \<Rightarrow> string" where
  "server_object_source pd ob =
     concat (map (\<lambda>m. handler_text pd False (ms_returns m \<noteq> []) ob m) (so_c2s ob)) @
     fmt (unlines [[],
       ''C{}Object::C{}Object(Hyprutils::Memory::CSharedPointer<Hyprwire::IObject>&& object) : m_object(std::move(object)) {{'',
       ''    m_object->setData(this);'', ''            ''])
       [capitalize (so_nameCamel ob), capitalize (so_nameCamel ob)] @
     concat (map (listen_text ob) (so_c2s ob)) @
     fmt (unlines [[], ''}}'', [], ''C{}Object::~C{}Object() {{'',
       ''    ; // TODO: call destructor if present'', ''}}''])
       [capitalize (so_nameCamel ob), capitalize (so_nameCamel ob)] @
     concat (map (server_send_text pd ob) (so_s2c ob)) @
     concat (map (\<lambda>m. fmt (unlines [[], ''void C{}Object::set{}(std::function<void({})>&& fn) {{'',
       ''    m_listeners.{} = std::move(fn);'', ''}}'', []])
       [capitalize (so_nameCamel ob), method_name m, argsToC pd (ms_args m) True False (ms_returns m \<noteq> []) False False,
        ms_name m]) (so_c2s ob))"

text \<open>Only the first object of a protocol is bound, so only it has the callback.\<close>

definition server_implementation :: "scan_object list \<Rightarrow> string" where
  "server_implementation objects =
     (case objects of
        [] \<Rightarrow> []
      | ob # os \<Rightarrow>
          fmt (unlines [[],
       ''            makeShared<Hyprwire::SServerObjectImplementation>(Hyprwire::SServerObjectImplementation{{'',
       ''                .objectName = \"{}\",'', ''                .version    = m_version,'',
       ''                .onBind = [this] (Hyprutils::Memory::CSharedPointer<Hyprwire::IObject> r) {{ if (m_bindFn) m_bindFn(r); }}'',
       ''            }}),'', []])
            [so_name ob] @
          concat (map (\<lambda>ob. fmt (unlines [[],
       ''            makeShared<Hyprwire::SServerObjectImplementation>(Hyprwire::SServerObjectImplementation{{'',
       ''                .objectName = \"{}\",'', ''                .version    = m_version,'',
       ''            }}),'', []])
            [so_name ob]) os))"

definition generateServerCodeSource :: "proto_data \<Rightarrow> scan_object list \<Rightarrow> string" where
  "generateServerCodeSource pd objects =
     fmt (unlines [[], ''#define private public'', ''#include \"{}-server.hpp\"'', ''#undef private'', [],
       ''using namespace Hyprutils::Memory;'', ''#define SP CSharedPointer'', ''    ''])
       [pd_nameOriginal pd] @
     concat (map (server_object_source pd) objects) @
     fmt (unlines [[],
       ''C{}Impl::C{}Impl(uint32_t ver, std::function<void(Hyprutils::Memory::CSharedPointer<Hyprwire::IObject>)>&& bindFn) : m_version(ver), m_bindFn(bindFn) {{'',
       ''    ;'', ''}}'', [], ''static auto {}Spec = makeShared<C{}ProtocolSpec>();'', [],
       ''SP<Hyprwire::IProtocolSpec> C{}Impl::protocol() {{'', ''    return {}Spec;'', ''}}'', [],
       ''std::vector<SP<Hyprwire::SServerObjectImplementation>> C{}Impl::implementation() {{'',
       ''    return {{'', []])
       [capitalize (pd_name pd), capitalize (pd_name pd), pd_name pd, capitalize (pd_name pd),
        capitalize (pd_name pd), pd_name pd, capitalize (pd_name pd)] @
     server_implementation objects @
     ''};'' @ nl @ ''}'' @ nl"

section \<open>The program\<close>

text \<open>
  The command line, read from left to right: \<open>CliExit\<close> is an exit code with what is printed.
  A run asks for the client's code or the server's, with the two paths.
\<close>

datatype cli = CliExit int string | CliRun bool string string

fun parse_cli :: "string \<Rightarrow> string list \<Rightarrow> bool \<Rightarrow> nat \<Rightarrow> string \<Rightarrow> string \<Rightarrow> cli" where
  "parse_cli ver [] clientCode pathsTaken protopath outpath =
     (if outpath = [] \<or> protopath = [] then CliExit 1 (''Not enough args'' @ nl)
      else CliRun clientCode protopath outpath)"
| "parse_cli ver (curarg # args) clientCode pathsTaken protopath outpath =
     (if curarg = ''-v'' \<or> curarg = ''--version'' then CliExit 0 (ver @ nl)
      else if curarg = ''-c'' \<or> curarg = ''--client'' then parse_cli ver args True pathsTaken protopath outpath
      else if pathsTaken = 0 then parse_cli ver args clientCode 1 curarg outpath
      else if pathsTaken = 1 then parse_cli ver args clientCode 2 protopath curarg
      else CliExit 1 (''Too many args or unknown arg '' @ curarg @ nl))"

text \<open>The notice on top of every file; the heart is its UTF-8 bytes.\<close>

definition copyright_text :: "string \<Rightarrow> proto_data \<Rightarrow> xml \<Rightarrow> string" where
  "copyright_text ver pd doc =
     fmt (''// Generated with hyprwire-scanner {}. Made with vaxry'' @ [CHR 0x27] @ ''s keyboard and '' @
          [CHR 0xE2, CHR 0x9D, CHR 0xA4, CHR 0xEF, CHR 0xB8, CHR 0x8F] @ ''.'' @ nl @ ''// {}'' @ nl @ nl @ ''/*'' @ nl @
          '' This protocol'' @ [CHR 0x27] @ ''s authors'' @ [CHR 0x27] @ '' copyright notice is:'' @ nl @ nl @ ''{}'' @ nl @ ''*/'' @ nl @ nl)
       [ver, pd_nameOriginal pd, x_value (child ''copyright'' (child ''protocol'' doc))]"

text \<open>The exit code, the output on the terminal, and the files written with their contents.\<close>

definition scanner_main ::
  "(string \<Rightarrow> string + xml) \<Rightarrow> pugi \<Rightarrow> string \<Rightarrow> string list \<Rightarrow> int \<times> string \<times> (string \<times> string) list" where
  "scanner_main load_file pg ver args =
     (case parse_cli ver args False 0 [] [] of
        CliExit code printed \<Rightarrow> (code, printed, [])
      | CliRun clientCode protopath outpath \<Rightarrow>
          (case load_file protopath of
             Inl descr \<Rightarrow> (1, ''Couldn'' @ [CHR 0x27] @ ''t load proto: '' @ descr @ nl, [])
           | Inr doc \<Rightarrow>
               let pd = proto_of pg protopath doc;
                   (enums, objects) = scanProtocol pg pd doc;
                   notice = copyright_text ver pd doc;
                   path = (\<lambda>suffix. outpath @ ''/'' @ pd_nameOriginal pd @ suffix)
               in (0, [],
                   [(path ''-spec.hpp'', notice @ generateProtocolHeader pd enums objects)] @
                   (if clientCode then
                      [(path ''-client.hpp'', notice @ generateClientCodeHeader pd objects),
                       (path ''-client.cpp'', notice @ generateClientCodeSource pd objects)]
                    else
                      [(path ''-server.hpp'', notice @ generateServerCodeHeader pd objects),
                       (path ''-server.cpp'', notice @ generateServerCodeSource pd objects)]))))"

end
