(* ===== verification/Scanner_Safety.thy ===== *)
theory Scanner_Safety
  imports Scanner_Code Client_Safety
begin

text \<open>
  What the generated code promises the library. The table of methods printed for an object
  is read back, as C++ reads an initializer, to the specification the object denotes; that
  specification has the properties the theorems on the two ends assume of generated code;
  and the functions the generated source registers take, one by one, the types the library
  passes when it calls them.
\<close>

section \<open>Words of a text\<close>

definition is_sep :: "char \<Rightarrow> bool" where
  "is_sep c \<longleftrightarrow> c = CHR '' '' \<or> c = CHR '','' \<or> c = CHR 0x0A \<or> c = CHR 0x09"

abbreviation is_word :: "string \<Rightarrow> bool" where
  "is_word \<equiv> list_all (\<lambda>c. \<not> is_sep c)"

fun words_from :: "string \<Rightarrow> string \<Rightarrow> string list" where
  "words_from w [] = (if w = [] then [] else [w])"
| "words_from w (c # cs) =
     (if is_sep c then (if w = [] then [] else [w]) @ words_from [] cs else words_from (w @ [c]) cs)"

lemmas is_sep_char [simp] = is_sep_def[of "Char b0 b1 b2 b3 b4 b5 b6 b7"] for b0 b1 b2 b3 b4 b5 b6 b7

lemma words_append [simp]: "is_sep c \<Longrightarrow> words_from w (s @ c # t) = words_from w s @ words_from [] t"
  by (induction s arbitrary: w) auto

lemma words_from_word: "is_word v \<Longrightarrow> words_from w (v @ t) = words_from (w @ v) t"
  by (induction v arbitrary: w) auto

lemma words_word: "is_word v \<Longrightarrow> words_from [] v = (if v = [] then [] else [v])"
  using words_from_word[of v "[]" "[]"] by simp

lemma words_concat:
  "(\<And>s. s \<in> set ss \<Longrightarrow> \<exists>r c. s = r @ [c] \<and> is_sep c) \<Longrightarrow>
     words_from [] (concat ss) = concat (map (words_from []) ss)"
proof (induction ss)
  case (Cons s ss)
  obtain r c where "s = r @ [c]" "is_sep c" using Cons.prems[of s] by auto
  moreover have "words_from [] (concat ss) = concat (map (words_from []) ss)"
    using Cons.prems by (intro Cons.IH) (simp_all)
  ultimately show ?case by simp
qed simp

lemma word_dec: "is_word (dec n)"
proof -
  have "is_digit c \<Longrightarrow> \<not> is_sep c" for c by (auto simp: is_digit_def is_sep_def)
  then show ?thesis using dec_digits[of n] by (auto simp: list_all_iff)
qed

lemma dec_u32_word [simp]: "is_word (dec_u32 v)" "dec_u32 v \<noteq> []" "read_dec 0 (dec_u32 v) = unat v"
  by (simp_all add: dec_u32_def word_dec)

section \<open>The specification an object denotes\<close>

fun elem_known :: "message_magic \<Rightarrow> bool" where
  "elem_known m \<longleftrightarrow> m = TYPE_UINT \<or> m = TYPE_INT \<or> m = TYPE_F32 \<or> m = TYPE_VARCHAR \<or> m = TYPE_FD"

definition arg_known :: "request_argument \<Rightarrow> bool" where
  "arg_known a \<longleftrightarrow> elem_known (ra_magic a) \<and> ra_arrType a = MAGIC_END \<or>
     ra_magic a = TYPE_ARRAY \<and> elem_known (ra_arrType a)"

text \<open>An interface name that can stand between quotes as one word.\<close>

definition plain_word :: "string \<Rightarrow> bool" where
  "plain_word s \<longleftrightarrow> list_all (\<lambda>c. \<not> is_sep c \<and> c \<noteq> CHR 0x22 \<and> c \<noteq> CHR 0x5C) s"

definition method_known :: "method_spec \<Rightarrow> bool" where
  "method_known m \<longleftrightarrow> list_all arg_known (ms_args m) \<and> plain_word (ms_returns m)"

definition arg_codes :: "request_argument \<Rightarrow> byte list" where
  "arg_codes a = magic_code (ra_magic a) # (if ra_magic a = TYPE_ARRAY then [magic_code (ra_arrType a)] else [])"

definition denoted_c2s :: "method_spec \<Rightarrow> spec_method" where
  "denoted_c2s m =
     \<lparr>m_idx = ms_idx m, m_params = concat (map arg_codes (ms_args m)), m_returnsType = ms_returns m,
      m_since = ms_since m, m_isDestructor = ms_destructor m\<rparr>"

definition denoted_s2c :: "method_spec \<Rightarrow> spec_method" where
  "denoted_s2c m = (denoted_c2s m)\<lparr>m_returnsType := []\<rparr>"

definition denoted :: "scan_object \<Rightarrow> object_spec" where
  "denoted ob = \<lparr>objectName = so_name ob, c2s = map denoted_c2s (so_c2s ob), s2c = map denoted_s2c (so_s2c ob)\<rparr>"

lemma params_ok_codes: "list_all arg_known as \<Longrightarrow> params_ok (concat (map arg_codes as))"
  by (induction as) (auto simp: arg_known_def arg_codes_def)

section \<open>Reading the printed table\<close>

text \<open>A designated initializer: a key, an equals sign and a value.\<close>

definition field :: "string \<Rightarrow> string list \<Rightarrow> (string \<times> string list) option" where
  "field key ts = (case ts of k # e # v # ts' \<Rightarrow> if k = key \<and> e = ''='' then Some (v, ts') else None | _ \<Rightarrow> None)"

definition enumerators :: "(string \<times> byte) list" where
  "enumerators =
     [(''Hyprwire::HW_MESSAGE_MAGIC_TYPE_UINT'', 0x10), (''Hyprwire::HW_MESSAGE_MAGIC_TYPE_INT'', 0x11),
      (''Hyprwire::HW_MESSAGE_MAGIC_TYPE_F32'', 0x12), (''Hyprwire::HW_MESSAGE_MAGIC_TYPE_VARCHAR'', 0x20),
      (''Hyprwire::HW_MESSAGE_MAGIC_TYPE_ARRAY'', 0x21), (''Hyprwire::HW_MESSAGE_MAGIC_TYPE_FD'', 0x40)]"

definition read_returns :: "string list \<Rightarrow> string \<times> string list" where
  "read_returns ts = (case field ''.returnsType'' ts of None \<Rightarrow> ([], ts) | Some (q, ts) \<Rightarrow> (butlast (tl q), ts))"

definition read_method :: "string list \<Rightarrow> (spec_method \<times> string list) option" where
  "read_method ts =
     (case ts of
        [] \<Rightarrow> None
      | t # ts \<Rightarrow>
          if t \<noteq> ''Hyprwire::SMethod{'' then None
          else
            Option.bind (field ''.idx'' ts) (\<lambda>(idx, ts).
            Option.bind (field ''.params'' ts) (\<lambda>(brace, ts).
            Option.bind (those (map (map_of enumerators) (takeWhile (\<lambda>t. t \<noteq> ''}'') ts))) (\<lambda>ps.
            let ret = read_returns (drop (Suc (length ps)) ts) in
              Option.bind (field ''.since'' (snd ret)) (\<lambda>(since, ts).
              Option.bind (field ''.isDestructor'' ts) (\<lambda>(des, ts).
              if brace = ''{'' \<and> ts \<noteq> [] \<and> hd ts = ''}'' then
                Some (\<lparr>m_idx = of_nat (read_dec 0 idx), m_params = ps, m_returnsType = fst ret,
                       m_since = of_nat (read_dec 0 since), m_isDestructor = (des = ''true'')\<rparr>, tl ts)
              else None))))))"

lemma field_shorter: "field key ts = Some (v, ts') \<Longrightarrow> length ts' < length ts"
  by (auto simp: field_def split: list.splits if_splits)

lemma read_returns_shorter: "length (snd (read_returns ts)) \<le> length ts"
  by (auto simp: read_returns_def split: option.splits dest!: field_shorter)

lemma read_method_shorter: "read_method ts = Some (m, ts') \<Longrightarrow> length ts' < length ts"
proof -
  assume "read_method ts = Some (m, ts')"
  then obtain x ts1 idx ts2 b ts3 n since ts4 des ts5 where "ts = x # ts1" "field ''.idx'' ts1 = Some (idx, ts2)"
    "field ''.params'' ts2 = Some (b, ts3)" "field ''.since'' (snd (read_returns (drop (Suc n) ts3))) = Some (since, ts4)"
    "field ''.isDestructor'' ts4 = Some (des, ts5)" "ts' = tl ts5"
    by (auto simp: read_method_def Let_def Option.bind_eq_Some_conv split: list.splits if_splits)
  then show ?thesis using read_returns_shorter[of "drop (Suc n) ts3"] by (auto dest!: field_shorter)
qed

function read_table :: "string list \<Rightarrow> spec_method list option" where
  "read_table ts =
     (if ts = [] then Some []
      else case read_method ts of None \<Rightarrow> None | Some (m, ts') \<Rightarrow> map_option ((#) m) (read_table ts'))"
  by pat_completeness auto
termination
  by (relation "measure length") (auto dest: read_method_shorter)

declare read_table.simps [simp del]

lemma read_table_entries:
  "(\<And>e m rest. (e, m) \<in> set es \<Longrightarrow> e \<noteq> [] \<and> read_method (e @ rest) = Some (m, rest)) \<Longrightarrow>
     read_table (concat (map fst es)) = Some (map snd es)"
proof (induction es)
  case Nil
  then show ?case by (simp add: read_table.simps)
next
  case (Cons em es)
  obtain e m where em: "em = (e, m)" by (cases em)
  with Cons.prems have "e \<noteq> []" "read_method (e @ concat (map fst es)) = Some (m, concat (map fst es))" by auto
  moreover have "read_table (concat (map fst es)) = Some (map snd es)" by (rule Cons.IH) (use Cons.prems in auto)
  ultimately show ?case using em by (simp add: read_table.simps[of "e @ concat (map fst es)"])
qed

text \<open>The words of an entry, and what they are read to.\<close>

abbreviation entry_head :: "method_spec \<Rightarrow> string list" where
  "entry_head m \<equiv>
     [''Hyprwire::SMethod{'', ''.idx'', ''='', dec_u32 (ms_idx m), ''.params'', ''='', ''{''] @
     words_from [] (params_text (ms_args m)) @ [''}'']"

abbreviation entry_tail :: "method_spec \<Rightarrow> string list" where
  "entry_tail m \<equiv> [''.since'', ''='', dec_u32 (ms_since m), ''.isDestructor'', ''='', bool_text (ms_destructor m), ''}'']"

lemma c2s_entry_text: "c2s_entry m =
  nl @ ''Hyprwire::SMethod{'' @ nl @ ''.idx = '' @ dec_u32 (ms_idx m) @ '','' @ nl @
  ''.params = { '' @ params_text (ms_args m) @ '' },'' @ nl @ ''.returnsType = \"'' @ ms_returns m @ ''\",'' @ nl @
  ''.since = '' @ dec_u32 (ms_since m) @ '','' @ nl @
  ''.isDestructor = '' @ bool_text (ms_destructor m) @ '','' @ nl @ ''},''"
  by (simp add: c2s_entry_def unlines_def nl_def)

lemma s2c_entry_text: "s2c_entry m =
  nl @ ''Hyprwire::SMethod{'' @ nl @ ''.idx = '' @ dec_u32 (ms_idx m) @ '','' @ nl @
  ''.params = { '' @ params_text (ms_args m) @ '' },'' @ nl @
  ''.since = '' @ dec_u32 (ms_since m) @ '','' @ nl @
  ''.isDestructor = '' @ bool_text (ms_destructor m) @ '','' @ nl @ ''},''"
  by (simp add: s2c_entry_def unlines_def nl_def)

lemma bool_text_word: "is_word (bool_text b)" "bool_text b \<noteq> []"
  by (simp_all add: bool_text_def is_sep_def)

lemma words_c2s_entry:
  assumes "is_word (ms_returns m)"
  shows "words_from [] (c2s_entry m) =
    entry_head m @ [''.returnsType'', ''='', ''\"'' @ ms_returns m @ ''\"''] @ entry_tail m"
  using assms unfolding c2s_entry_text
  by (simp add: nl_def words_word bool_text_word words_from_word)

lemma words_s2c_entry: "words_from [] (s2c_entry m) = entry_head m @ entry_tail m"
  unfolding s2c_entry_text by (simp add: nl_def words_word bool_text_word words_from_word)

lemma params_text_Cons:
  "params_text (a # as) @ '', '' = concat (map (\<lambda>p. typeToString (ra_magic p) (ra_arrType p) @ '', '') (a # as))"
proof -
  have drop2: "drop2 (s @ '', '') = s" for s by (simp add: drop2_def)
  have "\<exists>s. concat (map (\<lambda>p. typeToString (ra_magic p) (ra_arrType p) @ '', '') (a # as)) = s @ '', ''"
    by (cases "a # as" rule: rev_cases) auto
  then obtain s where s: "concat (map (\<lambda>p. typeToString (ra_magic p) (ra_arrType p) @ '', '') (a # as)) = s @ '', ''" ..
  show ?thesis unfolding params_text_def Let_def s by (simp add: drop2)
qed

lemma words_type:
  "arg_known a \<Longrightarrow> words_from [] (typeToString (ra_magic a) (ra_arrType a) @ '', '') =
     (if ra_magic a = TYPE_ARRAY then [''Hyprwire::HW_MESSAGE_MAGIC_TYPE_ARRAY'', elemToString (ra_arrType a)]
      else [elemToString (ra_magic a)])"
  by (auto simp: arg_known_def typeToString_def)

lemma read_elem:
  "elem_known m \<Longrightarrow> map_of enumerators (elemToString m) = Some (magic_code m) \<and> elemToString m \<noteq> ''}''"
  by (cases m) (simp_all add: enumerators_def)

lemma read_array: "map_of enumerators ''Hyprwire::HW_MESSAGE_MAGIC_TYPE_ARRAY'' = Some (magic_code TYPE_ARRAY)"
  by (simp add: enumerators_def)

lemma read_arg:
  assumes "arg_known a"
  defines "ws \<equiv> words_from [] (typeToString (ra_magic a) (ra_arrType a) @ '', '')"
  shows "map (map_of enumerators) ws = map Some (arg_codes a) \<and> list_all (\<lambda>t. t \<noteq> ''}'') ws"
  using assms(1) read_elem[of "ra_magic a"] read_elem[of "ra_arrType a"]
  unfolding ws_def words_type[OF assms(1)] by (auto simp: arg_known_def arg_codes_def read_array)

lemma those_append: "those (map Some xs @ ys) = map_option ((@) xs) (those ys)"
  by (induction xs) (simp_all add: option.map_comp o_def option.map_id[unfolded id_def])

lemma words_params:
  assumes "list_all arg_known as"
  shows "those (map (map_of enumerators) (words_from [] (params_text as))) = Some (concat (map arg_codes as)) \<and>
     list_all (\<lambda>t. t \<noteq> ''}'') (words_from [] (params_text as))"
proof -
  let ?w = "\<lambda>p. words_from [] (typeToString (ra_magic p) (ra_arrType p) @ '', '')"
  have "words_from [] (params_text as) = concat (map ?w as)"
  proof (cases as)
    case Nil
    then show ?thesis by (simp add: params_text_def)
  next
    case (Cons b bs)
    have "words_from [] (params_text as) = words_from [] (params_text as @ '', '')" by simp
    also have "\<dots> = concat (map (words_from []) (map (\<lambda>p. typeToString (ra_magic p) (ra_arrType p) @ '', '') as))"
      unfolding Cons params_text_Cons by (intro words_concat) auto
    finally show ?thesis by (simp add: o_def)
  qed
  moreover have "those (map (map_of enumerators) (concat (map ?w as))) = Some (concat (map arg_codes as)) \<and>
     list_all (\<lambda>t. t \<noteq> ''}'') (concat (map ?w as))"
    using assms
  proof (induction as)
    case (Cons a as)
    then show ?case using read_arg[of a] by (simp add: those_append del: words_append)
  qed simp
  ultimately show ?thesis by simp
qed

lemma dropped_words: "drop (Suc (length xs)) (xs @ y # zs) = zs"
  by simp

lemma taken_words: "list_all (\<lambda>t. t \<noteq> b) xs \<Longrightarrow> takeWhile (\<lambda>t. t \<noteq> b) (xs @ b # zs) = xs"
  by (induction xs) simp_all

lemma length_those: "those xs = Some ys \<Longrightarrow> length ys = length xs"
  by (induction xs arbitrary: ys) (auto split: option.splits)

lemma read_entry:
  assumes known: "list_all arg_known (ms_args m)"
    and ret: "read_returns (ret @ entry_tail m @ rest) = (returns, entry_tail m @ rest)"
  shows "read_method (entry_head m @ ret @ entry_tail m @ rest) =
    Some ((denoted_c2s m)\<lparr>m_returnsType := returns\<rparr>, rest)"
proof -
  let ?ws = "words_from [] (params_text (ms_args m))"
  have ps: "those (map (map_of enumerators) ?ws) = Some (concat (map arg_codes (ms_args m)))"
    and brace: "list_all (\<lambda>t. t \<noteq> ''}'') ?ws"
    using words_params[OF known] by simp_all
  define codes where "codes = concat (map arg_codes (ms_args m))"
  have len: "length codes = length ?ws" using length_those[OF ps] by (simp add: codes_def)
  define tw where "tw = entry_tail m @ rest"
  have since: "field ''.since'' tw =
      Some (dec_u32 (ms_since m), [''.isDestructor'', ''='', bool_text (ms_destructor m), ''}''] @ rest)"
    by (simp add: field_def tw_def)
  have des: "field ''.isDestructor'' ([''.isDestructor'', ''='', bool_text (ms_destructor m), ''}''] @ rest) =
      Some (bool_text (ms_destructor m), ''}'' # rest)"
    by (simp add: field_def)
  have flag: "(bool_text (ms_destructor m) = ''true'') = ms_destructor m" by (simp add: bool_text_def)
  have fields: "field ''.idx'' (''.idx'' # ''='' # v # ts) = Some (v, ts)"
    "field ''.params'' (''.params'' # ''='' # v # ts) = Some (v, ts)" for v ts
    by (simp_all add: field_def)
  have dropped: "drop (Suc (length codes)) (?ws @ ''}'' # ret @ tw) = ret @ tw"
    unfolding len by (rule dropped_words)
  have "read_method ((''Hyprwire::SMethod{'' # ''.idx'' # ''='' # dec_u32 (ms_idx m) # ''.params'' # ''='' # ''{'' #
      ?ws @ ''}'' # ret @ tw)) = Some ((denoted_c2s m)\<lparr>m_returnsType := returns\<rparr>, rest)"
    unfolding read_method_def
    by (simp only: list.case fields bind.bind_lunit prod.case taken_words[OF brace] ps[folded codes_def] Let_def dropped ret[folded tw_def]
        snd_conv fst_conv since des flag if_True not_True_eq_False if_False simp_thms list.sel list.distinct)
      (simp add: denoted_c2s_def codes_def)
  then show ?thesis by (simp add: tw_def)
qed

lemma read_c2s_entry:
  assumes "method_known m"
  shows "read_method (words_from [] (c2s_entry m) @ rest) = Some (denoted_c2s m, rest)"
proof -
  have w: "is_word (ms_returns m)" using assms by (auto simp: method_known_def plain_word_def list_all_iff)
  have "read_returns ([''.returnsType'', ''='', ''\"'' @ ms_returns m @ ''\"''] @ entry_tail m @ rest) = (ms_returns m, entry_tail m @ rest)"
    by (simp add: read_returns_def field_def)
  moreover have "list_all arg_known (ms_args m)" using assms by (simp add: method_known_def)
  ultimately have "read_method (entry_head m @ [''.returnsType'', ''='', ''\"'' @ ms_returns m @ ''\"''] @ entry_tail m @ rest) =
      Some ((denoted_c2s m)\<lparr>m_returnsType := ms_returns m\<rparr>, rest)"
    by (intro read_entry)
  then show ?thesis by (simp add: words_c2s_entry[OF w] denoted_c2s_def)
qed

lemma read_s2c_entry:
  assumes "method_known m"
  shows "read_method (words_from [] (s2c_entry m) @ rest) = Some (denoted_s2c m, rest)"
proof -
  have "read_returns ([] @ entry_tail m @ rest) = ([], entry_tail m @ rest)"
    by (simp add: read_returns_def field_def)
  moreover have "list_all arg_known (ms_args m)" using assms by (simp add: method_known_def)
  ultimately have "read_method (entry_head m @ [] @ entry_tail m @ rest) = Some ((denoted_c2s m)\<lparr>m_returnsType := []\<rparr>, rest)"
    by (intro read_entry)
  then show ?thesis by (simp add: words_s2c_entry denoted_s2c_def)
qed

lemma read_printed_table:
  assumes entry: "\<And>m rest. method_known m \<Longrightarrow> read_method (words_from [] (entry m) @ rest) = Some (den m, rest)"
    and ends: "\<And>m. \<exists>r. entry m = r @ '',''"
    and known: "list_all method_known ms"
  shows "read_table (words_from [] (table_text entry ms)) = Some (map den ms)"
proof -
  have "words_from [] (table_text entry ms) = words_from [] (concat (map entry ms))"
  proof (cases ms rule: rev_cases)
    case (snoc ns n)
    obtain r where r: "entry n = r @ '',''" using ends by blast
    have all: "concat (map entry ms) = (concat (map entry ns) @ r) @ '',''" using snoc r by simp
    then have "table_text entry ms = concat (map entry ns) @ r"
      unfolding table_text_def Let_def all using snoc by (simp add: butlast_append)
    moreover have "words_from [] ((concat (map entry ns) @ r) @ '','') = words_from [] (concat (map entry ns) @ r)"
      by (simp del: append.assoc append_assoc)
    ultimately show ?thesis using all by simp
  qed (simp add: table_text_def)
  also have "\<dots> = concat (map (words_from []) (map entry ms))"
  proof (rule words_concat)
    fix t assume "t \<in> set (map entry ms)"
    then obtain m where "t = entry m" by auto
    with ends[of m] show "\<exists>r c. t = r @ [c] \<and> is_sep c" by fastforce
  qed
  also have "\<dots> = concat (map fst (map (\<lambda>m. (words_from [] (entry m), den m)) ms))" by (simp add: o_def)
  also have "read_table \<dots> = Some (map snd (map (\<lambda>m. (words_from [] (entry m), den m)) ms))"
  proof (rule read_table_entries)
    fix e m rest assume "(e, m) \<in> set (map (\<lambda>m. (words_from [] (entry m), den m)) ms)"
    then obtain k where k: "k \<in> set ms" "e = words_from [] (entry k)" "m = den k" by auto
    with known have r: "read_method (e @ rest) = Some (m, rest)" for rest using entry[of k] by (auto simp: list_all_iff)
    then show "e \<noteq> [] \<and> read_method (e @ rest) = Some (m, rest)"
      using r[of "[]"] by (auto simp: read_method_def)
  qed
  finally show ?thesis by (simp add: o_def)
qed

section \<open>Scanned documents\<close>

text \<open>A document the scanner supports: known types, and interface names that are words.\<close>

definition type_known :: "string \<Rightarrow> bool" where
  "type_known ty \<longleftrightarrow> elem_known (strToMagic ty) \<or> strToMagic ty = TYPE_ARRAY \<and> elem_known (strToMagic (drop 6 ty))"

definition method_doc_ok :: "xml \<Rightarrow> bool" where
  "method_doc_ok node \<longleftrightarrow> list_all (\<lambda>p.
     (x_name p = ''arg'' \<longrightarrow> type_known (attr_string ''type'' p)) \<and>
     (x_name p = ''returns'' \<longrightarrow> plain_word (attr_string ''iface'' p))) (x_children node)"

definition object_doc_ok :: "xml \<Rightarrow> bool" where
  "object_doc_ok node \<longleftrightarrow> list_all method_doc_ok (x_children node) \<and> length (x_children node) < 2 ^ 32"

lemma scanned_arg_known:
  "type_known (attr_string ''type'' p) \<Longrightarrow> arg_known (scan_arg_c2s pg p) \<and> arg_known (scan_arg_s2c pg p)"
  by (auto simp: type_known_def arg_known_def scan_arg_c2s_def scan_arg_s2c_def elem_type_def)

lemma scan_params_known:
  "list_all (\<lambda>p. (x_name p = ''arg'' \<longrightarrow> arg_known (mk p)) \<and> (x_name p = ''returns'' \<longrightarrow> plain_word (attr_string ''iface'' p))) ps \<Longrightarrow>
     method_known m \<Longrightarrow> method_known (scan_params mk ps m)"
  by (induction mk ps m rule: scan_params.induct) (auto simp: method_known_def)

lemma scan_params_idx [simp]: "ms_idx (scan_params mk ps m) = ms_idx m"
  by (induction mk ps m rule: scan_params.induct) auto

lemma scan_method_known:
  assumes "method_doc_ok node" and "mk = scan_arg_c2s pg \<or> mk = scan_arg_s2c pg"
  shows "method_known (scan_method pg mk idx node)"
  unfolding scan_method_def using assms scanned_arg_known
  by (intro scan_params_known) (auto simp: method_doc_ok_def method_known_def plain_word_def list_all_iff)

lemma scan_methods_known:
  assumes "mk = scan_arg_c2s pg \<or> mk = scan_arg_s2c pg"
  shows "list_all method_doc_ok nodes \<Longrightarrow> list_all method_known (scan_methods pg mk tag idx nodes)"
  by (induction nodes arbitrary: idx) (use assms in \<open>auto intro: scan_method_known\<close>)

lemma scan_methods_idx:
  "i < length (scan_methods pg mk tag idx nodes) \<Longrightarrow> ms_idx (scan_methods pg mk tag idx nodes ! i) = idx + of_nat i"
  by (induction nodes arbitrary: idx i) (auto simp: scan_method_def nth_Cons split: nat.splits if_splits)

lemma length_scan_methods: "length (scan_methods pg mk tag idx nodes) \<le> length nodes"
  by (induction nodes arbitrary: idx) (auto intro: le_SucI)

lemma scanned_generated:
  assumes "object_doc_ok node"
  shows "generated (denoted (scan_one_object pg node))"
proof -
  let ?ms = "scan_methods pg (scan_arg_c2s pg) ''c2s'' 0 (x_children node)"
  have "list_all method_known (so_c2s (scan_one_object pg node))" "list_all method_known (so_s2c (scan_one_object pg node))"
    using assms scan_methods_known[of _ pg "x_children node"] by (simp_all add: scan_one_object_def object_doc_ok_def)
  then have "spec_ok (denoted (scan_one_object pg node))"
    by (auto simp: spec_ok_def denoted_def denoted_s2c_def denoted_c2s_def list_all_iff method_known_def intro!: params_ok_codes)
  moreover have "unat (ms_idx (?ms ! i)) = i" if "i < length ?ms" for i
  proof -
    have "i < 2 ^ 32" using that length_scan_methods[of pg "scan_arg_c2s pg" "''c2s''" 0 "x_children node"] assms
      by (simp add: object_doc_ok_def)
    then show ?thesis using scan_methods_idx[OF that] by (simp add: unat_of_nat)
  qed
  ultimately show ?thesis by (simp add: generated_def denoted_def scan_one_object_def denoted_c2s_def)
qed

text \<open>C15. Specifications printed and read (roundtrip). For an object of a supported document, the two tables
  of methods in the printed specification class, read the way C++ reads their initializers,
  are exactly the specification the scanned object denotes: the same indices, parameter codes,
  returned interfaces, versions and destructor flags, in the same order. That specification
  has what the theorems on the server and on the client assume of generated code.\<close>

theorem scanned_object_reads:
  assumes "object_doc_ok node"
  shows "read_table (words_from [] (table_text c2s_entry (so_c2s (scan_one_object pg node)))) =
      Some (c2s (denoted (scan_one_object pg node))) \<and>
    read_table (words_from [] (table_text s2c_entry (so_s2c (scan_one_object pg node)))) =
      Some (s2c (denoted (scan_one_object pg node))) \<and>
    generated (denoted (scan_one_object pg node))"
proof -
  have known: "list_all method_known (so_c2s (scan_one_object pg node))" "list_all method_known (so_s2c (scan_one_object pg node))"
    using assms scan_methods_known[of _ pg "x_children node"] by (simp_all add: scan_one_object_def object_doc_ok_def)
  have ends: "\<exists>r. c2s_entry m = r @ '',''" "\<exists>r. s2c_entry m = r @ '',''" for m
    unfolding c2s_entry_text s2c_entry_text by (simp_all only: append.assoc[symmetric])
      (rule exI, rule append_eq_appendI[OF refl], simp)+
  show ?thesis
    using read_printed_table[OF read_c2s_entry ends(1) known(1)] read_printed_table[OF read_s2c_entry ends(2) known(2)]
      scanned_generated[OF assms, of pg] by (simp add: denoted_def)
qed

definition example_document :: xml where
  "example_document =
     Xml [] [] [] [Xml ''protocol'' [(''name'', ''my_proto''), (''version'', ''1'')] []
       [Xml ''enum'' [(''name'', ''mode'')] [] [Xml ''value'' [(''idx'', ''4''), (''name'', ''fast'')] [] []],
        Xml ''object'' [(''name'', ''my_manager''), (''version'', ''1'')] []
          [Xml ''s2c'' [(''name'', ''greet'')] []
             [Xml ''arg'' [(''name'', ''text''), (''type'', ''varchar'')] [] []],
           Xml ''c2s'' [(''name'', ''make_item''), (''since'', ''2'')] []
             [Xml ''arg'' [(''name'', ''names''), (''type'', ''array varchar'')] [] [],
              Xml ''arg'' [(''name'', ''mode''), (''type'', ''enum''), (''interface'', ''mode'')] [] [],
              Xml ''returns'' [(''iface'', ''my_item'')] [] []]]]]"

definition example_pugi :: pugi where
  "example_pugi = \<lparr>pugi_int = (\<lambda>s. int (read_dec 0 s)), pugi_bool = (\<lambda>s. s = ''true'')\<rparr>"

definition example_node :: xml where
  "example_node = x_children (child ''protocol'' example_document) ! 1"

lemma example_node_ok: "object_doc_ok example_node"
  by (simp add: example_node_def example_document_def child_def object_doc_ok_def method_doc_ok_def attr_string_def
      type_known_def strToMagic_def plain_word_def is_sep_def)

theorem scanned_object_reads_witness:
  "read_table (words_from [] (table_text c2s_entry (so_c2s (scan_one_object example_pugi example_node)))) =
     Some [\<lparr>m_idx = 0, m_params = [0x21, 0x20, 0x10], m_returnsType = ''my_item'', m_since = 2, m_isDestructor = False\<rparr>]"
proof -
  have "c2s (denoted (scan_one_object example_pugi example_node)) =
     [\<lparr>m_idx = 0, m_params = [0x21, 0x20, 0x10], m_returnsType = ''my_item'', m_since = 2, m_isDestructor = False\<rparr>]"
    by (simp add: denoted_def denoted_c2s_def scan_one_object_def scan_method_def example_node_def example_document_def
        child_def attr_string_def attr_int_def attr_bool_def scan_arg_c2s_def strToMagic_def elem_type_def arg_codes_def
        example_pugi_def is_digit_def)
  then show ?thesis using scanned_object_reads[OF example_node_ok, of example_pugi] by simp
qed

section \<open>The registered functions\<close>

text \<open>
  How the C calling convention passes a parameter of a printed type. An enum of the document
  is declared with \<^verbatim>\<open>uint32_t\<close> below it.
\<close>

definition c_abi :: "string list \<Rightarrow> string \<Rightarrow> ffi_type option" where
  "c_abi enums t =
     (if t = ''const char*'' \<or> t \<noteq> [] \<and> last t = CHR ''*'' then Some FfiPointer
      else if t = ''uint32_t'' then Some FfiUint32
      else if t = ''int32_t'' \<or> t = ''int'' then Some FfiSint32
      else if t = ''float'' then Some FfiFloat
      else if t \<in> set enums then Some FfiUint32
      else None)"

definition enums_declared :: "string list \<Rightarrow> proto_data \<Rightarrow> method_spec \<Rightarrow> bool" where
  "enums_declared enums pd m \<longleftrightarrow> list_all (\<lambda>a. ra_isEnum a \<longrightarrow>
     c_abi enums (camelize (pd_nameOriginal pd @ ''_'' @ ra_interface a)) = Some FfiUint32) (ms_args m)"

text \<open>The declarations of the printed parameter list: an array is a pointer and a length.\<close>

definition arg_decls :: "proto_data \<Rightarrow> request_argument \<Rightarrow> (string \<times> string) list" where
  "arg_decls pd a =
     (if ra_arrType a \<noteq> MAGIC_END then
        [(elemToC (ra_arrType a) @ ''*'', ra_name a), (''uint32_t'', ra_name a @ ''_len'')]
      else [(argToC pd a, ra_name a)])"

definition handler_decls :: "proto_data \<Rightarrow> bool \<Rightarrow> method_spec \<Rightarrow> (string \<times> string) list" where
  "handler_decls pd sq m =
     (if sq then [(''uint32_t'', ''seq'')] else []) @ concat (map (arg_decls pd) (ms_args m))"

definition decl_text :: "string \<times> string \<Rightarrow> string" where
  "decl_text d = '', '' @ fst d @ '' '' @ snd d"

lemma join_decls:
  "'', '' @ concat (map (\<lambda>d. fst d @ '' '' @ snd d @ '', '') ds) = concat (map decl_text ds) @ '', ''"
  by (induction ds) (simp_all add: decl_text_def)

lemma drop2_decls:
  assumes "ds \<noteq> []"
  shows "'', '' @ drop2 (concat (map (\<lambda>d. fst d @ '' '' @ snd d @ '', '') ds)) = concat (map decl_text ds)"
proof -
  define x where "x = concat (map (\<lambda>d. fst d @ '' '' @ snd d @ '', '') ds)"
  define y where "y = concat (map decl_text ds)"
  have e: "'', '' @ x = y @ '', ''" unfolding x_def y_def by (rule join_decls)
  have "2 \<le> length x" using assms by (cases ds) (simp_all add: x_def)
  then have k: "length x = Suc (Suc (length x - 2))" by simp
  have len: "length y = Suc (Suc (length x - 2))" using arg_cong[OF e, of length] k by simp
  have "'', '' @ drop2 x = take (Suc (Suc (length x - 2))) ('', '' @ x)" by (simp add: drop2_def)
  also have "\<dots> = y" unfolding e by (simp add: len)
  finally show ?thesis by (simp add: x_def y_def)
qed

lemma concat_map_concat: "concat (map f (concat (map g xs))) = concat (map (\<lambda>x. concat (map f (g x))) xs)"
  by (induction xs) simp_all

lemma arg_piece_decls:
  "arg_piece pd False False True False a = concat (map (\<lambda>d. fst d @ '' '' @ snd d @ '', '') (arg_decls pd a))"
  by (simp add: arg_piece_def arg_decls_def)

lemma handler_args_decls: "handler_args pd sq m = concat (map decl_text (handler_decls pd sq m))"
proof -
  let ?ds = "handler_decls pd sq m" and ?f = "\<lambda>d. fst d @ '' '' @ snd d @ '', ''"
  have cstr: "(if \<not> sq then [] else ''uint32_t seq, '') @ concat (map (arg_piece pd False False True False) (ms_args m)) =
      concat (map ?f ?ds)"
    by (simp add: handler_decls_def concat_map_concat arg_piece_decls[unfolded append_Cons append_Nil] cong: map_cong)
  have none: "?ds = [] \<longleftrightarrow> ms_args m = [] \<and> \<not> sq"
    by (cases "ms_args m") (simp_all add: handler_decls_def arg_decls_def)
  have ne: "concat (map ?f ?ds) = [] \<longleftrightarrow> ?ds = []" by (cases ?ds) simp_all
  have args: "argsToC pd (ms_args m) False False sq True False = (if ?ds \<noteq> [] then drop2 (concat (map ?f ?ds)) else [])"
    by (simp only: argsToC_def Let_def if_False simp_thms cstr ne) simp
  show ?thesis
  proof (cases "?ds = []")
    case True
    then show ?thesis using none by (simp add: handler_args_def)
  next
    case False
    then show ?thesis using none drop2_decls[OF False] by (auto simp: handler_args_def args)
  qed
qed

lemma handler_text_decls:
  "\<exists>body. handler_text pd client sq ob m =
     nl @ ''static void '' @ so_nameCamel ob @ ''_method'' @ dec_u32 (ms_idx m) @ ''(Hyprwire::IObject* r'' @
     concat (map decl_text (handler_decls pd sq m)) @ '') {'' @ body"
  unfolding handler_text_def handler_args_decls by (simp add: unlines_def nl_def)

subsection \<open>Their types\<close>

fun params_types :: "byte list \<Rightarrow> ffi_type list" where
  "params_types [] = []"
| "params_types (p # ps) =
     (if p = magic_code TYPE_ARRAY then FfiPointer # FfiUint32 # (case ps of [] \<Rightarrow> [] | _ # ps' \<Rightarrow> params_types ps')
      else ffiTypeFrom p # params_types ps)"

lemma params_types_args:
  "list_all2 ffi_fits (args_types args) (args_values args) \<Longrightarrow> params_types (args_params args) = args_types args"
proof (induction args)
  case (Cons a args)
  then have fit: "list_all2 ffi_fits (arg_types a) (arg_values a)" "params_types (args_params args) = args_types args"
    by (auto simp: list_all2_append length_arg_types_values)
  show ?case
  proof (cases a)
    case (WPrim mg v)
    with fit(1) have "mg \<noteq> TYPE_ARRAY" by (auto simp: ffiTypeFrom_def)
    with WPrim fit(2) show ?thesis using magic_code_inject[of mg TYPE_ARRAY] by simp
  qed (use fit(2) in \<open>simp_all add: ffiTypeFrom_def\<close>)
qed simp

lemma abi_elem: "elem_known e \<Longrightarrow> c_abi enums (elemToC e) = Some (ffiTypeFrom (magic_code e))"
  by (cases e) (simp_all add: c_abi_def ffiTypeFrom_def)

lemma abi_arg:
  assumes "arg_known a" and "ra_isEnum a \<longrightarrow> c_abi enums (camelize (pd_nameOriginal pd @ ''_'' @ ra_interface a)) = Some FfiUint32"
  shows "map (c_abi enums \<circ> fst) (arg_decls pd a) @ map Some (params_types ps) = map Some (params_types (arg_codes a @ ps))"
proof (cases "ra_magic a = TYPE_ARRAY")
  case True
  with assms show ?thesis by (auto simp: arg_known_def arg_decls_def arg_codes_def c_abi_def)
next
  case False
  then have k: "elem_known (ra_magic a)" "ra_arrType a = MAGIC_END" using assms(1) by (auto simp: arg_known_def)
  have "c_abi enums (argToC pd a) = Some (ffiTypeFrom (magic_code (ra_magic a)))"
  proof (cases "ra_magic a = TYPE_UINT \<and> ra_isEnum a")
    case True
    with assms(2) show ?thesis by (simp add: argToC_def ffiTypeFrom_def)
  next
    case False
    then have "argToC pd a = elemToC (ra_magic a)" using k(1) by (cases "ra_magic a") (simp_all add: argToC_def)
    then show ?thesis using abi_elem[OF k(1)] by simp
  qed
  moreover have "magic_code (ra_magic a) \<noteq> 0x21" using k(1) by (cases "ra_magic a") simp_all
  ultimately show ?thesis using k(2) False by (simp add: arg_decls_def arg_codes_def)
qed

lemma abi_args:
  assumes "method_known m" and "enums_declared enums pd m"
  shows "map (c_abi enums \<circ> fst) (concat (map (arg_decls pd) (ms_args m))) =
     map Some (params_types (concat (map arg_codes (ms_args m))))"
proof -
  have "list_all arg_known as \<Longrightarrow> list_all (\<lambda>a. ra_isEnum a \<longrightarrow>
      c_abi enums (camelize (pd_nameOriginal pd @ ''_'' @ ra_interface a)) = Some FfiUint32) as \<Longrightarrow>
    map (c_abi enums \<circ> fst) (concat (map (arg_decls pd) as)) = map Some (params_types (concat (map arg_codes as)))" for as
  proof (induction as)
    case (Cons a as)
    then show ?case using abi_arg[of a enums pd "concat (map arg_codes as)"] by (simp add: o_def)
  qed simp
  with assms show ?thesis by (simp add: method_known_def enums_declared_def)
qed

subsection \<open>Calls of a registered function\<close>

text \<open>
  What each end listens to, the source it compiles, and the specification of a method as
  that end has it: the client's are the methods from the server, which return nothing.
\<close>

definition handled :: "bool \<Rightarrow> scan_object \<Rightarrow> method_spec list" where
  "handled client ob = (if client then so_s2c ob else so_c2s ob)"

definition generated_source :: "bool \<Rightarrow> proto_data \<Rightarrow> scan_object list \<Rightarrow> string" where
  "generated_source client pd objects =
     (if client then generateClientCodeSource pd objects else generateServerCodeSource pd objects)"

definition sends_seq :: "bool \<Rightarrow> method_spec \<Rightarrow> bool" where
  "sends_seq client m \<longleftrightarrow> \<not> client \<and> ms_returns m \<noteq> []"

definition denoted_for :: "bool \<Rightarrow> method_spec \<Rightarrow> spec_method" where
  "denoted_for client m = (if client then denoted_s2c m else denoted_c2s m)"

lemma split_concat: "x \<in> set xs \<Longrightarrow> \<exists>pre post. concat (map f xs) = pre @ f x @ post"
  by (induction xs) (auto, metis append.assoc)

lemma object_source_split:
  assumes "m \<in> set (handled client ob)"
  shows "\<exists>pre mid post. (if client then client_object_source pd ob else server_object_source pd ob) =
    pre @ handler_text pd client (sends_seq client m) ob m @ mid @ listen_text ob m @ post"
proof -
  let ?h = "\<lambda>m. handler_text pd client (sends_seq client m) ob m"
  obtain a b where h: "concat (map ?h (handled client ob)) = a @ ?h m @ b" using split_concat[OF assms] by blast
  obtain c d where l: "concat (map (listen_text ob) (handled client ob)) = c @ listen_text ob m @ d"
    using split_concat[OF assms] by blast
  obtain mid post where "(if client then client_object_source pd ob else server_object_source pd ob) =
      concat (map ?h (handled client ob)) @ mid @ concat (map (listen_text ob) (handled client ob)) @ post"
    by (cases client) (auto simp: client_object_source_def server_object_source_def handled_def sends_seq_def)
  then have "(if client then client_object_source pd ob else server_object_source pd ob) =
      a @ ?h m @ (b @ mid @ c) @ listen_text ob m @ (d @ post)"
    by (simp add: h l)
  then show ?thesis by blast
qed

lemma source_split:
  assumes "ob \<in> set objects" and "m \<in> set (handled client ob)"
  shows "\<exists>pre mid post. generated_source client pd objects =
    pre @ handler_text pd client (sends_seq client m) ob m @ mid @ listen_text ob m @ post"
proof -
  let ?o = "\<lambda>ob. if client then client_object_source pd ob else server_object_source pd ob"
  obtain a b where o: "concat (map ?o objects) = a @ ?o ob @ b" using split_concat[OF assms(1)] by blast
  obtain pre post where g: "generated_source client pd objects = pre @ concat (map ?o objects) @ post"
    by (cases client) (auto simp: generated_source_def generateClientCodeSource_def generateServerCodeSource_def)
  obtain c mid d where s: "?o ob = c @ handler_text pd client (sends_seq client m) ob m @ mid @ listen_text ob m @ d"
    using object_source_split[OF assms(2)] by blast
  have "generated_source client pd objects =
      (pre @ a @ c) @ handler_text pd client (sends_seq client m) ob m @ mid @ listen_text ob m @ (d @ b @ post)"
    unfolding g o s by simp
  then show ?thesis by blast
qed

lemma listen_text_eq: "listen_text ob m = nl @ ''    m_object->listen('' @ dec_u32 (ms_idx m) @ '', rc<void*>(::'' @
    so_nameCamel ob @ ''_method'' @ dec_u32 (ms_idx m) @ ''));''"
  by (simp add: listen_text_def unlines_def nl_def)

lemma wire_params_types:
  "params_types (wire_params (denoted_for client m)) =
     (if sends_seq client m then [FfiUint32] else []) @ params_types (concat (map arg_codes (ms_args m)))"
  by (simp add: wire_params_def denoted_for_def denoted_s2c_def denoted_c2s_def sends_seq_def ffiTypeFrom_def)

text \<open>C14. The types of the registered functions (type). For every method an end listens to, the source generated
  for it defines a function and registers it under the method's index; and whenever the
  library accepts a message from the wire and invokes the listener of that method, the values
  it passes are, one by one, of the C types in the printed parameter list: the object, the
  sequence where there is one, a scalar for a scalar, and a pointer and a length for an array.\<close>

theorem handlers_match_calls:
  assumes "ob \<in> set objects" and "m \<in> set (handled client ob)"
    and "method_known m" and "enums_declared enums pd m"
    and "short_runs buffer" and "vec_ok buffer" and "off < length buffer"
    and "parse_Generic buffer queue off = Some (Inr (msg, n, rest))"
    and "\<forall>method \<in> set methods. params_ok (m_params method)"
    and "called prep obj methods (gm_method msg) (gm_data msg) (gm_fds msg) = Inr (CalledInvoke fn vals (denoted_for client m))"
  shows "\<exists>decls pre body post.
    generated_source client pd objects =
      pre @ (''static void '' @ so_nameCamel ob @ ''_method'' @ dec_u32 (ms_idx m) @ ''(Hyprwire::IObject* r'' @
             concat (map decl_text decls) @ '') {'') @ body @
      (''    m_object->listen('' @ dec_u32 (ms_idx m) @ '', rc<void*>(::'' @ so_nameCamel ob @ ''_method'' @
        dec_u32 (ms_idx m) @ ''));'') @ post \<and>
    list_all2 (\<lambda>(ctype, name) v. \<exists>t. c_abi enums ctype = Some t \<and> ffi_fits t v)
      ((''Hyprwire::IObject*'', ''r'') # decls) vals"
proof -
  let ?ds = "handler_decls pd (sends_seq client m) m"
  obtain args where args: "wire_params (denoted_for client m) = args_params args" "vals = AvSelf # args_values args"
    "list_all2 ffi_fits (FfiPointer # args_types args) vals"
    using accepted_call_fits[OF assms(5-9), of prep obj] assms(10) by auto
  then have "args_types args = params_types (wire_params (denoted_for client m))"
    by (simp add: params_types_args)
  moreover have "map (c_abi enums \<circ> fst) ?ds = map Some (params_types (wire_params (denoted_for client m)))"
    using abi_args[OF assms(3,4)] by (simp add: wire_params_types handler_decls_def c_abi_def)
  ultimately have types: "map (c_abi enums \<circ> fst) ((''Hyprwire::IObject*'', ''r'') # ?ds) = map Some (FfiPointer # args_types args)"
    by (simp add: c_abi_def)
  have fits: "map (c_abi enums \<circ> fst) ds = map Some ts \<Longrightarrow> list_all2 ffi_fits ts vs \<Longrightarrow>
      list_all2 (\<lambda>(ctype, name) v. \<exists>t. c_abi enums ctype = Some t \<and> ffi_fits t v) ds vs" for ds ts vs
    by (induction ds arbitrary: ts vs) (auto simp: Cons_eq_map_conv list_all2_Cons1)
  from fits[OF types args(3)]
  have f: "list_all2 (\<lambda>(ctype, name) v. \<exists>t. c_abi enums ctype = Some t \<and> ffi_fits t v)
      ((''Hyprwire::IObject*'', ''r'') # ?ds) vals" .
  obtain pre mid post where g: "generated_source client pd objects =
      pre @ handler_text pd client (sends_seq client m) ob m @ mid @ listen_text ob m @ post"
    using source_split[OF assms(1,2)] by blast
  obtain body where h: "handler_text pd client (sends_seq client m) ob m =
     nl @ ''static void '' @ so_nameCamel ob @ ''_method'' @ dec_u32 (ms_idx m) @ ''(Hyprwire::IObject* r'' @
     concat (map decl_text ?ds) @ '') {'' @ body"
    using handler_text_decls by blast
  have "generated_source client pd objects =
      (pre @ nl) @ (''static void '' @ so_nameCamel ob @ ''_method'' @ dec_u32 (ms_idx m) @ ''(Hyprwire::IObject* r'' @
             concat (map decl_text ?ds) @ '') {'') @ (body @ mid @ nl) @
      (''    m_object->listen('' @ dec_u32 (ms_idx m) @ '', rc<void*>(::'' @ so_nameCamel ob @ ''_method'' @
        dec_u32 (ms_idx m) @ ''));'') @ post"
    unfolding g h listen_text_eq by (simp only: append.assoc)
  with f show ?thesis by blast
qed

lemma char_codes: "char_of (77 :: nat) = CHR ''M''" "char_of (48 :: nat) = CHR ''0''"
proof -
  have "of_char (CHR ''M'') = (77 :: nat)" "of_char (CHR ''0'') = (48 :: nat)" by simp_all
  then show "char_of (77 :: nat) = CHR ''M''" "char_of (48 :: nat) = CHR ''0''" by (metis char_of_char)+
qed

theorem handlers_match_calls_witness:
  "\<exists>decls pre body post.
    generated_source True (proto_of example_pugi ''my.xml'' example_document) [scan_one_object example_pugi example_node] =
      pre @ (''static void myManager_method0(Hyprwire::IObject* r'' @ concat (map decl_text decls) @ '') {'') @ body @
      ''    m_object->listen(0, rc<void*>(::myManager_method0));'' @ post \<and>
    list_all2 (\<lambda>(ctype, name) v. \<exists>t. c_abi [''myProtoMode''] ctype = Some t \<and> ffi_fits t v)
      ((''Hyprwire::IObject*'', ''r'') # decls) [AvSelf, AvStr [104, 105]]"
proof -
  let ?ob = "scan_one_object example_pugi example_node"
  let ?m = "\<lparr>ms_args = [\<lparr>ra_magic = TYPE_VARCHAR, ra_arrType = MAGIC_END, ra_interface = [], ra_name = ''text'',
      ra_allowNull = False, ra_isEnum = False\<rparr>], ms_name = ''greet'', ms_since = 0, ms_returns = [],
      ms_destructor = False, ms_idx = 0\<rparr>"
  have ob: "so_s2c ?ob = [?m]" "so_nameCamel ?ob = ''myManager''"
    by (simp_all add: scan_one_object_def scan_method_def example_node_def example_document_def
        child_def attr_string_def attr_int_def attr_bool_def scan_arg_s2c_def strToMagic_def elem_type_def camelize_def toupper_def char_codes)
  have known: "method_known ?m" "enums_declared [''myProtoMode''] (proto_of example_pugi ''my.xml'' example_document) ?m"
    by (simp_all add: method_known_def arg_known_def plain_word_def enums_declared_def)
  let ?args = "[WStr [104, 105]]"
  let ?b = "enc_Generic 3 0 ?args"
  have bytes: "wire_args ?args = [0x20, 2, 104, 105]"
    by (simp add: enc_bytes_def encodeVarInt_vlq vlq.simps)
  have b: "?b = [100, 0x22, 3, 0, 0, 0, 0x10, 0, 0, 0, 0, 0x20, 2, 104, 105, 0]"
    by (simp only: enc_Generic_def bytes) (simp add: u32_bytes_def)
  have v: "vec_ok ?b" "short_runs ?b" by (simp_all add: b vec_ok_def short_runs_def list_all_iff bit_numeral_word_iff)
  let ?g = "\<lparr>gm_object = 3, gm_method = 0, gm_data = wire_args ?args @ [0], gm_fds = wire_args_fds ?args\<rparr>"
  have p: "parse_Generic ?b (wire_args_fds ?args @ []) 0 = Some (Inr (?g, length ?b, []))"
    by (rule parse_Generic_stands[OF _ _ v(1)]) (simp_all add: array_limit_def del: wire_args_simps)
  have at: "args_at (gm_data ?g) 0 ?args (length (wire_args ?args))"
    using args_at_wire_args[of ?args "gm_data ?g" 0] by (simp add: stands_def)
  have d: "vec_ok (gm_data ?g)" by (simp add: bytes vec_ok_def del: wire_args_simps)
  have meth: "wire_params (denoted_for True ?m) = args_params ?args"
    by (simp add: wire_params_def denoted_for_def denoted_s2c_def denoted_c2s_def arg_codes_def)
  have chk: "check_params 0 (gm_data ?g) 0 (args_params ?args) 0 [FfiPointer] = Inr (Inr [FfiPointer, FfiPointer])"
  proof -
    have "check_params 0 (gm_data ?g) 0 (args_params ?args @ []) 0 [FfiPointer] =
        check_params 0 (gm_data ?g) (0 + length (args_params ?args)) [] (length (wire_args ?args)) ([FfiPointer] @ args_types ?args)"
      by (rule check_params_args[OF at _ _ d]) (simp_all del: wire_args_simps)
    then show ?thesis unfolding append_Nil2 check_params.simps(1) by simp
  qed
  have dec: "decode_args (gm_data ?g) (gm_fds ?g) 0 0 [AvSelf] = Inr (Inr [AvSelf, AvStr [104, 105]])"
    using decode_args_at[OF at _ _ d, of "gm_fds ?g" 0] by (simp del: decode_args.simps wire_args_simps)
  have call: "called (\<lambda>_. True) example_object [denoted_for True ?m] 0 (gm_data ?g) (gm_fds ?g) =
      Inr (CalledInvoke 5 [AvSelf, AvStr [104, 105]] (denoted_for True ?m))"
    using chk dec meth by (simp add: called_def example_object_def denoted_for_def denoted_s2c_def denoted_c2s_def)
  have ok: "\<forall>method \<in> set [denoted_for True ?m]. params_ok (m_params method)"
    by (simp add: denoted_for_def denoted_s2c_def denoted_c2s_def arg_codes_def)
  show ?thesis
    using handlers_match_calls[of ?ob "[?ob]" ?m True "[''myProtoMode'']" "proto_of example_pugi ''my.xml'' example_document"
        ?b 0 "wire_args_fds ?args @ []" ?g "length ?b" "[]" "[denoted_for True ?m]" "\<lambda>_. True" example_object 5
        "[AvSelf, AvStr [104, 105]]", OF _ _ known v(2,1) _ p ok]
      call ob
    by (simp add: handled_def b dec_u32_def dec.simps digit_char_def char_codes del: wire_args_simps)
qed

end
