(* ===== verification/Socket_IO.thy ===== *)
theory Socket_IO
  imports Client_Dispatch Server_Dispatch
begin

text \<open>
  The two loops around the socket: \<^verbatim>\<open>parseFromFd\<close> (\<^verbatim>\<open>SocketHelpers.cpp\<close>), which reads until
  \<^verbatim>\<open>recvmsg\<close> fills less than its buffer, and the end of \<^verbatim>\<open>sendMessage\<close>
  (\<^verbatim>\<open>ServerClient.cpp\<close>, \<^verbatim>\<open>ClientSocket.cpp\<close>), which repeats \<^verbatim>\<open>sendmsg\<close> while the socket is full.
  The kernel is the list of answers it gives to the calls; the end of the list is a call
  that does not return.
\<close>

section \<open>Receiving\<close>

text \<open>The first control message of a read: none, descriptors, or of another level or type.\<close>

datatype control = NoControl | Rights "int list" | OtherControl

datatype recv_answer = RecvFailed | Received "byte list" control

definition BUFFER_SIZE :: nat where
  "BUFFER_SIZE = 8192"

text \<open>The message is \<open>None\<close> when it is bad. What the loop has collected is passed along.\<close>

fun receive :: "recv_answer list \<Rightarrow> byte list \<Rightarrow> int list \<Rightarrow> ((byte list \<times> int list) option \<times> recv_answer list) option" where
  "receive [] data fds = None"
| "receive (RecvFailed # answers) data fds = Some (None, answers)"
| "receive (Received bytes ctl # answers) data fds =
     (let data = data @ bytes in
      case ctl of
        OtherControl \<Rightarrow> Some (None, answers)
      | NoControl \<Rightarrow>
          if length bytes = BUFFER_SIZE then receive answers data fds else Some (Some (data, fds), answers)
      | Rights new \<Rightarrow>
          let fds = fds @ new in
          if length bytes = BUFFER_SIZE then receive answers data fds else Some (Some (data, fds), answers))"

definition parseFromFd :: "recv_answer list \<Rightarrow> ((byte list \<times> int list) option \<times> recv_answer list) option" where
  "parseFromFd answers = receive answers [] []"

fun control_fds :: "control \<Rightarrow> int list" where
  "control_fds (Rights fds) = fds"
| "control_fds _ = []"

fun full_read :: "recv_answer \<Rightarrow> bool" where
  "full_read (Received bytes ctl) \<longleftrightarrow> length bytes = BUFFER_SIZE \<and> ctl \<noteq> OtherControl"
| "full_read RecvFailed \<longleftrightarrow> False"

fun read_bytes :: "recv_answer \<Rightarrow> byte list" where
  "read_bytes (Received bytes ctl) = bytes"
| "read_bytes RecvFailed = []"

fun read_fds :: "recv_answer \<Rightarrow> int list" where
  "read_fds (Received bytes ctl) = control_fds ctl"
| "read_fds RecvFailed = []"

text \<open>Full reads are collected; the first read that is not full decides.\<close>

lemma receive_full:
  "list_all full_read full \<Longrightarrow>
     receive (full @ answers) data fds =
     receive answers (data @ concat (map read_bytes full)) (fds @ concat (map read_fds full))"
proof (induction full arbitrary: data fds)
  case (Cons a full)
  then obtain bytes ctl where a: "a = Received bytes ctl" "length bytes = BUFFER_SIZE" "ctl \<noteq> OtherControl"
    by (cases a) auto
  with Cons show ?case by (cases ctl) (simp_all add: Let_def)
qed simp

lemma parse_from_fd_whole:
  assumes "list_all full_read full" and "length bytes < BUFFER_SIZE" and "ctl \<noteq> OtherControl"
  shows "parseFromFd (full @ Received bytes ctl # answers) =
    Some (Some (concat (map read_bytes full) @ bytes, concat (map read_fds full) @ control_fds ctl), answers)"
  using assms by (cases ctl) (simp_all add: parseFromFd_def receive_full Let_def)

lemma parse_from_fd_bad:
  assumes "list_all full_read full" and "a = RecvFailed \<or> (\<exists>bytes. a = Received bytes OtherControl)"
  shows "parseFromFd (full @ a # answers) = Some (None, answers)"
  using assms by (auto simp: parseFromFd_def receive_full Let_def)

lemma parse_from_fd_blocks: "list_all full_read full \<Longrightarrow> parseFromFd full = None"
  using receive_full[of full "[]"] by (simp add: parseFromFd_def)

text \<open>
  What the kernel answers for a stream socket with a queue of bytes and no more coming: each
  call returns at most the buffer, and once the queue is empty a call fails on a
  non-blocking descriptor and waits on a blocking one.
\<close>

inductive queue_answers :: "bool \<Rightarrow> byte list \<Rightarrow> recv_answer list \<Rightarrow> bool" for nonblock where
  drained: "queue_answers nonblock [] (if nonblock then [RecvFailed] else [])"
| queued: "queue \<noteq> [] \<Longrightarrow> queue_answers nonblock (drop BUFFER_SIZE queue) answers \<Longrightarrow>
    queue_answers nonblock queue (Received (take BUFFER_SIZE queue) NoControl # answers)"

inductive_cases queue_answersE: "queue_answers nonblock queue answers"

lemma receive_queue:
  "queue_answers nonblock queue answers \<Longrightarrow>
     (if length queue mod BUFFER_SIZE \<noteq> 0 then
        \<exists>rest. receive answers data fds = Some (Some (data @ queue, fds), rest) \<and> queue_answers nonblock [] rest
      else receive answers data fds = (if nonblock then Some (None, []) else None))"
proof (induction arbitrary: data rule: queue_answers.induct)
  case drained
  then show ?case by simp
next
  case (queued queue answers)
  show ?case
  proof (cases "length queue < BUFFER_SIZE")
    case True
    with queued.hyps have "queue_answers nonblock [] answers" by simp
    with True queued.hyps(1) show ?thesis by simp
  next
    case False
    have "length (drop BUFFER_SIZE queue) mod BUFFER_SIZE = length queue mod BUFFER_SIZE"
      using False by (simp add: le_mod_geq)
    moreover have "(data @ take BUFFER_SIZE queue) @ drop BUFFER_SIZE queue = data @ queue" by simp
    moreover note queued.IH[of "data @ take BUFFER_SIZE queue"]
    ultimately have "if length queue mod BUFFER_SIZE \<noteq> 0 then
        \<exists>rest. receive answers (data @ take BUFFER_SIZE queue) fds = Some (Some (data @ queue, fds), rest) \<and> queue_answers nonblock [] rest
      else receive answers (data @ take BUFFER_SIZE queue) fds = (if nonblock then Some (None, []) else None)"
      by (simp only:)
    with False show ?thesis by (simp add: Let_def)
  qed
qed

lemma queue_answers_exists: "\<exists>answers. queue_answers nonblock queue answers"
proof (induction "length queue" arbitrary: queue rule: less_induct)
  case less
  show ?case
  proof (cases "queue = []")
    case True
    then show ?thesis by (auto intro: drained)
  next
    case False
    then have "length (drop BUFFER_SIZE queue) < length queue" by (simp add: BUFFER_SIZE_def)
    from less[OF this] obtain answers where "queue_answers nonblock (drop BUFFER_SIZE queue) answers" ..
    with False show ?thesis by (auto intro: queued)
  qed
qed

section \<open>Sending\<close>

text \<open>
  \<^verbatim>\<open>sendmsg\<close> accepts a number of bytes, would block, or fails otherwise. The result is what went
  out, with how often the socket was polled for room; \<open>None\<close> is a call that does not return.
\<close>

datatype send_answer = Sent nat | WouldBlock | SendFailed

fun transmit :: "byte list \<Rightarrow> send_answer list \<Rightarrow> nat \<Rightarrow> (byte list \<times> nat \<times> send_answer list) option" where
  "transmit data [] polls = None"
| "transmit data (WouldBlock # answers) polls = transmit data answers (Suc polls)"
| "transmit data (Sent n # answers) polls = Some (take n data, polls, answers)"
| "transmit data (SendFailed # answers) polls = Some ([], polls, answers)"

text \<open>The loop with its guard: nothing is sent on a descriptor that is not valid.\<close>

definition send_loop :: "bool \<Rightarrow> byte list \<Rightarrow> send_answer list \<Rightarrow> (byte list \<times> nat \<times> send_answer list) option" where
  "send_loop valid data answers = (if valid then transmit data answers 0 else Some ([], 0, answers))"

lemma transmit_waits: "transmit data (replicate k WouldBlock @ answers) polls = transmit data answers (k + polls)"
  by (induction k arbitrary: polls) simp_all

text \<open>What a socket puts on the wire for the messages it is asked to send, one after the other.\<close>

fun transmit_all :: "byte list list \<Rightarrow> send_answer list \<Rightarrow> byte list option" where
  "transmit_all [] answers = Some []"
| "transmit_all (m # ms) answers =
     (case send_loop True m answers of
        None \<Rightarrow> None
      | Some (out, _, answers') \<Rightarrow> map_option ((@) out) (transmit_all ms answers'))"

section \<open>Properties\<close>

text \<open>C38. Reads of whole buffers (bounds). Bytes waiting in the queue of a stream socket are read completely when
  their number is not a multiple of 8192. A multiple of 8192 is lost: after the last full
  buffer \<^verbatim>\<open>parseFromFd\<close> asks once more, and on a non-blocking descriptor the failure of that
  call marks everything read as bad - the client then drops the connection without looking
  at a byte - while on a blocking one, as the server has, the call does not return.\<close>

theorem read_boundary:
  assumes "queue_answers nonblock queue answers"
  shows "(length queue mod 8192 \<noteq> 0 \<longrightarrow> (\<exists>rest. parseFromFd answers = Some (Some (queue, []), rest))) \<and>
    (length queue mod 8192 = 0 \<and> nonblock \<longrightarrow> parseFromFd answers = Some (None, []) \<and>
       (\<forall>env inp s. parseFromFd answers = Some (di_read inp, []) \<longrightarrow>
          dispatch_read env inp s = Some (Inr (False, disconnectOnError s)))) \<and>
    (length queue mod 8192 = 0 \<and> \<not> nonblock \<longrightarrow> parseFromFd answers = None)"
proof -
  note r = receive_queue[OF assms, of "[]" "[]", folded parseFromFd_def, unfolded BUFFER_SIZE_def append_Nil]
  show ?thesis
  proof (cases "length queue mod 8192 = 0")
    case True
    then show ?thesis using r by (auto simp: dispatch_read_def)
  next
    case False
    then show ?thesis using r by auto
  qed
qed

theorem read_boundary_witness:
  "\<exists>answers. queue_answers True (replicate 8192 7) answers \<and> parseFromFd answers = Some (None, []) \<and>
     (\<exists>rest. queue_answers True [7 :: byte] rest \<and> (\<exists>more. parseFromFd rest = Some (Some ([7], []), more)))"
proof -
  obtain a b where "queue_answers True (replicate 8192 (7 :: byte)) a" "queue_answers True [7 :: byte] b"
    using queue_answers_exists by blast
  then show ?thesis using read_boundary[of True "replicate 8192 7" a] read_boundary[of True "[7]" b] by auto
qed

text \<open>A socket writes its messages in order, each after as many polls as the
  kernel had no room; a message for which \<^verbatim>\<open>sendmsg\<close> reports fewer bytes than it has is cut
  there and the next message follows, since the count is not looked at.\<close>

theorem wire_output:
  assumes "answers = concat (map (\<lambda>(k, n, m). replicate k WouldBlock @ [Sent n]) sends)"
  shows "transmit_all (map (snd \<circ> snd) sends) answers = Some (concat (map (\<lambda>(k, n, m). take n m) sends)) \<and>
    (list_all (\<lambda>(k, n, m). length m \<le> n) sends \<longrightarrow>
       transmit_all (map (snd \<circ> snd) sends) answers = Some (concat (map (snd \<circ> snd) sends)))"
proof -
  have out: "transmit_all (map (snd \<circ> snd) sends) (concat (map (\<lambda>(k, n, m). replicate k WouldBlock @ [Sent n]) sends)) =
      Some (concat (map (\<lambda>(k, n, m). take n m) sends))"
    by (induction sends) (auto simp: send_loop_def transmit_waits)
  have "list_all (\<lambda>(k, n, m). length m \<le> n) sends \<Longrightarrow>
      concat (map (\<lambda>(k, n, m). take n m) sends) = concat (map (snd \<circ> snd) sends)"
    by (induction sends) auto
  with out assms show ?thesis by simp
qed

end
