(* ===== verification/Poll_Thread.thy ===== *)
theory Poll_Thread
  imports Prelude
begin

text \<open>
  The thread \<^verbatim>\<open>extractLoopFD\<close> starts (\<^verbatim>\<open>ServerSocket.cpp\<close>), which polls for the user and makes
  the exported pipe readable, together with the dispatching thread and the destructor. A
  section under a mutex is one step; everything else may interleave, and input may arrive at
  any time. What is shared are the two flags, the bytes in the export, wakeup and exit pipes,
  who holds \<^verbatim>\<open>m_pollmtx\<close>, and the input that nobody has read.
\<close>

section \<open>State\<close>

text \<open>
  The thread: at the head of its loop, before the list of descriptors is collected, in
  \<^verbatim>\<open>poll\<close>, past it, before the notification, in \<^verbatim>\<open>wait_for\<close>, and ended. The dispatching
  thread: outside \<^verbatim>\<open>dispatchEvents\<close>, serving, in \<^verbatim>\<open>clearEventFd\<close>, in \<^verbatim>\<open>clearWakeupFd\<close>, past
  them - a blocking dispatch then polls and serves once more -, and with
  \<^verbatim>\<open>m_pollmtx\<close> released but \<^verbatim>\<open>m_pollEvent\<close> not yet reset.

  The thread polls the descriptors it collected: \<open>ps_ready\<close> says that one of them has input
  nobody has read, \<open>ps_late\<close> that a client added since then has, \<open>ps_unlisted\<close> that there may
  be such a client (there is before the first list). \<open>ps_adding\<close> counts the calls of
  \<^verbatim>\<open>addClient\<close> that have stored their client and not yet written the wakeup byte.
\<close>

datatype thread_pc = Looping | Collecting | Polling | Polled | Notifying | Waiting | Exited

datatype dispatch_pc = Outside | Serving | ClearingEvent | ClearingWakeup | Drained | Unlocked

record poll_state =
  ps_thread :: thread_pc
  ps_dispatch :: dispatch_pc
  ps_threadCanPoll :: bool
  ps_pollEvent :: bool
  ps_export :: nat
  ps_wakeup :: nat
  ps_exit :: nat
  ps_ready :: bool
  ps_late :: bool
  ps_unlisted :: bool
  ps_adding :: nat

text \<open>The wakeup pipe is older than the thread and may hold bytes of clients added before.\<close>

definition poll_start :: "nat \<Rightarrow> poll_state" where
  "poll_start wakeup = \<lparr>ps_thread = Looping, ps_dispatch = Outside, ps_threadCanPoll = True, ps_pollEvent = False,
     ps_export = 0, ps_wakeup = wakeup, ps_exit = 0, ps_ready = False, ps_late = False, ps_unlisted = True,
     ps_adding = 0\<rparr>"

definition pollmtx_free :: "poll_state \<Rightarrow> bool" where
  "pollmtx_free s \<longleftrightarrow> ps_dispatch s = Outside \<or> ps_dispatch s = Unlocked"

section \<open>Steps\<close>

text \<open>
  The poll thread. \<^verbatim>\<open>poll\<close> returns for input on a collected descriptor or a byte in the exit
  or the wakeup pipe. \<^verbatim>\<open>wait_for\<close> returns when the event is handled, or - \<open>timeout\<close> - when its
  five seconds are over.
\<close>

inductive thread_step :: "bool \<Rightarrow> poll_state \<Rightarrow> poll_state \<Rightarrow> bool" for timeout where
  loop: "ps_thread s = Looping \<Longrightarrow> ps_threadCanPoll s \<Longrightarrow> thread_step timeout s (s\<lparr>ps_thread := Collecting\<rparr>)"
| leave: "ps_thread s = Looping \<Longrightarrow> \<not> ps_threadCanPoll s \<Longrightarrow> thread_step timeout s (s\<lparr>ps_thread := Exited\<rparr>)"
| collect: "ps_thread s = Collecting \<Longrightarrow> pollmtx_free s \<Longrightarrow>
    thread_step timeout s (s\<lparr>ps_thread := Polling, ps_ready := ps_ready s \<or> ps_late s, ps_late := False,
      ps_unlisted := False\<rparr>)"
| polled: "ps_thread s = Polling \<Longrightarrow> ps_ready s \<or> 0 < ps_exit s \<or> 0 < ps_wakeup s \<Longrightarrow>
    thread_step timeout s (s\<lparr>ps_thread := Polled\<rparr>)"
| stopped: "ps_thread s = Polled \<Longrightarrow> \<not> ps_threadCanPoll s \<Longrightarrow> thread_step timeout s (s\<lparr>ps_thread := Exited\<rparr>)"
| go_on: "ps_thread s = Polled \<Longrightarrow> ps_threadCanPoll s \<Longrightarrow> thread_step timeout s (s\<lparr>ps_thread := Notifying\<rparr>)"
| notify: "ps_thread s = Notifying \<Longrightarrow>
    thread_step timeout s (s\<lparr>ps_thread := Waiting, ps_pollEvent := True, ps_export := Suc (ps_export s)\<rparr>)"
| waited: "ps_thread s = Waiting \<Longrightarrow> \<not> ps_pollEvent s \<or> timeout \<Longrightarrow> thread_step timeout s (s\<lparr>ps_thread := Looping\<rparr>)"

text \<open>Input arrives on a descriptor of the last list, or on a client that is not in it.\<close>

inductive input_step :: "poll_state \<Rightarrow> poll_state \<Rightarrow> bool" where
  arrives: "input_step s (s\<lparr>ps_ready := True\<rparr>)"
| arrives_late: "ps_unlisted s \<Longrightarrow> input_step s (s\<lparr>ps_late := True\<rparr>)"

text \<open>
  \<^verbatim>\<open>dispatchEvents\<close>: under \<^verbatim>\<open>m_pollmtx\<close> it accepts clients and serves them until no
  descriptor has input, and empties the export and the wakeup pipe, at most 127 bytes a read
  (\<^verbatim>\<open>clearFd\<close>); a blocking dispatch then accepts and serves again. At last it resets the flag
  under \<^verbatim>\<open>m_exportPollMtx\<close>. \<^verbatim>\<open>addClient\<close> stores the client, then writes to the wakeup pipe.
\<close>

inductive dispatch_step :: "poll_state \<Rightarrow> poll_state \<Rightarrow> bool" where
  enter: "ps_dispatch s = Outside \<Longrightarrow> dispatch_step s (s\<lparr>ps_dispatch := Serving\<rparr>)"
| accept: "ps_dispatch s = Serving \<or> ps_dispatch s = Drained \<Longrightarrow> ps_ready s \<Longrightarrow>
    dispatch_step s (s\<lparr>ps_unlisted := True\<rparr>)"
| served: "ps_dispatch s = Serving \<Longrightarrow>
    dispatch_step s (s\<lparr>ps_dispatch := ClearingEvent, ps_ready := False, ps_late := False\<rparr>)"
| read_export: "ps_dispatch s = ClearingEvent \<Longrightarrow> 0 < ps_export s \<Longrightarrow>
    dispatch_step s (s\<lparr>ps_export := ps_export s - 127\<rparr>)"
| event_cleared: "ps_dispatch s = ClearingEvent \<Longrightarrow> ps_export s = 0 \<Longrightarrow>
    dispatch_step s (s\<lparr>ps_dispatch := ClearingWakeup\<rparr>)"
| read_wakeup: "ps_dispatch s = ClearingWakeup \<Longrightarrow> 0 < ps_wakeup s \<Longrightarrow>
    dispatch_step s (s\<lparr>ps_wakeup := ps_wakeup s - 127\<rparr>)"
| emptied: "ps_dispatch s = ClearingWakeup \<Longrightarrow> ps_wakeup s = 0 \<Longrightarrow> dispatch_step s (s\<lparr>ps_dispatch := Drained\<rparr>)"
| served_again: "ps_dispatch s = Drained \<Longrightarrow> dispatch_step s (s\<lparr>ps_ready := False, ps_late := False\<rparr>)"
| unlock: "ps_dispatch s = Drained \<Longrightarrow> dispatch_step s (s\<lparr>ps_dispatch := Unlocked\<rparr>)"
| handled: "ps_dispatch s = Unlocked \<Longrightarrow> dispatch_step s (s\<lparr>ps_dispatch := Outside, ps_pollEvent := False\<rparr>)"
| add_client: "dispatch_step s (s\<lparr>ps_unlisted := True, ps_adding := Suc (ps_adding s)\<rparr>)"
| wake: "0 < ps_adding s \<Longrightarrow> dispatch_step s (s\<lparr>ps_adding := ps_adding s - 1, ps_wakeup := Suc (ps_wakeup s)\<rparr>)"

text \<open>The destructor up to \<^verbatim>\<open>join\<close>, one assignment after the other.\<close>

inductive destroy_step :: "poll_state \<Rightarrow> poll_state \<Rightarrow> bool" where
  stop_polling: "ps_dispatch s = Outside \<Longrightarrow> destroy_step s (s\<lparr>ps_threadCanPoll := False\<rparr>)"
| drop_event: "\<not> ps_threadCanPoll s \<Longrightarrow> destroy_step s (s\<lparr>ps_pollEvent := False\<rparr>)"
| write_exit: "\<not> ps_threadCanPoll s \<Longrightarrow> destroy_step s (s\<lparr>ps_exit := Suc (ps_exit s)\<rparr>)"

inductive poll_reachable :: "poll_state \<Rightarrow> bool" where
  started: "poll_reachable (poll_start wakeup)"
| arrived: "poll_reachable s \<Longrightarrow> input_step s t \<Longrightarrow> poll_reachable t"
| threaded: "poll_reachable s \<Longrightarrow> thread_step timeout s t \<Longrightarrow> poll_reachable t"
| dispatched: "poll_reachable s \<Longrightarrow> ps_threadCanPoll s \<Longrightarrow> dispatch_step s t \<Longrightarrow> poll_reachable t"
| destroyed: "poll_reachable s \<Longrightarrow> destroy_step s t \<Longrightarrow> poll_reachable t"

inductive_cases thread_stepE: "thread_step timeout s t"
inductive_cases input_stepE: "input_step s t"
inductive_cases dispatch_stepE: "dispatch_step s t"
inductive_cases destroy_stepE: "destroy_step s t"

section \<open>Properties\<close>

text \<open>
  An event that is announced and not handled has its byte in the export pipe, or the
  dispatching thread is past serving and about to reset the flag; and the thread only ends
  when it is told to.
\<close>

definition event_visible :: "poll_state \<Rightarrow> bool" where
  "event_visible s \<longleftrightarrow>
     (ps_pollEvent s \<longrightarrow> 0 < ps_export s \<or> ps_dispatch s \<in> {ClearingEvent, ClearingWakeup, Drained, Unlocked}) \<and>
     (ps_thread s = Exited \<longrightarrow> \<not> ps_threadCanPoll s)"

lemma thread_visible: "thread_step timeout s t \<Longrightarrow> event_visible s \<Longrightarrow> event_visible t"
  by (erule thread_stepE) (simp_all add: event_visible_def)

lemma input_visible: "input_step s t \<Longrightarrow> event_visible s \<Longrightarrow> event_visible t"
  by (erule input_stepE) (simp_all add: event_visible_def)

lemma dispatch_visible: "dispatch_step s t \<Longrightarrow> event_visible s \<Longrightarrow> event_visible t"
  by (erule dispatch_stepE) (auto simp: event_visible_def)

lemma destroy_visible: "destroy_step s t \<Longrightarrow> event_visible s \<Longrightarrow> event_visible t"
  by (erule destroy_stepE) (simp_all add: event_visible_def)

lemma reachable_visible: "poll_reachable s \<Longrightarrow> event_visible s"
proof (induction rule: poll_reachable.induct)
  case started
  then show ?case by (simp add: event_visible_def poll_start_def)
qed (blast intro: thread_visible input_visible dispatch_visible destroy_visible)+

text \<open>
  Input the thread will come upon: it is on the list, or the next list will have it and
  nothing keeps the thread in \<^verbatim>\<open>poll\<close>.
\<close>

definition input_pending :: "poll_state \<Rightarrow> bool" where
  "input_pending s \<longleftrightarrow> ps_ready s \<or> ps_late s \<and> (ps_thread s = Polling \<longrightarrow> 0 < ps_wakeup s)"

text \<open>The thread on its way to the notification, and how far it is.\<close>

definition will_notify :: "poll_state \<Rightarrow> bool" where
  "will_notify s \<longleftrightarrow> ps_threadCanPoll s \<and> ps_dispatch s = Outside \<and> \<not> ps_pollEvent s \<and> ps_thread s \<noteq> Exited \<and>
     input_pending s"

fun until_notified :: "thread_pc \<Rightarrow> nat" where
  "until_notified Notifying = 0"
| "until_notified Polled = 1"
| "until_notified Polling = 2"
| "until_notified Collecting = 3"
| "until_notified Looping = 4"
| "until_notified Waiting = 5"
| "until_notified Exited = 0"

lemma notifying_step:
  assumes "will_notify s" and "ps_thread s = Notifying"
  shows "(\<exists>t. thread_step timeout s t) \<and> (\<forall>t. thread_step timeout s t \<longrightarrow> 0 < ps_export t)"
  using notify[OF assms(2), of timeout] assms(2) by (intro conjI) (blast, auto elim!: thread_stepE)

lemma will_notify_enabled:
  assumes "will_notify s"
  shows "\<exists>t. thread_step timeout s t"
  using assms loop[of s timeout] collect[of s timeout] polled[of s timeout] go_on[of s timeout] notify[of s timeout] waited[of s timeout]
  by (cases "ps_thread s") (auto simp: will_notify_def input_pending_def pollmtx_free_def)

lemma will_notify_step:
  "thread_step timeout s t \<Longrightarrow> will_notify s \<Longrightarrow> ps_thread s \<noteq> Notifying \<Longrightarrow>
     will_notify t \<and> until_notified (ps_thread s) = Suc (until_notified (ps_thread t))"
  by (erule thread_stepE) (auto simp: will_notify_def input_pending_def)

lemma notified:
  "will_notify s \<Longrightarrow> until_notified (ps_thread s) = n \<Longrightarrow>
     (\<exists>t. (thread_step False ^^ Suc n) s t) \<and> (\<forall>t. (thread_step True ^^ Suc n) s t \<longrightarrow> 0 < ps_export t)"
proof (induction n arbitrary: s)
  case 0
  then have "ps_thread s = Notifying" by (cases "ps_thread s") (simp_all add: will_notify_def)
  then show ?case using notifying_step[OF 0(1)] by (auto simp: eq_OO)
next
  case (Suc n)
  then have "ps_thread s \<noteq> Notifying" by auto
  then have step: "will_notify t \<and> until_notified (ps_thread t) = n" if "thread_step timeout s t" for timeout t
    using will_notify_step[OF that Suc.prems(1)] Suc.prems(2) by simp
  obtain u where u: "thread_step False s u" using will_notify_enabled[OF Suc.prems(1)] by blast
  with Suc.IH step obtain t where "(thread_step False ^^ Suc n) u t" by blast
  with u have "(thread_step False ^^ Suc (Suc n)) s t" by (rule relpowp_Suc_I2)
  moreover have "0 < ps_export t" if run: "(thread_step True ^^ Suc (Suc n)) s t" for t
  proof -
    from relpowp_Suc_D2[OF run] obtain v where "thread_step True s v" "(thread_step True ^^ Suc n) v t" by blast
    with Suc.IH step show ?thesis by blast
  qed
  ultimately show ?case by blast
qed

text \<open>The destructor has run: the flag is down, the exit byte written, nobody dispatches.\<close>

definition shut_down :: "poll_state \<Rightarrow> bool" where
  "shut_down s \<longleftrightarrow> \<not> ps_threadCanPoll s \<and> 0 < ps_exit s \<and> ps_dispatch s = Outside"

fun steps_left :: "thread_pc \<Rightarrow> nat" where
  "steps_left Exited = 0"
| "steps_left Looping = 1"
| "steps_left Polled = 1"
| "steps_left Waiting = 2"
| "steps_left Polling = 2"
| "steps_left Collecting = 3"
| "steps_left Notifying = 3"

lemma shut_down_step:
  "thread_step timeout s t \<Longrightarrow> shut_down s \<Longrightarrow> shut_down t \<and> steps_left (ps_thread t) < steps_left (ps_thread s)"
  by (erule thread_stepE) (simp_all add: shut_down_def)

lemma shut_down_enabled:
  assumes "shut_down s" and "ps_thread s \<noteq> Exited"
  shows "\<exists>t. thread_step True s t"
  using assms collect[of s True] leave[of s True] polled[of s True] stopped[of s True] notify[of s True] waited[of s True]
  by (cases "ps_thread s") (auto simp: shut_down_def pollmtx_free_def)

text \<open>C24. No lost input (invariant). In every interleaving of the poll thread, of dispatches, of accepted and added
  clients, of arriving input and of the destructor: whenever nobody dispatches and there is
  unread input on a descriptor the thread has listed, or on a newer client the thread will
  list - it is not in \<^verbatim>\<open>poll\<close>, or a wakeup byte is there to end it -, the exported descriptor is
  readable, or the thread makes it so by itself: within six of its steps, none of them the
  timeout, and whatever it does. This holds for input that arrives, and for events announced,
  while a dispatch is past serving the clients and drains the pipes.\<close>

theorem no_lost_event:
  assumes "poll_reachable s" and "ps_threadCanPoll s" and "ps_dispatch s = Outside"
    and "ps_ready s \<or> ps_late s \<and> (ps_thread s = Polling \<longrightarrow> 0 < ps_wakeup s)"
  shows "0 < ps_export s \<or>
    (\<exists>n \<le> 6. (\<exists>t. (thread_step False ^^ n) s t) \<and> (\<forall>t. (thread_step True ^^ n) s t \<longrightarrow> 0 < ps_export t))"
proof (cases "ps_pollEvent s")
  case True
  then show ?thesis using reachable_visible[OF assms(1)] assms(3) by (simp add: event_visible_def)
next
  case False
  then have "will_notify s"
    using reachable_visible[OF assms(1)] assms by (auto simp: will_notify_def input_pending_def event_visible_def)
  moreover have "Suc (until_notified (ps_thread s)) \<le> 6" by (cases "ps_thread s") simp_all
  ultimately show ?thesis using notified[OF _ refl] by blast
qed

text \<open>A dispatch is at its end when the thread announces input that nobody has read.\<close>

definition draining :: "thread_pc \<Rightarrow> dispatch_pc \<Rightarrow> bool \<Rightarrow> nat \<Rightarrow> bool \<Rightarrow> bool \<Rightarrow> poll_state" where
  "draining th d ev export ready unlisted = (poll_start 0)
     \<lparr>ps_thread := th, ps_dispatch := d, ps_pollEvent := ev, ps_export := export, ps_ready := ready,
      ps_unlisted := unlisted\<rparr>"

lemma draining_steps:
  "thread_step False (draining Looping d ev e r u) (draining Collecting d ev e r u)"
  "thread_step False (draining Collecting Outside ev e r u) (draining Polling Outside ev e r False)"
  "input_step (draining th d ev e r u) (draining th d ev e True u)"
  "dispatch_step (draining th Outside ev e r u) (draining th Serving ev e r u)"
  "dispatch_step (draining th Serving ev e r u) (draining th ClearingEvent ev e False u)"
  "thread_step False (draining Polling d ev e True u) (draining Polled d ev e True u)"
  "thread_step False (draining Polled d ev e r u) (draining Notifying d ev e r u)"
  "thread_step False (draining Notifying d ev e r u) (draining Waiting d True (Suc e) r u)"
  "e < 127 \<Longrightarrow> 0 < e \<Longrightarrow> dispatch_step (draining th ClearingEvent ev e r u) (draining th ClearingEvent ev 0 r u)"
  "dispatch_step (draining th ClearingEvent ev 0 r u) (draining th ClearingWakeup ev 0 r u)"
  "dispatch_step (draining th ClearingWakeup ev e r u) (draining th Drained ev e r u)"
  "dispatch_step (draining th Drained ev e r u) (draining th Unlocked ev e r u)"
  "dispatch_step (draining th Unlocked ev e r u) (draining th Outside False e r u)"
  using loop[of "draining Looping d ev e r u" False] collect[of "draining Collecting Outside ev e r u" False]
    arrives[of "draining th d ev e r u"] enter[of "draining th Outside ev e r u"] served[of "draining th Serving ev e r u"]
    polled[of "draining Polling d ev e True u" False] go_on[of "draining Polled d ev e r u" False]
    notify[of "draining Notifying d ev e r u" False] read_export[of "draining th ClearingEvent ev e r u"]
    event_cleared[of "draining th ClearingEvent ev 0 r u"] emptied[of "draining th ClearingWakeup ev e r u"]
    unlock[of "draining th Drained ev e r u"] handled[of "draining th Unlocked ev e r u"]
  by (simp_all add: draining_def poll_start_def pollmtx_free_def)

lemma draining_polling: "poll_reachable (draining Polling Outside False 0 False False)"
proof -
  have start: "poll_reachable (draining Looping Outside False 0 False True)"
    using started[of 0] by (simp add: draining_def poll_start_def)
  show ?thesis using threaded[OF threaded[OF start draining_steps(1)] draining_steps(2)] .
qed

lemma draining_can_poll [simp]: "ps_threadCanPoll (draining th d ev e r u)"
  by (simp add: draining_def poll_start_def)

lemmas drained_by = dispatched[OF _ draining_can_poll]

lemma announced_late_reachable: "poll_reachable (draining Waiting Outside False 0 True False)"
proof -
  have "poll_reachable (draining Polling ClearingEvent False 0 True False)"
    using arrived[OF drained_by[OF drained_by[OF draining_polling draining_steps(4)] draining_steps(5)] draining_steps(3)] .
  then have "poll_reachable (draining Waiting ClearingEvent True (Suc 0) True False)"
    by (rule threaded[OF threaded[OF threaded]]) (rule draining_steps)+
  then have "poll_reachable (draining Waiting ClearingWakeup True 0 True False)"
    by (rule drained_by[OF drained_by]) (rule draining_steps; simp)+
  then show ?thesis by (rule drained_by[OF drained_by[OF drained_by]]) (rule draining_steps)+
qed

theorem no_lost_event_witness:
  "\<exists>n \<le> 6. \<exists>t. (thread_step False ^^ n) (draining Waiting Outside False 0 True False) t \<and> 0 < ps_export t"
proof -
  let ?s = "draining Waiting Outside False 0 True False"
  have "thread_step False \<le> thread_step True" by (auto elim!: thread_stepE intro: thread_step.intros)
  then have "thread_step False ^^ n \<le> thread_step True ^^ n" for n by (induction n) (auto intro: relcompp_mono)
  then show ?thesis
    using no_lost_event[OF announced_late_reachable] by (fastforce simp: draining_def poll_start_def)
qed

text \<open>
  Input on a newer client while the thread is in \<^verbatim>\<open>poll\<close> and the wakeup byte is gone is not
  announced: a dispatch that accepts a client before the thread's \<^verbatim>\<open>poll\<close> has seen the
  connection writes no wakeup byte (shown here), and one that follows \<^verbatim>\<open>addClient\<close> may read the
  byte before the thread has seen it. The thread then polls the old list until something else
  happens.
\<close>

theorem late_client_unseen:
  "\<exists>s. poll_reachable s \<and> ps_threadCanPoll s \<and> ps_dispatch s = Outside \<and> ps_thread s = Polling \<and> ps_late s \<and>
     ps_adding s = 0 \<and> ps_export s = 0 \<and> (\<forall>timeout t. \<not> thread_step timeout s t)"
proof -
  let ?d = "draining Polling"
  have "poll_reachable (?d Serving False 0 True False)"
    using drained_by[OF arrived[OF draining_polling draining_steps(3)] draining_steps(4)] .
  then have "poll_reachable (?d Serving False 0 True True)"
    using drained_by[OF _ accept[of "?d Serving False 0 True False"]] by (simp add: draining_def poll_start_def)
  then have "poll_reachable (?d Outside False 0 False True)"
    by (rule drained_by[OF drained_by[OF drained_by[OF drained_by[OF drained_by]]]]) (rule draining_steps)+
  then have "poll_reachable ((?d Outside False 0 False True)\<lparr>ps_late := True\<rparr>)"
    using arrived[OF _ arrives_late] by (simp add: draining_def)
  moreover have "\<not> thread_step timeout ((?d Outside False 0 False True)\<lparr>ps_late := True\<rparr>) t" for timeout t
    by (auto elim!: thread_stepE simp: draining_def poll_start_def)
  ultimately show ?thesis
    by (intro exI[of _ "(?d Outside False 0 False True)\<lparr>ps_late := True\<rparr>"]) (simp add: draining_def poll_start_def)
qed

text \<open>The thread is joined (termination). Once the destructor has lowered the flag and written the exit byte, the
  poll thread ends after at most three more steps, wherever it was and whatever happens on
  the sockets; and until it has ended one of its steps is possible with no event from
  outside - at worst the timeout of \<^verbatim>\<open>wait_for\<close> -, so \<^verbatim>\<open>join\<close> returns.\<close>

theorem shutdown_joins:
  assumes "\<not> ps_threadCanPoll s" and "0 < ps_exit s" and "ps_dispatch s = Outside"
    and "(thread_step timeout ^^ n) s t"
  shows "n \<le> 3 \<and> (ps_thread t = Exited \<or> (\<exists>u. thread_step True t u))"
proof -
  have "(thread_step timeout ^^ n) s t \<Longrightarrow> shut_down t \<and> n + steps_left (ps_thread t) \<le> steps_left (ps_thread s)" for t
  proof (induction n arbitrary: t)
    case 0
    with assms(1-3) show ?case by (simp add: shut_down_def)
  next
    case (Suc n)
    then obtain u where "(thread_step timeout ^^ n) s u" "thread_step timeout u t" by auto
    with Suc.IH[of u] shut_down_step[of timeout u t] show ?case by auto
  qed
  moreover have "steps_left (ps_thread s) \<le> 3" by (cases "ps_thread s") simp_all
  ultimately show ?thesis using shut_down_enabled assms(4) by fastforce
qed

definition shutting :: "thread_pc \<Rightarrow> poll_state" where
  "shutting pc = (poll_start 0)\<lparr>ps_thread := pc, ps_threadCanPoll := False, ps_exit := 1\<rparr>"

theorem shutdown_joins_witness:
  "(thread_step False ^^ 1) (shutting Waiting) (shutting Looping) \<and> (\<exists>u. thread_step True (shutting Looping) u)"
proof -
  have run: "(thread_step False ^^ 1) (shutting Waiting) (shutting Looping)"
    using waited[of "shutting Waiting" False] by (simp add: shutting_def poll_start_def eq_OO)
  from shutdown_joins[of "shutting Waiting", OF _ _ _ this] run show ?thesis
    by (simp add: shutting_def poll_start_def)
qed

end
