(* ===== verification/Message_Trace.thy ===== *)
theory Message_Trace
  imports Generic_Message Protocol_Spec
begin

text \<open>
  \<^verbatim>\<open>IMessage::parseData\<close> (\<^verbatim>\<open>IMessage.cpp\<close>): the line a message leaves in the trace log. How a
  float is printed is the parameter \<open>ffmt\<close>. The loop moves by lengths it reads from the
  bytes, on wrapping arithmetic, so it is a partial function.
\<close>

section \<open>Values\<close>

definition dec_i32 :: "u32 \<Rightarrow> string" where
  "dec_i32 v = (if sint v < 0 then ''-'' @ dec (nat (- sint v)) else dec (nat (sint v)))"

definition quoted :: "byte list \<Rightarrow> string" where
  "quoted bs = ''\"'' @ string_of bs @ ''\"''"

text \<open>
  \<^verbatim>\<open>formatPrimitiveType\<close> on the span from \<open>n\<close> to the end: the text and how many bytes were
  used. A string is parsed from a copy that leaves out the last byte.
\<close>

definition format_u32 :: "byte list \<Rightarrow> nat \<Rightarrow> (u32 \<Rightarrow> string) \<Rightarrow> (string \<times> nat) attempt" where
  "format_u32 data n show_value =
     (if ssub (length data) n < 4 then Inr ([], 0) else bnd (mem_u32 data n) (\<lambda>v. Inr (show_value v, 4)))"

definition formatPrimitiveType :: "(u32 \<Rightarrow> string) \<Rightarrow> byte list \<Rightarrow> nat \<Rightarrow> byte \<Rightarrow> (string \<times> nat) attempt" where
  "formatPrimitiveType ffmt data n t =
     (case magic_of t of
        Some TYPE_UINT \<Rightarrow> format_u32 data n dec_u32
      | Some TYPE_INT \<Rightarrow> format_u32 data n dec_i32
      | Some TYPE_F32 \<Rightarrow> format_u32 data n ffmt
      | Some TYPE_FD \<Rightarrow> Inr (''<fd>'', 0)
      | Some TYPE_OBJECT \<Rightarrow> format_u32 data n (\<lambda>v. ''object: '' @ (if v = 0 then ''null'' else dec_u32 v))
      | Some TYPE_VARCHAR \<Rightarrow>
          let size = ssub (length data) n in
          if size = 0 then Inl Undefined
          else
            bnd (mem_range data n (size - 1)) (\<lambda>copy.
            bnd (parseVarInt copy 0) (\<lambda>(len, intLen).
            if size \<le> intLen then Inl Undefined
            else bnd (mem_range data (n + intLen) len) (\<lambda>bs. Inr (quoted bs, sadd len intLen))))
      | _ \<Rightarrow> Inr ([], 0))"

section \<open>One value\<close>

fun trace_elems :: "(u32 \<Rightarrow> string) \<Rightarrow> byte list \<Rightarrow> byte \<Rightarrow> nat \<Rightarrow> nat \<Rightarrow> string \<Rightarrow> (nat \<times> string) attempt" where
  "trace_elems ffmt data t 0 n result = Inr (n, result)"
| "trace_elems ffmt data t (Suc k) n result =
     bnd (formatPrimitiveType ffmt data n t) (\<lambda>(str, len).
     trace_elems ffmt data t k (sadd n len) (result @ str @ '', ''))"

text \<open>A value of four bytes after its tag; \<open>n\<close> is the position after the tag.\<close>

definition trace_u32 :: "byte list \<Rightarrow> nat \<Rightarrow> (u32 \<Rightarrow> string) \<Rightarrow> string \<Rightarrow> (nat \<times> string) attempt" where
  "trace_u32 data n show_value result =
     (if 4 \<le> length data - n then bnd (at_u32 data n) (\<lambda>v. Inr (n + 4, result @ show_value v)) else Inr (n, result))"

definition trace_one :: "(u32 \<Rightarrow> string) \<Rightarrow> byte list \<Rightarrow> nat \<Rightarrow> byte \<Rightarrow> string \<Rightarrow> (nat \<times> string) attempt" where
  "trace_one ffmt data n b result =
     (case magic_of b of
        Some TYPE_SEQ \<Rightarrow> trace_u32 data n (\<lambda>v. ''seq: '' @ dec_i32 v) result
      | Some TYPE_UINT \<Rightarrow> trace_u32 data n dec_u32 result
      | Some TYPE_INT \<Rightarrow> trace_u32 data n dec_i32 result
      | Some TYPE_F32 \<Rightarrow> trace_u32 data n ffmt result
      | Some TYPE_VARCHAR \<Rightarrow>
          bnd (parseVarInt data n) (\<lambda>(len, intLen).
          if 0 < len then
            bnd (vec_at data (n + intLen)) (\<lambda>_.
            bnd (mem_range data (n + intLen) len) (\<lambda>bs. Inr (sadd n (sadd intLen len), result @ quoted bs)))
          else Inr (sadd n (sadd intLen len), result @ ''\"\"''))
      | Some TYPE_ARRAY \<Rightarrow>
          bnd (vec_at data n) (\<lambda>thisType.
          bnd (parseVarInt data (n + 1)) (\<lambda>(els, intLen).
          bnd (trace_elems ffmt data thisType els (n + 1 + intLen) (result @ ''{ '')) (\<lambda>(n', r).
          Inr (n', (if els \<noteq> 0 then butlast (butlast r) else r) @ '' }''))))
      | Some TYPE_OBJECT \<Rightarrow> trace_u32 data n (\<lambda>v. ''object('' @ dec_u32 v @ '')'') result
      | Some TYPE_FD \<Rightarrow> Inr (n, result @ ''<fd>'')
      | _ \<Rightarrow> Inr (n, result))"

section \<open>A message\<close>

partial_function (option) trace_loop ::
  "(u32 \<Rightarrow> string) \<Rightarrow> byte list \<Rightarrow> nat \<Rightarrow> string \<Rightarrow> (stop + string) option" where
  "trace_loop ffmt data needle result =
     (if needle < length data then
        obnd (trace_one ffmt data (needle + 1) (data ! needle) result) (\<lambda>(n, r).
        trace_loop ffmt data n (r @ '', ''))
      else Some (Inr result))"

text \<open>\<^verbatim>\<open>at(size() - 2)\<close> throws when the text is shorter than two characters.\<close>

definition trim_comma :: "string \<Rightarrow> string attempt" where
  "trim_comma r =
     (if length r < 2 then Inl OutOfRange
      else Inr (if r ! (length r - 2) = CHR '','' then butlast (butlast r) else r))"

definition parseData :: "(u32 \<Rightarrow> string) \<Rightarrow> message_type \<Rightarrow> byte list \<Rightarrow> (stop + string) option" where
  "parseData ffmt m_type m_data =
     Option.bind (trace_loop ffmt m_data 1 (messageTypeToStr m_type @ '' ( '')) (\<lambda>r.
     Some (bnd r (\<lambda>r. bnd (trim_comma r) (\<lambda>r. bnd (trim_comma r) (\<lambda>r. Inr (r @ '' ) ''))))))"

section \<open>The text of an argument\<close>

fun prim_text :: "(u32 \<Rightarrow> string) \<Rightarrow> message_magic \<Rightarrow> u32 \<Rightarrow> string" where
  "prim_text ffmt TYPE_SEQ v = ''seq: '' @ dec_i32 v"
| "prim_text ffmt TYPE_UINT v = dec_u32 v"
| "prim_text ffmt TYPE_INT v = dec_i32 v"
| "prim_text ffmt TYPE_F32 v = ffmt v"
| "prim_text ffmt TYPE_OBJECT v = ''object('' @ dec_u32 v @ '')''"
| "prim_text ffmt _ v = []"

fun elem_text :: "(u32 \<Rightarrow> string) \<Rightarrow> message_magic \<Rightarrow> u32 \<Rightarrow> string" where
  "elem_text ffmt TYPE_UINT v = dec_u32 v"
| "elem_text ffmt TYPE_INT v = dec_i32 v"
| "elem_text ffmt TYPE_F32 v = ffmt v"
| "elem_text ffmt TYPE_OBJECT v = ''object: '' @ (if v = 0 then ''null'' else dec_u32 v)"
| "elem_text ffmt _ v = []"

definition list_text :: "string list \<Rightarrow> string" where
  "list_text ts = ''{ '' @ butlast (butlast (concat (map (\<lambda>t. t @ '', '') ts))) @ '' }''"

fun arg_text :: "(u32 \<Rightarrow> string) \<Rightarrow> wire_arg \<Rightarrow> string" where
  "arg_text ffmt (WPrim m v) = prim_text ffmt m v"
| "arg_text ffmt (WStr s) = quoted s"
| "arg_text ffmt (WFd fd) = ''<fd>''"
| "arg_text ffmt (WArrPrim m vs) = list_text (map (elem_text ffmt m) vs)"
| "arg_text ffmt (WArrStr ss) = list_text (map quoted ss)"
| "arg_text ffmt (WArrFd fds) = list_text (map (\<lambda>_. ''<fd>'') fds)"

text \<open>The values a message can carry, but for arrays of sequences, which no sender writes.\<close>

fun traceable :: "wire_arg \<Rightarrow> bool" where
  "traceable (WArrPrim m vs) \<longleftrightarrow> prim32 m \<and> m \<noteq> TYPE_SEQ \<and> length vs < array_limit"
| "traceable a \<longleftrightarrow> wire_ok a"

section \<open>Tracing what stands in a buffer\<close>

lemma trace_u32_stands:
  "stands data n (u32_bytes v) \<Longrightarrow> trace_u32 data n f result = Inr (n + 4, result @ f v)"
  using at_u32_stands[of data n "u32_bytes v" 0] stands_length[of data n "u32_bytes v"]
  by (simp add: trace_u32_def)

lemma format_u32_stands:
  assumes "stands data n (u32_bytes v)" "vec_ok data"
  shows "format_u32 data n f = Inr (f v, 4)"
  using mem_u32_stands[of data n "u32_bytes v" 0] stands_length[OF assms(1)] assms vec_okD[OF assms(2)]
  by (simp add: format_u32_def size_simps)

lemma trace_u32_elems:
  assumes "vec_ok data" and "prim32 m" "m \<noteq> TYPE_SEQ"
  shows "stands data n (concat (map u32_bytes vs)) \<Longrightarrow>
    trace_elems ffmt data (magic_code m) (length vs) n result =
    Inr (n + 4 * length vs, result @ concat (map (\<lambda>t. t @ '', '') (map (elem_text ffmt m) vs)))"
proof (induction vs arbitrary: n result)
  case (Cons v vs)
  have st: "stands data n (u32_bytes v)" "stands data (n + 4) (concat (map u32_bytes vs))"
    using Cons.prems by simp_all
  have small: "sadd n 4 = n + 4"
    using stands_length[OF st(1)] vec_okD[OF assms(1)] by (simp add: size_simps)
  have "formatPrimitiveType ffmt data n (magic_code m) = Inr (elem_text ffmt m v, 4)"
    using assms(2,3) format_u32_stands[OF st(1) assms(1)] by (cases m) (simp_all add: formatPrimitiveType_def)
  with Cons.IH[OF st(2)] small show ?case by (simp add: add.assoc)
qed simp

lemma trace_fd_elems:
  assumes "n < 2 ^ 63"
  shows "trace_elems ffmt data (magic_code TYPE_FD) k n result =
    Inr (n, result @ concat (map (\<lambda>t. t @ '', '') (replicate k ''<fd>'')))"
proof (induction k arbitrary: result)
  case (Suc k)
  have "sadd n 0 = n" using assms by (simp add: size_simps)
  with Suc show ?case by (simp add: formatPrimitiveType_def)
qed simp

lemma trace_str_elems:
  assumes "vec_ok data"
  shows "\<forall>s \<in> set ss. length s < 2 ^ 28 \<Longrightarrow> stands data n (concat (map enc_bytes ss)) \<Longrightarrow>
    n + length (concat (map enc_bytes ss)) < length data \<Longrightarrow>
    trace_elems ffmt data (magic_code TYPE_VARCHAR) (length ss) n result =
    Inr (n + length (concat (map enc_bytes ss)), result @ concat (map (\<lambda>t. t @ '', '') (map quoted ss)))"
proof (induction ss arbitrary: n result)
  case (Cons s ss)
  have big: "length data < 9223372036854775808" using assms by (rule vec_okD)
  let ?e = "encodeVarInt (length s)"
  have st: "stands data n ?e" "stands data (n + length ?e) s" "stands data (n + length (enc_bytes s)) (concat (map enc_bytes ss))"
    using Cons.prems(2) by (simp_all add: enc_bytes_def[of s] add.assoc)
  have fin: "n + length ?e + length s < length data" using Cons.prems(3) by (simp add: length_enc_bytes)
  define size where "size = length data - n"
  have size: "ssub (length data) n = size" "size \<noteq> 0" "length ?e < size" "n + (size - 1) \<le> length data"
    using fin big by (simp_all add: size_def size_simps)
  let ?copy = "take (size - 1) (drop n data)"
  have "take (length ?e) ?copy = ?e"
    using st(1) size(3) by (simp add: stands_def min_absorb1)
  moreover have "length ?e \<le> length ?copy" using size(3) fin by (simp add: size_def)
  ultimately have "stands ?copy 0 ?e" by (simp add: stands_def)
  then have num: "parseVarInt ?copy 0 = Inr (length s, length ?e)"
    using Cons.prems(1) by (intro parse_encode) simp_all
  have "mem_range data (n + length ?e) (length s) = Inr s"
    using mem_range_stands[OF st(2), of 0 "length s"] by simp
  then have "formatPrimitiveType ffmt data n (magic_code TYPE_VARCHAR) = Inr (quoted s, length s + length ?e)"
    using size num fin big by (simp add: formatPrimitiveType_def Let_def mem_range_def size_simps)
  moreover have "sadd n (length s + length ?e) = n + length (enc_bytes s)"
    using fin big by (simp add: size_simps length_enc_bytes)
  moreover have "trace_elems ffmt data (magic_code TYPE_VARCHAR) (length ss) (n + length (enc_bytes s)) (result @ quoted s @ '', '') =
      Inr (n + length (enc_bytes s) + length (concat (map enc_bytes ss)), (result @ quoted s @ '', '') @ concat (map (\<lambda>t. t @ '', '') (map quoted ss)))"
    using Cons.prems by (intro Cons.IH st(3)) (simp_all add: add.assoc)
  ultimately show ?case by (simp add: add.assoc)
qed simp

lemma list_text_trace:
  "(if length ts \<noteq> 0 then butlast (butlast ((result @ ''{ '') @ concat (map (\<lambda>t. t @ '', '') ts)))
    else (result @ ''{ '') @ concat (map (\<lambda>t. t @ '', '') ts)) @ '' }'' = result @ list_text ts"
  by (cases ts rule: rev_cases) (simp_all add: list_text_def butlast_append)

lemma trace_array_stands:
  assumes st: "stands data p [magic_code TYPE_ARRAY, magic_code m]" and num: "stands data (p + 2) (encodeVarInt k)"
    and k: "k < 2 ^ 28"
    and elems: "trace_elems ffmt data (magic_code m) k (p + 2 + length (encodeVarInt k)) (result @ ''{ '') =
      Inr (q, (result @ ''{ '') @ concat (map (\<lambda>t. t @ '', '') ts))" and len: "length ts = k"
  shows "trace_one ffmt data (p + 1) (magic_code TYPE_ARRAY) result = Inr (q, result @ list_text ts)"
proof -
  have "vec_at data (p + 1) = Inr (magic_code m)" using st by (simp add: stands_Cons)
  moreover have "parseVarInt data (p + 1 + 1) = Inr (k, length (encodeVarInt k))"
    using parse_encode[OF num k] by (simp add: add.assoc)
  moreover note list_text_trace[of ts result, unfolded len]
  ultimately show ?thesis using elems
    by (simp add: trace_one_def add.assoc numeral_2_eq_2 del: append_assoc)
qed

lemma trace_one_consts:
  "trace_one ffmt data n (magic_code TYPE_FD) result = Inr (n, result @ ''<fd>'')"
  "trace_one ffmt data n (magic_code MAGIC_END) result = Inr (n, result)"
  by (simp_all add: trace_one_def)

lemma trace_prim_stands:
  "prim32 m \<Longrightarrow> stands data n (u32_bytes v) \<Longrightarrow>
     trace_one ffmt data n (magic_code m) result = Inr (n + 4, result @ prim_text ffmt m v)"
  by (cases m) (simp_all add: trace_one_def trace_u32_stands)

lemma trace_str_stands:
  assumes "stands data n (enc_bytes s)" "length s < 2 ^ 28" "vec_ok data"
  shows "trace_one ffmt data n (magic_code TYPE_VARCHAR) result = Inr (n + length (enc_bytes s), result @ quoted s)"
proof -
  let ?e = "encodeVarInt (length s)"
  have st: "stands data n ?e" "stands data (n + length ?e) s" using assms(1) by (simp_all add: enc_bytes_def)
  have "sadd n (sadd (length ?e) (length s)) = n + length (enc_bytes s)"
    using stands_length[OF assms(1)] vec_okD[OF assms(3)] by (simp add: size_simps length_enc_bytes)
  moreover have "s \<noteq> [] \<Longrightarrow> n + length ?e < length data" using stands_length[OF st(2)] by (cases s) simp_all
  moreover have "mem_range data (n + length ?e) (length s) = Inr s"
    using mem_range_stands[OF st(2), of 0 "length s"] by simp
  ultimately show ?thesis
    using parse_encode[OF st(1) assms(2)] by (cases "s = []") (simp_all add: trace_one_def quoted_def string_of_def)
qed

lemma trace_arg_stands:
  assumes ok: "traceable a" and st: "stands data p (wire_bytes a)" and v: "vec_ok data"
    and fin: "p + length (wire_bytes a) < length data"
  shows "trace_one ffmt data (p + 1) (hd (wire_bytes a)) result = Inr (p + length (wire_bytes a), result @ arg_text ffmt a)"
proof (cases a)
  case (WPrim m w)
  with st ok show ?thesis using trace_prim_stands[of m data "p + 1" w ffmt result] by (simp add: stands_Cons del: prim32.simps)
next
  case (WStr s)
  with st ok v show ?thesis using trace_str_stands[of data "p + 1" s ffmt result] by (simp add: stands_Cons)
next
  case (WFd fd)
  then show ?thesis using trace_one_consts(1)[of ffmt data "p + 1" result] by simp
next
  case (WArrPrim m vs)
  let ?l = "length (encodeVarInt (length vs))"
  from st have parts: "stands data p [magic_code TYPE_ARRAY, magic_code m]"
    "stands data (p + 2) (encodeVarInt (length vs))" "stands data (p + 2 + ?l) (concat (map u32_bytes vs))"
    unfolding WArrPrim wire_bytes.simps stands_append by (simp_all add: add.assoc eval_nat_numeral)
  have len: "length vs < 2 ^ 28" using ok WArrPrim by (simp add: array_limit_def)
  have e: "trace_elems ffmt data (magic_code m) (length vs) (p + 2 + ?l) (result @ ''{ '') = Inr (p + 2 + ?l + 4 * length vs,
      (result @ ''{ '') @ concat (map (\<lambda>t. t @ '', '') (map (elem_text ffmt m) vs)))"
    using ok WArrPrim by (intro trace_u32_elems v parts(3)) auto
  from trace_array_stands[OF parts(1,2) len e] show ?thesis by (simp add: WArrPrim add.assoc)
next
  case (WArrStr ss)
  let ?l = "length (encodeVarInt (length ss))"
  from st have parts: "stands data p [magic_code TYPE_ARRAY, magic_code TYPE_VARCHAR]"
    "stands data (p + 2) (encodeVarInt (length ss))" "stands data (p + 2 + ?l) (concat (map enc_bytes ss))"
    unfolding WArrStr wire_bytes.simps stands_append by (simp_all add: add.assoc eval_nat_numeral)
  have len: "length ss < 2 ^ 28" using ok WArrStr by (simp add: array_limit_def)
  have e: "trace_elems ffmt data (magic_code TYPE_VARCHAR) (length ss) (p + 2 + ?l) (result @ ''{ '') =
      Inr (p + 2 + ?l + length (concat (map enc_bytes ss)), (result @ ''{ '') @ concat (map (\<lambda>t. t @ '', '') (map quoted ss)))"
    using ok WArrStr fin by (intro trace_str_elems v parts(3)) (simp_all add: add.assoc)
  from trace_array_stands[OF parts(1,2) len e] show ?thesis by (simp add: WArrStr add.assoc)
next
  case (WArrFd fds)
  let ?l = "length (encodeVarInt (length fds))"
  from st have parts: "stands data p [magic_code TYPE_ARRAY, magic_code TYPE_FD]"
    "stands data (p + 2) (encodeVarInt (length fds))"
    unfolding WArrFd wire_bytes.simps stands_append by (simp_all add: add.assoc eval_nat_numeral)
  have len: "length fds < 2 ^ 28" using ok WArrFd by (simp add: array_limit_def)
  have "p + 2 + ?l < 2 ^ 63" using stands_length[OF parts(2)] vec_okD[OF v] by simp
  then have e: "trace_elems ffmt data (magic_code TYPE_FD) (length fds) (p + 2 + ?l) (result @ ''{ '') =
      Inr (p + 2 + ?l, (result @ ''{ '') @ concat (map (\<lambda>t. t @ '', '') (map (\<lambda>_. ''<fd>'') fds)))"
    by (simp only: map_replicate_const trace_fd_elems)
  from trace_array_stands[OF parts(1,2) len e] show ?thesis by (simp add: WArrFd add.assoc)
qed

section \<open>Tracing a message\<close>

lemma trace_args_stands:
  assumes v: "vec_ok data"
  shows "list_all traceable args \<Longrightarrow> stands data p (wire_args args @ [0]) \<Longrightarrow> p + length (wire_args args) + 1 = length data \<Longrightarrow>
    trace_loop ffmt data p result =
    Some (Inr (result @ concat (map (\<lambda>a. arg_text ffmt a @ '', '') args) @ '', ''))"
proof (induction args arbitrary: p result)
  case Nil
  have "trace_loop ffmt data (p + 1) (result @ '', '') = Some (Inr (result @ '', ''))"
    using Nil by (subst trace_loop.simps) simp
  then show ?case
    using Nil trace_one_consts(2)[of ffmt data "Suc p" result] by (subst trace_loop.simps) (simp add: stands_Cons)
next
  case (Cons a args)
  have st: "stands data p (wire_bytes a)" "stands data (p + length (wire_bytes a)) (wire_args args @ [0])"
    using Cons.prems(2) by (simp_all add: add.assoc)
  have fin: "p + length (wire_bytes a) < length data" using Cons.prems(3) by simp
  have hd: "data ! p = hd (wire_bytes a)" using stands_nth[OF st(1), of 0] by (simp add: hd_conv_nth)
  have one: "trace_one ffmt data (p + 1) (data ! p) result = Inr (p + length (wire_bytes a), result @ arg_text ffmt a)"
    unfolding hd using Cons.prems(1) by (intro trace_arg_stands st(1) v fin) simp
  have "trace_loop ffmt data (p + length (wire_bytes a)) ((result @ arg_text ffmt a) @ '', '') =
      Some (Inr (((result @ arg_text ffmt a) @ '', '') @ concat (map (\<lambda>a. arg_text ffmt a @ '', '') args) @ '', ''))"
    using Cons.prems by (intro Cons.IH st(2)) (simp_all add: add.assoc)
  moreover have "p < length data" using fin by simp
  ultimately show ?case using one by (subst trace_loop.simps) simp
qed

lemma trace_step:
  "needle < length data \<Longrightarrow> trace_one ffmt data (needle + 1) (data ! needle) result = Inr (n, r) \<Longrightarrow>
     trace_loop ffmt data needle result = trace_loop ffmt data n (r @ '', '')"
  by (subst trace_loop.simps) simp

lemma trim_comma_comma [simp]: "trim_comma (r @ '', '') = Inr r"
  by (simp add: trim_comma_def nth_append butlast_append)

text \<open>C39. The trace of a message (functional). The trace line of a generic message - the message the senders build and
  the parser accepts - names its object and its method and then every argument in order,
  each with its value, for all values and lengths; it is printed without an exception or a
  read outside the message.\<close>

theorem trace_generic:
  assumes "list_all traceable args" and "vec_ok (enc_Generic object meth args)"
  shows "parseData ffmt MSG_GENERIC_PROTOCOL_MESSAGE (enc_Generic object meth args) =
    Some (Inr (''GENERIC_PROTOCOL_MESSAGE ( object('' @ dec_u32 object @ ''), '' @ dec_u32 meth @
      concat (map (\<lambda>a. '', '' @ arg_text ffmt a) args) @ '' ) ''))"
proof -
  let ?d = "enc_Generic object meth args"
  let ?r = "''GENERIC_PROTOCOL_MESSAGE ( object('' @ dec_u32 object @ ''), ''"
  have st: "stands ?d 1 [magic_code TYPE_OBJECT]" "stands ?d 2 (u32_bytes object)" "stands ?d 6 [magic_code TYPE_UINT]"
    "stands ?d 7 (u32_bytes meth)" "stands ?d 11 (wire_args args @ [0])"
    using stands_self[of ?d] unfolding enc_Generic_def by (simp_all add: stands_Cons eval_nat_numeral)
  have len: "length ?d = 12 + length (wire_args args)" by simp
  have tags: "?d ! 1 = magic_code TYPE_OBJECT" "?d ! 6 = magic_code TYPE_UINT"
    using st(1,3) by (simp_all add: stands_Cons)
  have one: "trace_one ffmt ?d 2 (magic_code TYPE_OBJECT) r = Inr (6, r @ ''object('' @ dec_u32 object @ '')'')"
    "trace_one ffmt ?d 7 (magic_code TYPE_UINT) r = Inr (11, r @ dec_u32 meth)" for r
    using trace_prim_stands[OF _ st(2), of TYPE_OBJECT] trace_prim_stands[OF _ st(4), of TYPE_UINT] by simp_all
  have shift: "'', '' @ concat (map (\<lambda>a. arg_text ffmt a @ '', '') as) = concat (map (\<lambda>a. '', '' @ arg_text ffmt a) as) @ '', ''" for as
    by (induction as) simp_all
  have "trace_loop ffmt ?d 1 ''GENERIC_PROTOCOL_MESSAGE ( '' = trace_loop ffmt ?d 6 ?r"
  proof -
    have "trace_one ffmt ?d (1 + 1) (?d ! 1) ''GENERIC_PROTOCOL_MESSAGE ( '' =
        Inr (6, ''GENERIC_PROTOCOL_MESSAGE ( '' @ ''object('' @ dec_u32 object @ '')'')"
      unfolding tags one_add_one by (rule one(1))
    from trace_step[OF _ this] show ?thesis by (simp add: len)
  qed
  also have "\<dots> = trace_loop ffmt ?d 11 ((?r @ dec_u32 meth) @ '', '')"
    using one(2) tags(2) len by (intro trace_step) simp_all
  also have "\<dots> = Some (Inr (((?r @ dec_u32 meth) @ '', '') @ concat (map (\<lambda>a. arg_text ffmt a @ '', '') args) @ '', ''))"
    using assms len by (intro trace_args_stands st(5)) simp_all
  also have "((?r @ dec_u32 meth) @ '', '') @ concat (map (\<lambda>a. arg_text ffmt a @ '', '') args) @ '', '' =
      ((?r @ dec_u32 meth @ concat (map (\<lambda>a. '', '' @ arg_text ffmt a) args)) @ '', '') @ '', ''"
    using shift[of args] by simp
  finally have traced: "trace_loop ffmt ?d 1 ''GENERIC_PROTOCOL_MESSAGE ( '' =
      Some (Inr (((?r @ dec_u32 meth @ concat (map (\<lambda>a. '', '' @ arg_text ffmt a) args)) @ '', '') @ '', ''))" .
  have name: "messageTypeToStr MSG_GENERIC_PROTOCOL_MESSAGE @ '' ( '' = ''GENERIC_PROTOCOL_MESSAGE ( ''" by simp
  show ?thesis
    unfolding parseData_def name traced by (simp only: Option.bind.simps bnd_simps trim_comma_comma) simp
qed

theorem trace_generic_witness:
  "parseData (\<lambda>_. ''1.5'') MSG_GENERIC_PROTOCOL_MESSAGE
     (enc_Generic 3 0 [WStr [104, 105], WArrPrim TYPE_INT [7, - 2], WFd 9, WPrim TYPE_F32 5]) =
   Some (Inr ''GENERIC_PROTOCOL_MESSAGE ( object(3), 0, \"hi\", { 7, -2 }, <fd>, 1.5 ) '')"
proof -
  let ?args = "[WStr [104, 105], WArrPrim TYPE_INT [7, - 2], WFd 9, WPrim TYPE_F32 5]"
  have "length (encodeVarInt (Suc (Suc 0))) \<le> 4" by (rule length_encodeVarInt)
  then have v: "vec_ok (enc_Generic 3 0 ?args)" by (simp add: vec_ok_def length_enc_bytes)
  have t: "list_all traceable ?args" by (simp add: array_limit_def)
  have chars: "string_of [104, 105] = ''hi''" "digit_char 3 = CHR ''3''" "digit_char 0 = CHR ''0''" "digit_char 7 = CHR ''7''"
    "digit_char 2 = CHR ''2''"
    by (simp_all add: string_of_def digit_char_def char_of_def bit_simps)
  show ?thesis
    using trace_generic[OF t v, of "\<lambda>_. ''1.5''"]
    by (simp add: quoted_def list_text_def dec_u32_def dec_i32_def dec.simps chars)
qed

end
