(* ===== verification/Host.thy ===== *)
theory Host
  imports Client_Socket Server_Client
begin

text \<open>
  The small parts around the protocol: the cached trace switch (\<^verbatim>\<open>Env.cpp\<close>), the log
  (\<^verbatim>\<open>Log.hpp\<close>), the hooks in front of the system calls (\<^verbatim>\<open>Syscalls.cpp\<close>), the destruction
  callback of an object (\<^verbatim>\<open>Object.cpp\<close>, \<^verbatim>\<open>ServerObject.cpp\<close>), how a client opens a path
  and how long its handshake may take (\<^verbatim>\<open>ClientSocket.cpp\<close>), and what an object does whose
  connection is gone.
\<close>

section \<open>The trace switch\<close>

record trace_cache =
  tc_cached :: bool
  tc_trace :: bool

text \<open>The environment of the process is a parameter.\<close>

definition envEnabled :: "(string \<Rightarrow> string option) \<Rightarrow> string \<Rightarrow> bool" where
  "envEnabled getenv env = (case getenv env of None \<Rightarrow> False | Some sv \<Rightarrow> sv \<noteq> [] \<and> sv \<noteq> ''0'')"

definition isTrace :: "(string \<Rightarrow> string option) \<Rightarrow> trace_cache \<Rightarrow> bool \<times> trace_cache" where
  "isTrace getenv c =
     (let c = (if \<not> tc_cached c then c\<lparr>tc_trace := envEnabled getenv ''HW_TRACE'', tc_cached := True\<rparr> else c)
      in (tc_trace c, c))"

definition resetTraceCache :: "trace_cache \<Rightarrow> trace_cache" where
  "resetTraceCache c = c\<lparr>tc_cached := False, tc_trace := False\<rparr>"

text \<open>The first answer stands, whatever the environment becomes, until the cache is reset.\<close>

lemma trace_sticky:
  "isTrace getenv c = (t, c') \<Longrightarrow> isTrace getenv' c' = (t, c')"
  by (auto simp: isTrace_def Let_def split: if_splits)

lemma trace_after_reset: "fst (isTrace getenv (resetTraceCache c)) = envEnabled getenv ''HW_TRACE''"
  by (simp add: isTrace_def resetTraceCache_def)

section \<open>The log\<close>

datatype log_level = NONE | LOG | WARN | ERR | CRIT | INFO | TRACE

fun log_prefix :: "log_level \<Rightarrow> string" where
  "log_prefix NONE = []"
| "log_prefix LOG = ''[hw] log: ''"
| "log_prefix WARN = ''[hw] warn: ''"
| "log_prefix ERR = ''[hw] err: ''"
| "log_prefix CRIT = ''[hw] crit: ''"
| "log_prefix INFO = ''[hw] info: ''"
| "log_prefix TRACE = ''[hw] trace: ''"

definition log_line :: "bool \<Rightarrow> log_level \<Rightarrow> string \<Rightarrow> string" where
  "log_line trace level text =
     (if \<not> trace \<and> (level = LOG \<or> level = INFO) then [] else log_prefix level @ text @ [CHR 0x0A])"

section \<open>Hooks\<close>

text \<open>Each call goes to its hook where one is set; \<open>'p\<close>, \<open>'s\<close> and \<open>'r\<close> are the three calls.\<close>

record ('p, 's, 'r) hooks =
  hk_poll :: "'p option"
  hk_sendmsg :: "'s option"
  hk_recvmsg :: "'r option"

definition hooked :: "'f option \<Rightarrow> 'f \<Rightarrow> 'f" where
  "hooked hook call = (case hook of None \<Rightarrow> call | Some f \<Rightarrow> f)"

definition setHooks :: "('p, 's, 'r) hooks \<Rightarrow> ('p, 's, 'r) hooks \<Rightarrow> ('p, 's, 'r) hooks" where
  "setHooks new old = new"

definition resetHooks :: "('p, 's, 'r) hooks \<Rightarrow> ('p, 's, 'r) hooks" where
  "resetHooks old = \<lparr>hk_poll = None, hk_sendmsg = None, hk_recvmsg = None\<rparr>"

lemma reset_hooks_calls:
  "hooked (hk_poll (resetHooks h)) p = p" "hooked (hk_sendmsg (resetHooks h)) s = s" "hooked (hk_recvmsg (resetHooks h)) r = r"
  by (simp_all add: hooked_def resetHooks_def)

section \<open>The destruction callback\<close>

text \<open>
  The callback of an object, by its number, and the callbacks that have run. The second
  argument is the log of calls.
\<close>

definition setOnDestroy :: "nat option \<Rightarrow> nat option \<Rightarrow> nat option" where
  "setOnDestroy fn onDestroy = fn"

definition sendDestroyIfNeeded :: "nat option \<Rightarrow> nat list \<Rightarrow> nat option \<times> nat list" where
  "sendDestroyIfNeeded onDestroy calls = (case onDestroy of None \<Rightarrow> (None, calls) | Some f \<Rightarrow> (None, calls @ [f]))"

definition destroy_object :: "nat option \<Rightarrow> nat list \<Rightarrow> nat list" where
  "destroy_object onDestroy calls = (case onDestroy of None \<Rightarrow> calls | Some f \<Rightarrow> calls @ [f])"

text \<open>\<^verbatim>\<open>~CServerClient\<close>: every object is told, then each is destroyed with its last reference.\<close>

fun destroy_client :: "nat option list \<Rightarrow> nat list \<Rightarrow> nat option list \<times> nat list" where
  "destroy_client [] calls = ([], calls)"
| "destroy_client (ob # objs) calls =
     (let (ob, calls) = sendDestroyIfNeeded ob calls; (objs, calls) = destroy_client objs calls in (ob # objs, calls))"

text \<open>The callback runs exactly once, whether the connection or the reference goes first.\<close>

lemma destroyed_once:
  "destroy_client objs calls = (objs', calls') \<Longrightarrow>
     fold destroy_object objs' calls' = calls @ concat (map (case_option [] (\<lambda>f. [f])) objs) \<and>
     fold destroy_object objs calls = calls @ concat (map (case_option [] (\<lambda>f. [f])) objs)"
proof (induction objs arbitrary: calls objs' calls')
  case (Cons ob objs)
  obtain o1 r1 where ob: "sendDestroyIfNeeded ob calls = (o1, r1)" by fastforce
  obtain os2 r2 where rest: "destroy_client objs r1 = (os2, r2)" by fastforce
  from Cons.prems ob rest have e: "objs' = o1 # os2" "calls' = r2" by simp_all
  have o1: "o1 = None" "r1 = destroy_object ob calls"
    using ob by (auto simp: sendDestroyIfNeeded_def destroy_object_def split: option.splits)
  have "destroy_object None r = r" for r by (simp add: destroy_object_def)
  with Cons.IH[OF rest] e o1 show ?case by (cases ob) (simp_all add: destroy_object_def)
qed simp

section \<open>Opening a path\<close>

definition client_attempt :: "bool \<Rightarrow> bool \<Rightarrow> string \<Rightarrow> client_socket option" where
  "client_attempt exists connected path =
     (if \<not> exists then None
      else if 108 \<le> length path then None
      else if \<not> connected then None
      else Some (open_socket True))"

text \<open>\<^verbatim>\<open>IClientSocket::open\<close>, on a path and on a descriptor; the latter never fails.\<close>

definition client_open :: "bool \<Rightarrow> bool \<Rightarrow> string \<Rightarrow> client_socket option" where
  "client_open exists connected path = client_attempt exists connected path"

definition client_open_fd :: "bool \<Rightarrow> client_socket option" where
  "client_open_fd valid = Some (open_socket valid)"

section \<open>The time a handshake may take\<close>

text \<open>
  In milliseconds. A dispatch is given what is left of it as the timeout of its \<^verbatim>\<open>poll\<close>, cut
  to whole milliseconds, or \<open>None\<close> when it has passed; \<open>elapsed\<close> is in the nanoseconds of the
  clock. One that does not block only looks.
\<close>

definition g_handshakeMax :: nat where
  "g_handshakeMax = 5000"

definition setHandshakeTimeout :: "nat \<Rightarrow> nat \<Rightarrow> nat" where
  "setHandshakeTimeout timeout old = timeout"

definition resetHandshakeTimeout :: "nat \<Rightarrow> nat" where
  "resetHandshakeTimeout old = 5000"

definition handshake_poll :: "bool \<Rightarrow> nat \<Rightarrow> nat \<Rightarrow> nat option" where
  "handshake_poll block maxMs elapsed =
     (if block \<and> maxMs * 10 ^ 6 \<le> elapsed then None
      else Some (if block then (maxMs * 10 ^ 6 - elapsed) div 10 ^ 6 else 0))"

text \<open>No dispatch waits beyond the deadline, and one that starts before it is never late.\<close>

lemma handshake_deadline:
  assumes "handshake_poll block maxMs elapsed = Some t"
  shows "t \<le> maxMs" and "block \<Longrightarrow> elapsed + t * 10 ^ 6 \<le> maxMs * 10 ^ 6 \<and> elapsed < maxMs * 10 ^ 6"
proof -
  have le: "(a - b) div k \<le> a div k" "(a - b) div k * k \<le> a - b" for a b k :: nat
    by (simp_all add: div_le_mono)
  show "t \<le> maxMs" using assms le(1)[of "maxMs * 10 ^ 6" elapsed "10 ^ 6"] by (auto simp: handshake_poll_def split: if_splits)
  show "elapsed + t * 10 ^ 6 \<le> maxMs * 10 ^ 6 \<and> elapsed < maxMs * 10 ^ 6" if block
    using assms that le(2)[of "maxMs * 10 ^ 6" elapsed "10 ^ 6"] by (auto simp: handshake_poll_def split: if_splits)
qed

section \<open>Objects in the hands of the user\<close>

text \<open>
  An object the user holds: a pointer of the user's, its callback, and the weak pointer to its connection,
  \<open>None\<close> once that is gone. What goes through it is then without effect. \<open>'c\<close> is the
  connection, \<open>'s\<close> the server a connection belongs to.
\<close>

record 'c object_handle =
  oh_data :: "nat option"
  oh_onDestroy :: "nat option"
  oh_client :: "'c option"

definition new_handle :: "'c option \<Rightarrow> 'c object_handle" where
  "new_handle client = \<lparr>oh_data = None, oh_onDestroy = None, oh_client = client\<rparr>"

definition setData :: "nat option \<Rightarrow> 'c object_handle \<Rightarrow> 'c object_handle" where
  "setData data h = h\<lparr>oh_data := data\<rparr>"

definition getData :: "'c object_handle \<Rightarrow> nat option" where
  "getData h = oh_data h"

definition handle_errd :: "server_client object_handle \<Rightarrow> server_client object_handle" where
  "handle_errd h = h\<lparr>oh_client := map_option object_errd (oh_client h)\<rparr>"

definition handle_sendMessage :: "byte list \<Rightarrow> int list \<Rightarrow> server_client object_handle \<Rightarrow> server_client object_handle" where
  "handle_sendMessage data fds h = h\<lparr>oh_client := map_option (client_sendMessage data fds) (oh_client h)\<rparr>"

definition handle_client :: "server_client object_handle \<Rightarrow> server_client option" where
  "handle_client h = oh_client h"

definition handle_serverSock :: "(server_client \<Rightarrow> 's option) \<Rightarrow> server_client object_handle \<Rightarrow> 's option" where
  "handle_serverSock m_server h = (case oh_client h of None \<Rightarrow> None | Some c \<Rightarrow> m_server c)"

definition handle_clientSock :: "client_socket object_handle \<Rightarrow> client_socket option" where
  "handle_clientSock h = oh_client h"

definition client_handle_sendMessage :: "byte list \<Rightarrow> int list \<Rightarrow> client_socket object_handle \<Rightarrow> client_socket object_handle" where
  "client_handle_sendMessage data fds h = h\<lparr>oh_client := map_option (socket_sendMessage data fds) (oh_client h)\<rparr>"

text \<open>The pid of the peer, as the first poll found it.\<close>

definition getPID :: "server_client \<Rightarrow> int" where
  "getPID s = sc_pid s"

lemma dangling_handle:
  assumes "oh_client h = None"
  shows "handle_errd h = h" "handle_sendMessage data fds h = h" "handle_serverSock m_server h = None"
  using assms by (simp_all add: handle_errd_def handle_sendMessage_def handle_serverSock_def)

lemma pid_known:
  assumes "\<not> sc_firstPollDone s" and "env_newClient env = None"
  shows "getPID (dispatchFirstPoll env impls s) = (case env_peerPid env of None \<Rightarrow> getPID s | Some pid \<Rightarrow> pid)"
  using assms by (simp add: getPID_def dispatchFirstPoll_def setupExposedProtocols_def Let_def split: option.split)

definition isHandshakeDone :: "client_socket \<Rightarrow> bool" where
  "isHandshakeDone s = cs_handshakeDone s"

end
