(* ===== verification/Truncation.thy ===== *)
theory Truncation
  imports Server_Safety Argument_Layout
begin

text \<open>
  A message that was cut. The receiver keeps nothing of a read for the next one, so a read
  that ends inside a message ends the connection: no parser accepts a proper prefix of a
  message at the end of a buffer. Some parsers read past the end of the buffer to find out.
\<close>

section \<open>Longer buffers\<close>

text \<open>What is read from a buffer is read from every longer one.\<close>

lemma vec_at_more: "vec_at data i = Inr x \<Longrightarrow> vec_at (data @ q) i = Inr x"
  by (simp add: vec_at_eq_Inr nth_append)

lemma mem_range_more: "mem_range data i n = Inr x \<Longrightarrow> mem_range (data @ q) i n = Inr x"
  by (auto simp: mem_range_eq_Inr)

lemma at_u32_more: "at_u32 data i = Inr x \<Longrightarrow> at_u32 (data @ q) i = Inr x"
  by (auto simp: at_u32_def mem_u32_def bnd_eq_Inr intro: vec_at_more mem_range_more)

lemma varint_at_more: "varint_at data p v l \<Longrightarrow> varint_at (data @ q) p v l"
  unfolding varint_at_def parseVarInt_span_def
  by (auto intro: varint_loop_local[of data p "Suc l" 0 0 v l] simp: nth_append)

text \<open>A quantity that does not reach the end of the buffer is the same in every longer one.\<close>

lemma parse_more:
  assumes "parseVarInt data p = Inr (v, l)" and "p + l < length data"
  shows "varint_at (data @ q) p v l"
proof -
  have "parseVarInt_span data p (length data - p) = Inr (v, l)"
    using assms by (auto simp: parseVarInt_def split: if_splits)
  then show ?thesis using assms(2) by (intro varint_at_more parse_span_complete[of _ _ "length data - p"]) simp_all
qed

lemma varint_at_unique: "varint_at data p v l \<Longrightarrow> varint_at data p v' l' \<Longrightarrow> v = v' \<and> l = l'"
proof -
  assume a: "varint_at data p v l" "varint_at data p v' l'"
  have "parseVarInt_span data p (max l l') = Inr (v, l)" using a(1) by (rule parse_span_at) simp
  moreover have "parseVarInt_span data p (max l l') = Inr (v', l')" using a(2) by (rule parse_span_at) simp
  ultimately show ?thesis by simp
qed

lemma stands_cut:
  assumes "stands (data @ q) p xs" and "p + length xs \<le> length data"
  shows "stands data p xs"
  using assms by (simp add: stands_def)

text \<open>
  A quantity stands in the longer buffer: parsed in the shorter one it is the same, or it
  reaches the end.
\<close>

lemma parse_span_cut:
  assumes st: "stands (data @ q) p (encodeVarInt n)" and n: "n < 2 ^ 28"
    and parse: "parseVarInt_span data p len = Inr (v, l)" and len: "length data - p \<le> len"
  shows "v = n \<and> l = length (encodeVarInt n) \<or> length data \<le> p + l \<and> l \<le> 4 \<and> v < 2 ^ 28"
proof (cases "p + length (encodeVarInt n) \<le> length data")
  case True
  then have "parseVarInt_span data p len = Inr (n, length (encodeVarInt n))"
    using len by (intro parse_span_encode stands_cut[OF st] n) simp_all
  with parse have "v = n \<and> l = length (encodeVarInt n)" by auto
  then show ?thesis ..
next
  case False
  have "length data \<le> p + l"
  proof (rule ccontr)
    assume "\<not> length data \<le> p + l"
    then have "varint_at (data @ q) p v l"
      using parse len by (intro varint_at_more parse_span_complete[of _ _ len]) simp_all
    with varint_at_encode[OF st n] have "l = length (encodeVarInt n)" using varint_at_unique by blast
    with False \<open>\<not> length data \<le> p + l\<close> show False by simp
  qed
  moreover have "l \<le> 4" using False parse_span_extent[OF parse] length_encodeVarInt(1)[of n] by simp
  ultimately show ?thesis using parse_span_value[OF parse] by simp
qed

lemma parse_cut:
  assumes "stands (data @ q) p (encodeVarInt n)" "n < 2 ^ 28" and "parseVarInt data p = Inr (v, l)"
  shows "v = n \<and> l = length (encodeVarInt n) \<or> length data \<le> p + l \<and> l \<le> 4 \<and> v < 2 ^ 28"
proof (cases "length data \<le> p")
  case True
  with assms(3) show ?thesis by (simp add: parseVarInt_def)
next
  case False
  with assms(3) show ?thesis using parse_span_cut[OF assms(1,2), of "length data - p"] by (simp add: parseVarInt_def)
qed

section \<open>Control messages\<close>

lemma parse_lengths:
  "parse_Hello data off = Inr (u, k) \<Longrightarrow> k = 7"
  "parse_HandshakeAck data off = Inr (v, k) \<Longrightarrow> k = 7"
  "parse_RoundtripRequest data off = Inr (w, k) \<Longrightarrow> k = 7"
  by (auto simp: parse_Hello_def parse_HandshakeAck_def parse_RoundtripRequest_def Let_def bnd_eq_Inr)

lemma parse_BindProtocol_length:
  "parse_BindProtocol data off = Inr (m, k) \<Longrightarrow>
     \<exists>n l. parseVarInt data (off + 7) = Inr (n, l) \<and> off + 7 + l < length data \<and> k = 7 + l + n + 6"
  by (auto simp: parse_BindProtocol_def Let_def bnd_eq_Inr vec_at_eq_Inr add.assoc)

section \<open>Generic messages\<close>

lemma skip_past_end:
  assumes "skip_strings data off i n k = Inr n'" and "length data \<le> off + i + n" and "off + i + n < 2 ^ 63"
  shows "n' = n"
proof (cases k)
  case (Suc k')
  have "sadd (sadd off i) n = off + i + n" using assms(3) by (simp add: size_simps)
  then have "parseVarInt_span data (sadd (sadd off i) n) len = Inl Undefined" for len
    using assms(2) by (simp add: parseVarInt_span_def varint_loop.simps[of data "off + i + n"])
  with assms(1) Suc show ?thesis by simp
qed (use assms in simp)

lemma skip_strings_cut:
  assumes big: "length data < 2 ^ 62"
  shows "\<forall>s \<in> set ss. length s < 2 ^ 28 \<Longrightarrow> stands (data @ q) (off + i + n) (concat (map enc_bytes ss)) \<Longrightarrow>
    length data \<le> off + i + n + length (concat (map enc_bytes ss)) \<Longrightarrow> off + i + n \<le> length data \<Longrightarrow>
    skip_strings data off i n (length ss) = Inr n' \<Longrightarrow> length data \<le> off + i + n' \<and> off + i + n' \<le> length data + 2 ^ 30"
proof (induction ss arbitrary: n)
  case Nil
  then show ?case by simp
next
  case (Cons s ss)
  let ?p = "off + i + n"
  have add: "sadd (sadd off i) n = ?p" using Cons.prems(4) big by (simp add: size_simps)
  have rest: "ssub (ssub (length data) i) n = length data - i - n" using Cons.prems(4) big by (simp add: size_simps)
  from Cons.prems(5) obtain v l where num: "parseVarInt_span data ?p (length data - i - n) = Inr (v, l)"
    and go: "skip_strings data off i (sadd n (sadd v l)) (length ss) = Inr n'"
    by (auto simp: add rest bnd_eq_Inr)
  have st: "stands (data @ q) ?p (encodeVarInt (length s))"
    "stands (data @ q) (?p + length (enc_bytes s)) (concat (map enc_bytes ss))"
    using Cons.prems(2) by (simp_all add: enc_bytes_def[of s] add.assoc)
  have len: "length s < 2 ^ 28" using Cons.prems(1) by simp
  have ext: "?p + l \<le> length data" using parse_span_extent[OF num] by simp
  have "length data - ?p \<le> length data - i - n" by simp
  from parse_span_cut[OF st(1) len num this]
  consider "v = length s" "l = length (encodeVarInt (length s))" | "length data \<le> ?p + l" "l \<le> 4" "v < 2 ^ 28"
    by auto
  then show ?case
  proof cases
    case 1
    then have small: "sadd n (sadd v l) = n + length (enc_bytes s)"
      using Cons.prems(4) big len length_encodeVarInt(1)[of "length s"] by (simp add: size_simps length_enc_bytes)
    show ?thesis
    proof (cases "?p + length (enc_bytes s) \<le> length data")
      case True
      with Cons.IH[of "n + length (enc_bytes s)"] Cons.prems st(2) go small show ?thesis by (simp add: add.assoc)
    next
      case False
      have "off + i + (n + length (enc_bytes s)) < 2 ^ 63"
        using Cons.prems(4) big len length_encodeVarInt(1)[of "length s"] by (simp add: length_enc_bytes)
      with False go small have "n' = n + length (enc_bytes s)" by (intro skip_past_end[of data off i _ "length ss"]) simp_all
      with False Cons.prems(4) len length_encodeVarInt(1)[of "length s"] show ?thesis by (simp add: length_enc_bytes)
    qed
  next
    case 2
    then have small: "sadd n (sadd v l) = n + v + l" using Cons.prems(4) big by (simp add: size_simps)
    have "n' = n + v + l"
      using go 2 Cons.prems(4) big unfolding small by (intro skip_past_end[of data off i _ "length ss"]) simp_all
    with 2 Cons.prems(4) show ?thesis by simp
  qed
qed

text \<open>An argument that is cut leads the scan to the end of the buffer or past it.\<close>

lemma scan_array_cut:
  assumes st: "stands (data @ q) (off + i) ([magic_code TYPE_ARRAY, magic_code t] @ encodeVarInt n @ body)"
    and n: "n < array_limit" and big: "length data < 2 ^ 62"
    and t: "prim32 t \<and> length body = 4 * n \<or> t = TYPE_FD \<and> body = [] \<or>
      t = TYPE_VARCHAR \<and> (\<exists>ss. n = length ss \<and> body = concat (map enc_bytes ss) \<and> (\<forall>s \<in> set ss. length s < 2 ^ 28))"
    and inside: "off + i < length data" and cut: "length data < off + i + 2 + length (encodeVarInt n) + length body"
    and scan: "scan_array data off i fds m = Inr (i', fds', m')"
  shows "length data \<le> off + i' \<and> off + i' < 2 ^ 63"
proof -
  have add: "sadd (sadd off i) 1 = off + i + 1" "sadd (sadd off i) 2 = off + i + 2" "ssub (length data) i = length data - i"
    using inside big by (simp_all add: size_simps)
  have parts: "stands (data @ q) (off + i) [magic_code TYPE_ARRAY, magic_code t]" "stands (data @ q) (off + i + 2) (encodeVarInt n)"
    "stands (data @ q) (off + i + 2 + length (encodeVarInt n)) body"
    using st unfolding stands_append by (simp_all add: add.assoc eval_nat_numeral)
  from scan obtain b u v l where b: "off + i + 1 < length data" "data ! (off + i + 1) = magic_code u"
    and num: "parseVarInt_span data (off + i + 2) (length data - i) = Inr (v, l)" and v: "v < array_limit"
    and elems: "prim32 u \<and> i' = sadd i (2 + l + 4 * v) \<or>
      u = TYPE_VARCHAR \<and> (\<exists>k. skip_strings data off i (2 + l) v = Inr k \<and> i' = sadd i k) \<or>
      u = TYPE_FD \<and> i' = sadd i (2 + l)"
    unfolding scan_array_def add
    by (auto simp: bnd_eq_Inr vec_at_eq_Inr Let_def split: option.splits if_splits)
  have u: "u = t" using parts(1) b by (simp add: stands_Cons nth_append)
  have ext: "off + i + 2 + l \<le> length data" "l \<le> 5" using parse_span_extent[OF num] by simp_all
  have n28: "n < 2 ^ 28" using n by (simp add: array_limit_def)
  have "length data - (off + i + 2) \<le> length data - i" by simp
  from parse_span_cut[OF parts(2) n28 num this]
  consider (whole) "v = n" "l = length (encodeVarInt n)" | (ends) "length data \<le> off + i + 2 + l" by auto
  note number = this
  have small: "sadd i (2 + l + 4 * v) = i + 2 + l + 4 * v" "sadd i (2 + l) = i + 2 + l"
    using ext v big by (simp_all add: size_simps array_limit_def)
  consider "prim32 t" "i' = i + 2 + l + 4 * v" | k where "t = TYPE_VARCHAR" "skip_strings data off i (2 + l) v = Inr k" "i' = sadd i k"
    | "t = TYPE_FD" "i' = i + 2 + l"
    using elems unfolding u small by blast
  then show ?thesis
  proof cases
    case 1
    have "length data \<le> off + i'" using number 1 t cut by cases auto
    then show ?thesis using 1(2) ext v big by (simp add: array_limit_def)
  next
    case 2
    have "length data \<le> off + i + k \<and> off + i + k \<le> length data + 2 ^ 30"
      using number
    proof cases
      case whole
      from t 2(1) obtain ss where ss: "n = length ss" "body = concat (map enc_bytes ss)" "\<forall>s \<in> set ss. length s < 2 ^ 28"
        by auto
      show ?thesis
        using 2(2) ss cut ext parts(3) unfolding whole ss(1)
        by (intro skip_strings_cut[OF big ss(3)]) (simp_all add: add.assoc)
    next
      case ends
      have "k = 2 + l" using 2(2) ends ext big by (intro skip_past_end[of data off i "2 + l" v]) simp_all
      with ends ext show ?thesis by simp
    qed
    moreover from this have "sadd i k = i + k" using big by (simp add: size_simps)
    ultimately show ?thesis using 2(3) big by simp
  next
    case 3
    have "length data \<le> off + i'" using number 3 t cut by cases auto
    then show ?thesis using 3(2) ext big by simp
  qed
qed

lemma scan_arg_cut:
  assumes ok: "wire_ok a" and st: "stands (data @ q) (off + i) (wire_bytes a)" and big: "length data < 2 ^ 62"
    and inside: "off + i < length data" and cut: "length data < off + i + length (wire_bytes a)"
    and scan: "scan_arg data off i (data ! (off + i)) fds m = Inr (i', fds', m')"
  shows "length data \<le> off + i' \<and> off + i' < 2 ^ 63"
proof -
  have add: "sadd i 5 = i + 5" "sadd i 1 = i + 1" "sadd (sadd off i) 1 = off + i + 1"
    using inside big by (simp_all add: size_simps)
  have tag: "data ! (off + i) = hd (wire_bytes a)"
    using stands_nth[OF st, of 0] inside by (simp add: nth_append hd_conv_nth)
  show ?thesis
  proof (cases a)
    case (WPrim t v)
    with ok scan tag cut inside big show ?thesis by (auto simp: scan_arg_def add)
  next
    case (WStr s)
    with scan tag obtain v l where num: "parseVarInt data (off + i + 1) = Inr (v, l)" and i': "i' = sadd i (sadd (sadd v l) 1)"
      using add(3) by (auto simp: scan_arg_def bnd_eq_Inr)
    have n: "stands (data @ q) (off + i + 1) (encodeVarInt (length s))" using st WStr by (simp add: stands_Cons enc_bytes_def)
    have s: "length s < 2 ^ 28" using ok WStr by simp
    have ext: "l \<le> 5" "off + i + 1 + l \<le> length data"
      using parse_extent[OF num] inside by auto
    from parse_cut[OF n s num] have v: "v < 2 ^ 28" "length data \<le> off + i + 1 + l + v"
      using cut s WStr by (auto simp: length_enc_bytes)
    have "i' = i + v + l + 1" using i' v(1) ext big by (simp add: size_simps)
    with v ext big show ?thesis by simp
  next
    case (WFd fd)
    with cut inside show ?thesis by simp
  next
    case (WArrPrim t vs)
    with scan tag have "scan_array data off i fds m = Inr (i', fds', m')" by (simp add: scan_arg_def)
    from scan_array_cut[OF _ _ big _ inside _ this, of q t "length vs" "concat (map u32_bytes vs)"] st cut ok WArrPrim
    show ?thesis by (simp del: prim32.simps)
  next
    case (WArrStr ss)
    with scan tag have "scan_array data off i fds m = Inr (i', fds', m')" by (simp add: scan_arg_def)
    from scan_array_cut[OF _ _ big _ inside _ this, of q TYPE_VARCHAR "length ss" "concat (map enc_bytes ss)"] st cut ok WArrStr
    show ?thesis by auto
  next
    case (WArrFd fs)
    with scan tag have "scan_array data off i fds m = Inr (i', fds', m')" by (simp add: scan_arg_def)
    from scan_array_cut[OF _ _ big _ inside _ this, of q TYPE_FD "length fs" "[]"] st cut ok WArrFd
    show ?thesis by simp
  qed
qed

lemma generic_scan_cut:
  assumes v: "vec_ok (data @ q)" and big: "length data < 2 ^ 62"
  shows "list_all wire_ok args \<Longrightarrow> stands (data @ q) (off + i) (wire_args args @ [0]) \<Longrightarrow> off + i \<le> length data \<Longrightarrow>
    length data < off + i + length (wire_args args) + 1 \<Longrightarrow>
    \<exists>e. generic_scan data off i (wire_args_fds args @ fds) m = Some (Inl e)"
proof (induction args arbitrary: i m)
  case Nil
  then have "sadd off i = off + i" "length data \<le> off + i" using big by (simp_all add: size_simps)
  then show ?case by (subst generic_scan.simps) simp
next
  case (Cons a args)
  have ok: "wire_ok a" using Cons.prems(1) by simp
  have add: "sadd off i = off + i" using Cons.prems(3) big by (simp add: size_simps)
  have st: "stands (data @ q) (off + i) (wire_bytes a)"
    "stands (data @ q) (off + (i + length (wire_bytes a))) (wire_args args @ [0])"
    using Cons.prems(2) by (simp_all add: add.assoc)
  show ?case
  proof (cases "off + i < length data")
    case False
    then show ?thesis by (subst generic_scan.simps) (simp add: add)
  next
    case inside: True
    have tag: "data ! (off + i) = hd (wire_bytes a)"
      using stands_nth[OF st(1), of 0] inside by (simp add: nth_append hd_conv_nth)
    then have tag0: "data ! (off + i) \<noteq> magic_code MAGIC_END" using hd_wire_bytes[OF ok] by simp
    let ?fds = "wire_args_fds (a # args) @ fds"
    show ?thesis
    proof (cases "off + i + length (wire_bytes a) \<le> length data")
      case True
      have "scan_arg data off i (data ! (off + i)) ?fds m = Inr (i + length (wire_bytes a), wire_args_fds args @ fds, m @ wire_fds a)"
        using scan_arg_stands[OF ok stands_cut[OF st(1) True], of "wire_args_fds args @ fds" m] v tag by (simp add: vec_ok_def)
      then have "generic_scan data off i ?fds m =
          generic_scan data off (i + length (wire_bytes a)) (wire_args_fds args @ fds) (m @ wire_fds a)"
        using tag0 inside add by (subst generic_scan.simps) simp
      with Cons.IH[OF _ st(2)] Cons.prems(1,4) True show ?thesis by (simp add: add.assoc)
    next
      case False
      show ?thesis
      proof (cases "scan_arg data off i (data ! (off + i)) ?fds m")
        case (Inl e)
        then show ?thesis using tag0 inside add by (subst generic_scan.simps) simp
      next
        case (Inr t)
        obtain i' fds' m' where t: "t = (i', fds', m')" by (cases t)
        have past: "length data \<le> off + i'" "off + i' < 2 ^ 63"
          using scan_arg_cut[OF ok st(1) big inside _ Inr[unfolded t]] False by auto
        then have "generic_scan data off i' fds' m' = Some (Inl OutOfRange)"
          by (subst generic_scan.simps) (simp add: size_simps)
        then show ?thesis using Inr tag0 inside add unfolding t by (subst generic_scan.simps) simp
      qed
    qed
  qed
qed

lemma generic_head_inside: "generic_head data off = Inr r \<Longrightarrow> off + 11 \<le> length data"
  by (auto simp: generic_head_def bnd_eq_Inr at_u32_eq_Inr)

lemma parse_Generic_cut:
  assumes "vec_ok (data @ q)" and "length data < 2 ^ 62" and "list_all wire_ok args"
    and st: "stands (data @ q) off (enc_Generic object meth args)"
    and cut: "length data < off + length (enc_Generic object meth args)"
  shows "\<exists>e. parse_Generic data (wire_args_fds args @ fds) off = Some (Inl e)"
proof (cases "generic_head data off")
  case (Inl e)
  then show ?thesis by (simp add: parse_Generic_def)
next
  case (Inr r)
  have "stands (data @ q) (off + 11) (wire_args args @ [0])"
    using st unfolding enc_Generic_def by (simp add: stands_Cons eval_nat_numeral)
  moreover have "off + 11 \<le> length data" using Inr by (rule generic_head_inside)
  ultimately obtain e where "generic_scan data off 11 (wire_args_fds args @ fds) [] = Some (Inl e)"
    using generic_scan_cut[OF assms(1-3), of off 11] cut by auto
  with Inr show ?thesis by (cases r) (simp add: parse_Generic_def)
qed

section \<open>The read that ends inside a message\<close>

lemma parsed_refuses:
  assumes "\<And>r. p \<noteq> Inr r" and "p \<noteq> Inl LengthError"
  shows "p = Inl Undefined \<and> parsed p fds s act = Inl Undefined \<or> parsed p fds s act = Inr (0, fds, s)"
proof (cases p)
  case (Inl e)
  with assms(2) show ?thesis by (cases e) (simp_all add: parsed_def refused_def)
qed (use assms in simp)

text \<open>The messages whose parser looks at what is left of the buffer before it reads a value.\<close>

fun checks_length :: "client_msg \<Rightarrow> bool" where
  "checks_length (CmAck w) \<longleftrightarrow> True"
| "checks_length (CmRoundtrip w) \<longleftrightarrow> True"
| "checks_length m \<longleftrightarrow> False"

lemma checked_parse:
  "parse_HandshakeAck data off \<noteq> Inl Undefined"
  "vec_ok data \<Longrightarrow> parse_RoundtripRequest data off \<noteq> Inl Undefined"
proof -
  show "parse_HandshakeAck data off \<noteq> Inl Undefined"
    by (auto simp: parse_HandshakeAck_def Let_def attempt_iffs at_u32_def mem_u32_def)
  show "parse_RoundtripRequest data off \<noteq> Inl Undefined" if "vec_ok data"
    using vec_okD[OF that]
    by (auto simp: parse_RoundtripRequest_def Let_def attempt_iffs at_u32_def mem_u32_def size_simps)
qed

lemma parse_BindProtocol_cut:
  assumes "ok_BindProtocol b" and "stands (data @ q) off (enc_BindProtocol b)"
  shows "parse_BindProtocol data off \<noteq> Inl LengthError"
proof
  assume "parse_BindProtocol data off = Inl LengthError"
  then obtain n l where num: "parseVarInt data (off + 7) = Inr (n, l)" and n: "2 ^ 63 \<le> n"
    by (auto simp: parse_BindProtocol_def Let_def bnd_eq_Inl vec_at_eq_Inl copy_string_eq_Inl)
  have "stands (data @ q) (off + 7) (encodeVarInt (length (bind_protocol b)))"
    using assms(2) by (simp add: enc_BindProtocol_def enc_string_def stands_Cons eval_nat_numeral)
  moreover have "length (bind_protocol b) < 2 ^ 28" using assms(1) by (simp add: ok_BindProtocol_def ok_string_def)
  ultimately have "n < 2 ^ 28" using parse_cut[OF _ _ num, of q "length (bind_protocol b)"] by auto
  with n show False by simp
qed

lemma server_parseSingle_cut:
  assumes ok: "ok_client_msg m" and st: "stands (data @ q) off (enc_client_msg m)" and v: "vec_ok (data @ q)"
    and big: "length data < 2 ^ 62" and inside: "off < length data" and cut: "length data < off + length (enc_client_msg m)"
  shows "server_parseSingle env impls data off (client_msg_fds m @ fds) s = Some (Inl Undefined) \<and> \<not> checks_length m \<or>
    (\<exists>fds' s'. server_parseSingle env impls data off (client_msg_fds m @ fds) s = Some (Inr (0, fds', s')))"
proof -
  have at: "vec_at data off = Inr (hd (enc_client_msg m))"
    using stands_nth[OF st, of 0] inside by (simp add: nth_append hd_conv_nth)
  have vd: "vec_ok data" using v by (simp add: vec_ok_def)
  show ?thesis
  proof (cases m)
    case CmHello
    have no: "parse_Hello data off \<noteq> Inr r" for r
      using hello.parse_bounds[of data off] parse_lengths(1)[of data off] cut CmHello by (cases r) fastforce
    show ?thesis
      using CmHello at hd_enc_client_msg[of m] parsed_refuses[OF no parse_no_throw(1)]
      by (force simp: server_parseSingle_def)
  next
    case (CmAck w)
    have no: "parse_HandshakeAck data off \<noteq> Inr r" for r
      using handshake_ack.parse_bounds[of data off] parse_lengths(2)[of data off] cut CmAck
      by (cases r) (fastforce simp: enc_HandshakeAck_def)
    show ?thesis
      using CmAck at hd_enc_client_msg[of m] parsed_refuses[OF no parse_no_throw(2)] checked_parse(1)[of data off]
      by (force simp: server_parseSingle_def)
  next
    case (CmBind b)
    have no: "parse_BindProtocol data off \<noteq> Inr r" for r
    proof
      assume p: "parse_BindProtocol data off = Inr r"
      obtain x k where r: "r = (x, k)" by (cases r)
      from parse_BindProtocol_length[OF p[unfolded r]] obtain n l where
        num: "parseVarInt data (off + 7) = Inr (n, l)" "off + 7 + l < length data" and k: "k = 7 + l + n + 6"
        by auto
      have "stands (data @ q) (off + 7) (encodeVarInt (length (bind_protocol b)))"
        using st CmBind by (simp add: enc_BindProtocol_def enc_string_def stands_Cons eval_nat_numeral)
      moreover have "length (bind_protocol b) < 2 ^ 28" using ok CmBind by (simp add: ok_BindProtocol_def ok_string_def)
      ultimately have "n = length (bind_protocol b)" "l = length (encodeVarInt (length (bind_protocol b)))"
        using parse_cut[OF _ _ num(1), of q "length (bind_protocol b)"] num(2) by auto
      with k have "k = length (enc_client_msg m)" using CmBind by (simp add: enc_BindProtocol_def length_enc_string)
      with bind_protocol_msg.parse_bounds[OF p[unfolded r]] cut show False by simp
    qed
    have "parse_BindProtocol data off \<noteq> Inl LengthError"
      using ok st CmBind by (intro parse_BindProtocol_cut[of b data q]) simp_all
    then show ?thesis
      using CmBind at hd_enc_client_msg[of m] parsed_refuses[OF no] by (force simp: server_parseSingle_def)
  next
    case (CmCall oid mid args)
    then obtain e where e: "parse_Generic data (client_msg_fds m @ fds) off = Some (Inl e)"
      using parse_Generic_cut[OF v big _ _ cut[unfolded CmCall enc_client_msg.simps], of fds] ok st by auto
    then have "e \<noteq> LengthError" using parse_Generic_no_throw by blast
    with e show ?thesis
      using CmCall at hd_enc_client_msg[of m] by (cases e) (simp_all add: server_parseSingle_def refused_def)
  next
    case (CmRoundtrip w)
    have no: "parse_RoundtripRequest data off \<noteq> Inr r" for r
      using roundtrip_request.parse_bounds[of data off] parse_lengths(3)[of data off] cut CmRoundtrip
      by (cases r) (fastforce simp: enc_RoundtripRequest_def)
    show ?thesis
      using CmRoundtrip at hd_enc_client_msg[of m] parsed_refuses[OF no parse_no_throw(5)] checked_parse(2)[OF vd, of off]
      by (force simp: server_parseSingle_def)
  qed
qed

lemma server_loop_cut:
  assumes env: "env_ok env impls" and impls: "impls_ok impls"
    and "list_all ok_client_msg ms" and "ok_client_msg m" and v: "vec_ok (data @ q)" and big: "length data < 2 ^ 62"
    and "objects_ok impls s"
    and "stands data n (enc_stream ms)" and "stands (data @ q) (n + length (enc_stream ms)) (enc_client_msg m)"
    and "n + length (enc_stream ms) < length data"
    and "length data < n + length (enc_stream ms) + length (enc_client_msg m)"
  shows "server_loop env impls data n (stream_fds (ms @ [m])) s = Some (Inl Undefined) \<and> \<not> checks_length m \<or>
    (\<exists>res t. server_loop env impls data n (stream_fds (ms @ [m])) s = Some (Inr (res, t)) \<and>
      (res = MESSAGE_PARSED_OK \<longrightarrow> sc_error t))"
  using assms(3,7-)
proof (induction ms arbitrary: n s)
  case Nil
  then have st: "stands (data @ q) n (enc_client_msg m)" "n < length data" "length data < n + length (enc_client_msg m)"
    by simp_all
  show ?case
  proof (cases "sc_error s")
    case True
    then show ?thesis by (subst (1 2) server_loop.simps) simp
  next
    case run: False
    then show ?thesis
      using server_parseSingle_cut[OF assms(4) st(1) v big st(2,3), of env impls "[]" s] st(2)
      by (subst (1 2) server_loop.simps) auto
  qed
next
  case (Cons a ms)
  show ?case
  proof (cases "sc_error s")
    case True
    then show ?thesis by (subst (1 2) server_loop.simps) simp
  next
    case run: False
    have st: "stands data n (enc_client_msg a)" "stands data (n + length (enc_client_msg a)) (enc_stream ms)"
      using Cons.prems(3) by simp_all
    have "0 < length (enc_client_msg a)" by simp
    with Cons.prems(5) have len: "n < length data" "0 < length (enc_client_msg a)"
      by (simp_all del: length_greater_0_conv)
    have vd: "vec_ok data" using v by (simp add: vec_ok_def)
    have va: "vec_ok (enc_client_msg a)" using stands_length[OF st(1)] vd by (simp add: vec_ok_def)
    have add: "sadd n (length (enc_client_msg a)) = n + length (enc_client_msg a)"
      using Cons.prems(5) vec_okD[OF vd] by (simp add: size_simps)
    obtain s' where s': "serve_one env impls a s = Inr s'" "objects_ok impls s'"
      using serve_one_returns[OF env impls Cons.prems(2) run _ va] Cons.prems(1) by auto
    have "server_parseSingle env impls data n (stream_fds ((a # ms) @ [m])) s =
        Some (Inr (length (enc_client_msg a), stream_fds (ms @ [m]), s'))"
      using server_parseSingle_stands[OF _ st(1) vd] Cons.prems(1) s'(1) by simp
    then have "server_loop env impls data n (stream_fds ((a # ms) @ [m])) s =
        server_loop env impls data (n + length (enc_client_msg a)) (stream_fds (ms @ [m])) s'"
      using len run add by (subst server_loop.simps) simp
    with Cons.IH[OF _ s'(2) st(2)] Cons.prems show ?thesis by (simp add: add.assoc)
  qed
qed

text \<open>C25. A cut message is fatal (safety). Whatever well-formed messages a client sends, a read that ends
  after a proper, non-empty prefix of one of them never carries on: either the connection is
  left in error, as nothing is kept for the rest of the message, which arrives with the next
  read; or the parser has read past the end of the buffer. The latter cannot happen for the
  two messages whose parser looks at the length, a handshake acknowledgement and a roundtrip
  request: cut, they always end the connection.\<close>

theorem split_read_fatal:
  assumes "env_ok env impls" and "impls_ok impls" and "objects_ok impls s"
    and "list_all ok_client_msg ms" and "ok_client_msg m"
    and "enc_client_msg m = front @ back" and "front \<noteq> []" and "back \<noteq> []"
    and "length (enc_stream (ms @ [m])) < 2 ^ 62"
  shows "dispatchClient env impls (Some (enc_stream ms @ front, stream_fds (ms @ [m]))) s = Some (Inl Undefined) \<and>
      \<not> checks_length m \<or>
    (\<exists>t. dispatchClient env impls (Some (enc_stream ms @ front, stream_fds (ms @ [m]))) s = Some (Inr t) \<and> sc_error t)"
proof -
  let ?data = "enc_stream ms @ front"
  have all: "?data @ back = enc_stream ms @ enc_client_msg m" using assms(6) by simp
  have v: "vec_ok (?data @ back)" "length ?data < 2 ^ 62" using assms(6,9) by (simp_all add: vec_ok_def)
  have st: "stands ?data 0 (enc_stream ms)" "stands (?data @ back) (0 + length (enc_stream ms)) (enc_client_msg m)"
    unfolding all by (simp_all add: stands_def)
  have ends: "server_loop env impls ?data 0 (stream_fds (ms @ [m])) s = Some (Inl Undefined) \<and> \<not> checks_length m \<or>
    (\<exists>res t. server_loop env impls ?data 0 (stream_fds (ms @ [m])) s = Some (Inr (res, t)) \<and>
      (res = MESSAGE_PARSED_OK \<longrightarrow> sc_error t))"
    using assms(6-8) by (intro server_loop_cut[OF assms(1,2,4,5) v assms(3) st]) simp_all
  then show ?thesis
    using assms(7)
    by (auto simp: dispatchClient_def server_handleMessage_def client_sendMessage_def object_error_def object_errd_def)
qed

theorem split_read_fatal_witness:
  "\<exists>t. dispatchClient example_env example_impls (Some (enc_stream [CmHello] @ take 3 (enc_HandshakeAck 1), []))
     (new_server_client 5 True) = Some (Inr t) \<and> sc_error t"
  using split_read_fatal[OF example_env_ok example_impls_ok new_client_ok, of "[CmHello]" "CmAck 1"
      "take 3 (enc_HandshakeAck 1)" "drop 3 (enc_HandshakeAck 1)"]
  by (simp add: enc_HandshakeAck_def enc_Hello_def)

section \<open>What the cut reads\<close>

lemma vec_at_rest: "vec_at (xs @ ys) (length xs + i) = vec_at ys i"
  by (simp add: vec_at_def nth_append)

lemma mem_range_rest: "mem_range (xs @ ys) (length xs + i) n = mem_range ys i n"
  by (simp add: mem_range_def)

lemma vec_at_rest_Suc: "vec_at (xs @ ys) (Suc (length xs)) = vec_at ys 1"
  using vec_at_rest[of xs ys 1] by simp

lemmas read_rest = vec_at_rest vec_at_rest[of _ _ 0, simplified] vec_at_rest_Suc mem_range_rest mem_range_rest[of _ _ 0, simplified]

text \<open>The messages that are read without a look at what is left of the buffer, and where.\<close>

fun blind_cut :: "client_msg \<Rightarrow> nat \<Rightarrow> bool" where
  "blind_cut CmHello n \<longleftrightarrow> 0 < n \<and> n < 7"
| "blind_cut (CmBind m) n \<longleftrightarrow> 2 < n \<and> n < 6"
| "blind_cut (CmCall oid mid args) n \<longleftrightarrow> 2 < n \<and> n < 6 \<or> 7 < n \<and> n < 11"
| "blind_cut m n \<longleftrightarrow> False"

lemma blind_parse:
  assumes cut: "blind_cut m (length front)" and enc: "enc_client_msg m = front @ back"
  shows "server_parseSingle env impls (xs @ front) (length xs) fds s = Some (Inl Undefined)"
proof -
  have "front \<noteq> []" using cut by (cases m) auto
  then have hd: "hd front = hd (enc_client_msg m)" "vec_at front 0 = Inr (hd front)" using enc by (simp_all add: vec_at_def hd_conv_nth nth_append)
  have nth: "vec_at front i = Inr (enc_client_msg m ! i)" if "i < length front" for i
    using that enc by (simp add: vec_at_def nth_append)
  show ?thesis
  proof (cases m)
    case CmHello
    then have "parse_Hello (xs @ front) (length xs) = Inl Undefined"
      using cut hd(2) by (simp add: parse_Hello_def read_rest mem_range_def)
    then show ?thesis using CmHello hd hd_enc_client_msg[of m] by (simp add: server_parseSingle_def read_rest parsed_def caught_def)
  next
    case (CmBind b)
    then have "parse_BindProtocol (xs @ front) (length xs) = Inl Undefined"
      using cut hd nth[of 1] nth[of 2]
      by (simp add: parse_BindProtocol_def read_rest at_u32_def mem_u32_def mem_range_def enc_BindProtocol_def)
    then show ?thesis using CmBind hd hd_enc_client_msg[of m] by (simp add: server_parseSingle_def read_rest parsed_def caught_def)
  next
    case (CmCall oid mid args)
    have "generic_head (xs @ front) (length xs) = Inl Undefined"
    proof (cases "length front < 6")
      case True
      with CmCall cut show ?thesis using hd nth[of 1] nth[of 2]
        by (simp add: generic_head_def read_rest at_u32_def mem_u32_def mem_range_def enc_Generic_def)
    next
      case False
      with CmCall cut show ?thesis using hd nth[of 1] nth[of 2] nth[of 6] nth[of 7]
        by (simp add: generic_head_def read_rest at_u32_def mem_u32_def mem_range_def enc_Generic_def nth_append)
    qed
    then have "parse_Generic (xs @ front) fds (length xs) = Some (Inl Undefined)" by (simp add: parse_Generic_def)
    then show ?thesis using CmCall hd hd_enc_client_msg[of m] by (simp add: server_parseSingle_def read_rest caught_def)
  qed (use cut in simp_all)
qed

text \<open>C26. A cut message is read past its end (bounds). Where a read ends inside the greeting, inside the sequence
  of a bind request or inside the object or method number of a call, after whole messages
  that were handled, the parser reads bytes that the buffer does not have: the functions
  check the first byte of a value and then copy all of it.\<close>

theorem cut_read_overreads:
  assumes "list_all ok_client_msg ms" and "serve env impls ms s = Inr ([], t)" and "\<not> sc_error t"
    and "enc_client_msg m = front @ back" and "blind_cut m (length front)" and "vec_ok (enc_stream ms @ front)"
  shows "dispatchClient env impls (Some (enc_stream ms @ front, stream_fds ms @ fds)) s = Some (Inl Undefined)"
proof -
  have "front \<noteq> []" using assms(5) by (cases m) auto
  have "stands (enc_stream ms @ front) 0 (enc_stream ms)" by (simp add: stands_def)
  from server_loop_steps[OF assms(1) this assms(6,2)]
  have "server_handleMessage env impls (enc_stream ms @ front) (stream_fds ms @ fds) s =
      server_loop env impls (enc_stream ms @ front) (length (enc_stream ms)) fds t"
    by (simp add: server_handleMessage_def)
  also have "\<dots> = Some (Inl Undefined)"
    using blind_parse[OF assms(5,4)] assms(3) \<open>front \<noteq> []\<close> by (subst server_loop.simps) simp
  finally show ?thesis using \<open>front \<noteq> []\<close> by (simp add: dispatchClient_def)
qed

theorem cut_read_overreads_witness:
  "dispatchClient example_env example_impls (Some ([type_code MSG_BIND_PROTOCOL, magic_code TYPE_UINT, 1], []))
     (new_server_client 5 True) = Some (Inl Undefined)"
  using cut_read_overreads[of "[]" example_env example_impls "new_server_client 5 True" "new_server_client 5 True"
      "CmBind \<lparr>bind_protocol = ''p'', bind_seq = 1, bind_version = 1\<rparr>"
      "[type_code MSG_BIND_PROTOCOL, magic_code TYPE_UINT, 1]"
      "drop 3 (enc_BindProtocol \<lparr>bind_protocol = ''p'', bind_seq = 1, bind_version = 1\<rparr>)" "[]"]
  by (simp add: new_server_client_def enc_BindProtocol_def u32_bytes_def vec_ok_def)

end
