(* ===== verification/Message_Shape.thy ===== *)
theory Message_Shape
  imports Client_Safety
begin

text \<open>
  The form of a marshalled call: whatever values are passed, a call of a method with a
  well-formed specification is a generic message with arguments of known types. Together
  with the limits on sizes this is what the parser of the other end accepts.
\<close>

section \<open>Types and sizes\<close>

fun typed :: "wire_arg \<Rightarrow> bool" where
  "typed (WPrim m v) = prim32 m"
| "typed (WArrPrim m vs) = prim32 m"
| "typed a = True"

fun arg_fits :: "wire_arg \<Rightarrow> bool" where
  "arg_fits (WStr s) = (length s < 2 ^ 28)"
| "arg_fits (WArrPrim m vs) = (length vs < array_limit)"
| "arg_fits (WArrStr ss) = (length ss < array_limit \<and> (\<forall>s \<in> set ss. length s < 2 ^ 28))"
| "arg_fits (WArrFd fds) = (length fds < array_limit)"
| "arg_fits a = True"

lemma wire_ok_iff: "wire_ok a \<longleftrightarrow> typed a \<and> arg_fits a"
  by (cases a) auto

section \<open>A marshalled call\<close>

text \<open>An array parameter with what its encoding adds.\<close>

lemma encode_array_shape:
  assumes "encode_array t v = Inr (Some (body, fds))"
  shows "\<exists>a. typed a \<and> wire_bytes a = magic_code TYPE_ARRAY # t # body \<and> wire_fds a = fds"
proof (cases "magic_of t")
  case None
  with assms show ?thesis by simp
next
  case (Some m)
  then have t: "t = magic_code m" by simp
  have str: "concat (map enc_c_str ss) = concat (map enc_bytes (map c_str ss))" for ss
    by (induction ss) (simp_all add: enc_c_str_def enc_bytes_def)
  show ?thesis
  proof (cases v)
    case (VaArr32 vs)
    with assms Some have "prim32 m" "body = encodeVarInt (length vs) @ concat (map u32_bytes vs)" "fds = []"
      by (simp_all split: if_splits) auto
    then show ?thesis unfolding t by (intro exI[of _ "WArrPrim m vs"]) simp
  next
    case (VaArrFd xs)
    with assms Some have "m = TYPE_FD" "body = encodeVarInt (length xs)" "fds = xs"
      by (auto split: if_splits)
    then show ?thesis unfolding t by (intro exI[of _ "WArrFd xs"]) simp
  next
    case (VaArrStr ss)
    with assms Some have "m = TYPE_VARCHAR" "body = encodeVarInt (length ss) @ concat (map enc_c_str ss)" "fds = []"
      by (simp_all split: if_splits)
    then show ?thesis unfolding t str by (intro exI[of _ "WArrStr (map c_str ss)"]) simp
  qed (use assms Some in \<open>simp_all split: if_splits\<close>)
qed

lemma encode_params_shape:
  "params_ok ps \<Longrightarrow> encode_params ps vas data fds = Inr (Marshalled data' fds') \<Longrightarrow>
     \<exists>args. list_all typed args \<and> data' = data @ wire_args args \<and> fds' = fds @ wire_args_fds args"
proof (induction ps arbitrary: vas data fds rule: length_induct)
  case (1 ps)
  have more: ?case
    if "typed a" "length qs < length ps" "params_ok qs"
      "encode_params qs vas' (data @ wire_bytes a) (fds @ wire_fds a) = Inr (Marshalled data' fds')" for a qs vas'
  proof -
    from 1(1) that obtain args where "list_all typed args" "data' = (data @ wire_bytes a) @ wire_args args"
      "fds' = (fds @ wire_fds a) @ wire_args_fds args" by blast
    with that(1) show ?thesis by (intro exI[of _ "a # args"]) simp
  qed
  show ?case
  proof (cases ps)
    case Nil
    with 1(3) show ?thesis by (intro exI[of _ "[]"]) simp
  next
    case (Cons p qs)
    from 1(2) Cons obtain m where m: "magic_of p = Some m" by (auto split: option.splits)
    show ?thesis
    proof (cases "m = TYPE_ARRAY")
      case False
      then have ok: "params_ok qs" "prim32 m \<or> m = TYPE_VARCHAR \<or> m = TYPE_FD" using 1(2) Cons m by auto
      have len: "length qs < length ps" using Cons by simp
      from 1(3) Cons m False ok(2) consider
          v vas' where "prim32 m" "vas = VaU32 v # vas' \<or> vas = VaF32 v # vas'"
            "encode_params qs vas' (data @ magic_code m # u32_bytes v) fds = Inr (Marshalled data' fds')"
        | s vas' where "vas = VaStr s # vas'"
            "encode_params qs vas' (data @ magic_code TYPE_VARCHAR # enc_c_str s) fds = Inr (Marshalled data' fds')"
        | fd vas' where "vas = VaFd fd # vas'"
            "encode_params qs vas' (data @ [magic_code TYPE_FD]) (fds @ [fd]) = Inr (Marshalled data' fds')"
        | "encode_params qs vas data fds = Inr (Marshalled data' fds')"
        by (auto split: if_splits list.splits va.splits)
      then show ?thesis
      proof cases
        case (1 v vas')
        with more[of "WPrim m v" qs vas'] len ok(1) show ?thesis by simp
      next
        case (2 s vas')
        with more[of "WStr (c_str s)" qs vas'] len ok(1) show ?thesis by (simp add: enc_c_str_def enc_bytes_def)
      next
        case (3 fd vas')
        with more[of "WFd fd" qs vas'] len ok(1) show ?thesis by simp
      next
        case 4
        with 1(1) len ok(1) show ?thesis by blast
      qed
    next
      case True
      with 1(2) Cons m obtain t rs where rs: "qs = t # rs" "params_ok rs" by (auto split: list.splits option.splits)
      from 1(3) Cons m True rs obtain v vas' body xs where "vas = v # vas'" "encode_array t v = Inr (Some (body, xs))"
        and rest: "encode_params rs vas' (data @ magic_code TYPE_ARRAY # t # body) (fds @ xs) = Inr (Marshalled data' fds')"
        by (auto simp: bnd_eq_Inr simp del: encode_array.simps split: list.splits option.splits)
      with encode_array_shape obtain a where "typed a" "wire_bytes a = magic_code TYPE_ARRAY # t # body" "wire_fds a = xs"
        by blast
      with more[of a rs vas'] rest rs Cons show ?thesis by simp
    qed
  qed
qed

lemma call_message_shape:
  assumes "call_message obj method mid q vas = Inr (Marshalled data fds)" and "params_ok (m_params method)"
  shows "\<exists>args. list_all typed args \<and> data = enc_Generic (w_id obj) mid args \<and> fds = wire_args_fds args"
proof -
  let ?head = "[type_code MSG_GENERIC_PROTOCOL_MESSAGE, magic_code TYPE_OBJECT] @
    u32_bytes (w_id obj) @ [magic_code TYPE_UINT] @ u32_bytes mid"
  let ?seq = "if m_returnsType method \<noteq> [] then [WPrim TYPE_SEQ q] else []"
  have head: "(if m_returnsType method \<noteq> [] then ?head @ [magic_code TYPE_SEQ] @ u32_bytes q else ?head) =
      ?head @ wire_args ?seq" by simp
  from assms(1) obtain r where r: "encode_params (m_params method) vas (?head @ wire_args ?seq) [] = Inr r"
    "(case r of MarshalFailed \<Rightarrow> Inr MarshalFailed
      | Marshalled data fds \<Rightarrow> Inr (Marshalled (data @ [magic_code MAGIC_END]) fds)) =
        (Inr (Marshalled data fds) :: marshalled attempt)"
    unfolding call_message_def Let_def head bnd_eq_Inr by blast
  then obtain body where "encode_params (m_params method) vas (?head @ wire_args ?seq) [] = Inr (Marshalled body fds)"
    and data: "data = body @ [magic_code MAGIC_END]"
    by (cases r) auto
  then obtain args where "list_all typed args" "body = (?head @ wire_args ?seq) @ wire_args args" "fds = wire_args_fds args"
    using encode_params_shape[OF assms(2)] by fastforce
  then show ?thesis unfolding data by (intro exI[of _ "?seq @ args"]) (simp add: enc_Generic_def)
qed

section \<open>Entries of a log\<close>

text \<open>A message as it stands in \<open>sc_sent\<close> or \<open>cs_sent\<close>.\<close>

abbreviation server_entry :: "server_msg \<Rightarrow> byte list \<times> int list" where
  "server_entry m \<equiv> (enc_server_msg m, server_msg_fds m)"

abbreviation client_entry :: "client_msg \<Rightarrow> byte list \<times> int list" where
  "client_entry m \<equiv> (enc_client_msg m, client_msg_fds m)"

end
