(* ===== verification/Server_Speech.thy ===== *)
theory Server_Speech
  imports Message_Shape
begin

text \<open>
  What the server puts on the wire, whatever its user does: only messages of the protocol,
  and every id at most once.
\<close>

section \<open>What the server says\<close>

text \<open>
  The messages a server has reason to send: its one version, protocols it exposes, typed
  calls.
\<close>

fun said :: "protocol_impl list \<Rightarrow> string list \<Rightarrow> server_msg \<Rightarrow> bool" where
  "said impls exposed (SmHandshakeBegin versions) = (versions = [HYPRWIRE_PROTOCOL_VER])"
| "said impls exposed (SmProtocols names) =
     (length names \<le> length impls \<and> set names \<subseteq> set (protocol_names impls exposed))"
| "said impls exposed (SmCall oid mid args) = list_all typed args"
| "said impls exposed m = True"

lemma protocol_names_mono: "set xs \<subseteq> set ys \<Longrightarrow> set (protocol_names impls xs) \<subseteq> set (protocol_names impls ys)"
  by (auto simp: protocol_names_def)

lemma said_mono: "said impls xs m \<Longrightarrow> set xs \<subseteq> set ys \<Longrightarrow> said impls ys m"
  using protocol_names_mono[of xs ys impls] by (cases m) auto

definition spec_typed :: "wire_object \<Rightarrow> bool" where
  "spec_typed obj \<longleftrightarrow> (case w_spec obj of None \<Rightarrow> True | Some sp \<Rightarrow> spec_ok sp)"

definition server_talks :: "protocol_impl list \<Rightarrow> server_client \<Rightarrow> bool" where
  "server_talks impls s \<longleftrightarrow>
     (\<forall>obj \<in> set (sc_objects s). spec_typed obj) \<and>
     (\<forall>e \<in> set (sc_sent s). \<exists>m. e = server_entry m \<and> said impls (sc_exposedProtocols s) m)"

lemma server_talks_send:
  assumes "server_talks impls s" and "said impls (sc_exposedProtocols s) m"
  shows "server_talks impls (client_sendMessage (enc_server_msg m) (server_msg_fds m) s)"
  using assms by (auto simp: server_talks_def client_sendMessage_def)

lemma server_talks_cong:
  assumes "server_talks impls s" and "sc_sent t = sc_sent s" and "set (sc_exposedProtocols s) \<subseteq> set (sc_exposedProtocols t)"
    and "\<And>obj. obj \<in> set (sc_objects t) \<Longrightarrow> spec_typed obj"
  shows "server_talks impls t"
  using assms said_mono unfolding server_talks_def by (auto; blast)

lemma server_talks_fatal: "server_talks impls s \<Longrightarrow> server_talks impls (send_fatal oid eid msg s)"
  using server_talks_send[of impls s "SmFatal \<lparr>fe_objectId = oid, fe_errorId = eid, fe_errorMsg = msg\<rparr>"]
  by (simp add: send_fatal_def)

lemma spec_typed_update [simp]:
  "spec_typed (obj\<lparr>w_listeners := ls\<rparr>) = spec_typed obj" "spec_typed (obj\<lparr>w_destroyed := d\<rparr>) = spec_typed obj"
  by (simp_all add: spec_typed_def)

lemma server_talks_error: "server_talks impls s \<Longrightarrow> server_talks impls (object_error oid eid msg s)"
  unfolding object_error_def object_errd_def
  by (rule server_talks_cong[OF server_talks_fatal]) (auto simp: server_talks_def sc_ops split: if_splits)

lemma server_talks_simps [simp]:
  "server_talks impls (s\<lparr>sc_pid := pid\<rparr>) = server_talks impls s" "server_talks impls (s\<lparr>sc_firstPollDone := b\<rparr>) = server_talks impls s"
  "server_talks impls (s\<lparr>sc_version := v\<rparr>) = server_talks impls s"
  "server_talks impls (s\<lparr>sc_scheduledRoundtripSeq := q\<rparr>) = server_talks impls s"
  "server_talks impls (object_errd s) = server_talks impls s" "server_talks impls (setProtocolFilter f s) = server_talks impls s"
  by (simp_all add: server_talks_def object_errd_def setProtocolFilter_def)

lemma server_talks_update:
  "server_talks impls s \<Longrightarrow> (\<And>obj. spec_typed obj \<Longrightarrow> spec_typed (f obj)) \<Longrightarrow> server_talks impls (update_object oid f s)"
  by (rule server_talks_cong) (auto simp: update_object_def server_talks_def)

lemma server_talks_destroy: "server_talks impls s \<Longrightarrow> server_talks impls (destroyIfNeeded oid method s)"
proof -
  assume talks: "server_talks impls s"
  have "server_talks impls (client_destroyObject oid u)" if "server_talks impls u" for u
    using that by (simp add: client_destroyObject_def server_talks_def)
  with talks server_talks_update[OF talks, of "\<lambda>obj. obj\<lparr>w_destroyed := True\<rparr>" oid] show ?thesis
    by (auto simp: destroyIfNeeded_def Let_def)
qed

lemma server_talks_expose: "server_talks impls s \<Longrightarrow> server_talks impls (setupExposedProtocols impls s)"
  by (rule server_talks_cong) (auto simp: setupExposedProtocols_def server_talks_def)

lemma resolve_object_typed:
  assumes "impls_ok impls" and "resolve_object impls exposed name object version obj = (obj', err)" and "spec_typed obj"
  shows "spec_typed obj'"
proof (cases "find (\<lambda>p. specName (protocol p) = name) impls")
  case None
  with assms show ?thesis by (simp add: resolve_object_def)
next
  case (Some p)
  then have p: "p \<in> set impls" by (auto simp: find_Some_iff)
  have "find Q (spec_objects (protocol p)) = Some sp \<Longrightarrow> spec_ok sp" for Q sp
    using assms(1) p by (auto simp: impls_ok_def list_all_iff find_Some_iff dest: nth_mem)
  with Some assms(2,3) show ?thesis
    by (auto simp: resolve_object_def Let_def spec_typed_def split: if_splits option.splits)
qed

lemma server_talks_announce:
  assumes "impls_ok impls" and "server_talks impls s"
  shows "server_talks impls (snd (announce_object impls name object version seq s))"
proof -
  have fresh: "spec_typed (fresh_object (sc_maxId s) version)" by (simp add: spec_typed_def fresh_object_def)
  have stored: "server_talks impls (s\<lparr>sc_maxId := sc_maxId s + 1, sc_objects := sc_objects s @ [obj]\<rparr>)" if "spec_typed obj" for obj
    using that assms(2) by (auto simp: server_talks_def)
  show ?thesis
  proof (cases rule: announce_cases[of impls name object version seq s])
    case (1 obj msg)
    then show ?thesis using stored resolve_object_typed[OF assms(1) _ fresh] by (simp add: server_talks_error)
  next
    case (2 obj)
    then show ?thesis
      using server_talks_send[OF stored, of obj "SmNewObject \<lparr>no_seq = seq, no_id = sc_maxId s\<rparr>"]
        resolve_object_typed[OF assms(1) _ fresh] by simp
  qed
qed

lemma server_talks_call:
  assumes "server_talks impls s" and "object_call oid mid vas s = Inr t"
  shows "server_talks impls t"
proof -
  from assms(2) obtain obj sp where obj: "find_object oid s = Some obj" "w_spec obj = Some sp"
    by (auto simp: object_call_def split: option.splits)
  have "spec_typed obj" using assms(1) find_object_mem[OF obj(1)] by (auto simp: server_talks_def)
  then have sp: "spec_ok sp" using obj(2) by (simp add: spec_typed_def)
  show ?thesis
  proof (cases "call_error True obj (methodsOut sp) mid")
    case (Some msg)
    with assms(2) obj have "t = object_error oid oid msg s" by (simp add: object_call_def)
    then show ?thesis using server_talks_error[OF assms(1)] by simp
  next
    case None
    let ?m = "methodsOut sp ! unat mid"
    let ?s = "if m_isDestructor ?m then update_object oid (\<lambda>obj. obj\<lparr>w_destroyed := True\<rparr>) s else s"
    have s: "server_talks impls ?s" using assms(1) by (simp add: server_talks_update)
    from assms(2) obj None obtain r where r: "call_message obj ?m mid 0 vas = Inr r"
      "t = (case r of MarshalFailed \<Rightarrow> object_errd ?s | Marshalled data fds \<Rightarrow> client_sendMessage data fds ?s)"
      by (auto simp: object_call_def Let_def bnd_eq_Inr)
    show ?thesis
    proof (cases r)
      case MarshalFailed
      with r s show ?thesis by simp
    next
      case (Marshalled data fds)
      have "unat mid < length (s2c sp)" using None by (simp add: call_error_def methodsOut_def split: if_splits)
      then have "params_ok (m_params ?m)" using sp by (auto simp: spec_ok_def methodsOut_def list_all_iff)
      with call_message_shape r(1) Marshalled obtain args where "list_all typed args"
        "data = enc_Generic (w_id obj) mid args" "fds = wire_args_fds args" by blast
      with server_talks_send[OF s, of "SmCall (w_id obj) mid args"] r(2) Marshalled show ?thesis by simp
    qed
  qed
qed

lemma server_talks_api:
  assumes ok: "impls_ok impls" and talks: "server_talks impls s" and "api impls s t"
  shows "server_talks impls t"
  using assms(3)
proof cases
  case (api_listen oid obj mid fn obj')
  have "spec_typed obj" using talks find_object_mem[OF api_listen(2)] by (auto simp: server_talks_def)
  then have "spec_typed obj'" using listen_listeners[OF api_listen(3)] by auto
  then show ?thesis unfolding api_listen(1) by (intro server_talks_update[OF talks])
qed (use talks server_talks_call server_talks_error server_talks_announce[OF ok] in simp_all)

lemma server_talks_answers:
  assumes "server_talks impls s"
  shows "server_talks impls (client_sendMessage (enc_HandshakeBegin [HYPRWIRE_PROTOCOL_VER]) [] s)"
    and "server_talks impls (client_sendMessage (enc_HandshakeProtocols (protocol_names impls (sc_exposedProtocols s))) [] s)"
    and "server_talks impls (client_sendMessage (enc_RoundtripDone seq) [] s)"
  using server_talks_send[OF assms, of "SmHandshakeBegin [HYPRWIRE_PROTOCOL_VER]"]
    server_talks_send[OF assms, of "SmProtocols (protocol_names impls (sc_exposedProtocols s))"]
    server_talks_send[OF assms, of "SmDone seq"]
  by (simp_all add: protocol_names_def)

interpretation server_speech: connection_invariant impls "\<lambda>s. impls_ok impls \<longrightarrow> server_talks impls s" for impls
  using server_talks_api
  by unfold_locales (blast, simp_all add: server_talks_announce server_talks_answers server_talks_fatal
      server_talks_destroy server_talks_expose)

text \<open>
  Ids are drawn one after the other, and none without a message: the number of messages sent
  bounds the number of ids, and an id that was announced was announced for one sequence.
\<close>

abbreviation new_entry :: "u32 \<Rightarrow> u32 \<Rightarrow> byte list \<times> int list" where
  "new_entry seq oid \<equiv> server_entry (SmNewObject \<lparr>no_seq = seq, no_id = oid\<rparr>)"

definition ids_numbered :: "server_client \<Rightarrow> bool" where
  "ids_numbered s \<longleftrightarrow> sc_fdValid s \<and>
     (\<exists>k seqs. sc_maxId s = of_nat (Suc k) \<and> k \<le> length (sc_sent s) \<and>
       (\<forall>seq oid. new_entry seq oid \<in> set (sc_sent s) \<longrightarrow> (\<exists>j. 1 \<le> j \<and> j \<le> k \<and> oid = of_nat j \<and> seqs j = seq)))"

lemma enc_NewObject_inj:
  assumes "enc_NewObject m = enc_NewObject m'"
  shows "m = m'"
  using assms by (intro new_object.enc_inject) (simp_all add: ok_NewObject_def vec_ok_def enc_NewObject_def)

lemma ids_numbered_same:
  "ids_numbered s \<Longrightarrow> sc_sent t = sc_sent s \<Longrightarrow> sc_maxId t = sc_maxId s \<Longrightarrow> sc_fdValid t = sc_fdValid s \<Longrightarrow> ids_numbered t"
  by (simp add: ids_numbered_def)

lemma ids_numbered_send:
  assumes "ids_numbered s" and "hd data \<noteq> type_code MSG_NEW_OBJECT"
  shows "ids_numbered (client_sendMessage data fds s)"
proof -
  from assms(1) obtain k seqs where k: "sc_fdValid s" "sc_maxId s = of_nat (Suc k)" "k \<le> length (sc_sent s)"
    "\<And>seq oid. new_entry seq oid \<in> set (sc_sent s) \<Longrightarrow> \<exists>j. 1 \<le> j \<and> j \<le> k \<and> oid = of_nat j \<and> seqs j = seq"
    unfolding ids_numbered_def by blast
  have "hd (enc_NewObject m) = type_code MSG_NEW_OBJECT" for m by (simp add: enc_NewObject_def)
  with k assms(2) show ?thesis
    unfolding ids_numbered_def client_sendMessage_def by (intro conjI exI[of _ k] exI[of _ seqs]) auto
qed

lemma ids_numbered_error: "ids_numbered s \<Longrightarrow> ids_numbered (object_error oid eid msg s)"
  unfolding object_error_def object_errd_def send_fatal_def
  by (rule ids_numbered_same[OF ids_numbered_send]) (simp_all add: enc_FatalError_def)

lemma ids_numbered_announce:
  assumes "ids_numbered s"
  shows "ids_numbered (snd (announce_object impls name object version seq s))"
proof -
  from assms obtain k seqs where k: "sc_fdValid s" "sc_maxId s = of_nat (Suc k)" "k \<le> length (sc_sent s)"
    "\<And>seq oid. new_entry seq oid \<in> set (sc_sent s) \<Longrightarrow> \<exists>j. 1 \<le> j \<and> j \<le> k \<and> oid = of_nat j \<and> seqs j = seq"
    unfolding ids_numbered_def by blast
  show ?thesis
  proof (cases rule: announce_cases[of impls name object version seq s])
    case (1 obj msg)
    have "\<exists>j. 1 \<le> j \<and> j \<le> Suc k \<and> o' = of_nat j \<and> seqs j = q" if "new_entry q o' \<in> set (sc_sent s)" for q o'
      using k(4)[OF that] by (auto intro: le_SucI)
    moreover have "enc_FatalError m \<noteq> enc_NewObject m'" for m m' by (simp add: enc_FatalError_def enc_NewObject_def)
    then have "enc_NewObject m' \<noteq> enc_FatalError m" for m m' by metis
    ultimately show ?thesis
      unfolding ids_numbered_def using 1(1) k(1-3)
      by (intro conjI exI[of _ "Suc k"] exI[of _ seqs]) (auto simp: sc_ops)
  next
    case (2 obj)
    let ?seqs = "seqs(Suc k := seq)"
    have "\<exists>j. 1 \<le> j \<and> j \<le> Suc k \<and> o' = of_nat j \<and> ?seqs j = q"
      if "new_entry q o' \<in> set (sc_sent s) \<or> new_entry q o' = new_entry seq (sc_maxId s)" for q o'
      using that
    proof
      assume "new_entry q o' \<in> set (sc_sent s)"
      from k(4)[OF this] obtain j where "1 \<le> j" "j \<le> k" "o' = of_nat j" "seqs j = q" by blast
      then show ?thesis by (intro exI[of _ j]) simp
    next
      assume "new_entry q o' = new_entry seq (sc_maxId s)"
      then have "q = seq" "o' = sc_maxId s" using enc_NewObject_inj by fastforce+
      then show ?thesis using k(2) by (intro exI[of _ "Suc k"]) simp
    qed
    then show ?thesis
      unfolding ids_numbered_def using 2(1) k(1-3)
      by (intro conjI exI[of _ "Suc k"] exI[of _ ?seqs]) (auto simp: client_sendMessage_def)
  qed
qed

lemma ids_numbered_api:
  assumes "ids_numbered s" and "api impls s t"
  shows "ids_numbered t"
  using assms(2)
proof cases
  case (api_call oid mid vas)
  from api_call show ?thesis
  proof (rule object_call_cases)
    fix s' data fds
    assume "s' = s \<or> s' = update_object oid (\<lambda>obj. obj\<lparr>w_destroyed := True\<rparr>) s"
      and t: "t = client_sendMessage data fds s'" "hd data = type_code MSG_GENERIC_PROTOCOL_MESSAGE"
    then have "ids_numbered s'" using assms(1) by (auto simp: update_object_def intro: ids_numbered_same)
    with t show ?thesis by (simp add: ids_numbered_send)
  qed (use assms(1) ids_numbered_error in \<open>auto simp: object_errd_def update_object_def intro: ids_numbered_same\<close>)
qed (use assms(1) ids_numbered_error ids_numbered_announce in \<open>auto simp: update_object_def setProtocolFilter_def intro: ids_numbered_same\<close>)

interpretation numbering: connection_invariant impls ids_numbered for impls
proof unfold_locales
  fix s :: server_client
  assume s: "ids_numbered s"
  show "ids_numbered (client_sendMessage (enc_HandshakeBegin [HYPRWIRE_PROTOCOL_VER]) [] s)"
    "ids_numbered (client_sendMessage (enc_HandshakeProtocols (protocol_names impls (sc_exposedProtocols s))) [] s)" for impls
    using s by (simp_all add: ids_numbered_send enc_HandshakeBegin_def enc_HandshakeProtocols_def)
  show "ids_numbered (send_fatal oid eid msg s)" "ids_numbered (client_sendMessage (enc_RoundtripDone seq) [] s)" for oid eid msg seq
    using s by (simp_all add: send_fatal_def ids_numbered_send enc_FatalError_def enc_RoundtripDone_def)
  show "ids_numbered (object_errd s)" "ids_numbered (destroyIfNeeded oid md s)"
    "ids_numbered (setupExposedProtocols impls s)" "ids_numbered (s\<lparr>sc_pid := pid\<rparr>)" "ids_numbered (s\<lparr>sc_firstPollDone := True\<rparr>)"
    "ids_numbered (s\<lparr>sc_version := v\<rparr>)" "ids_numbered (s\<lparr>sc_scheduledRoundtripSeq := q\<rparr>)" for oid md impls pid v q
    using s by (auto simp: sc_ops setupExposedProtocols_def Let_def intro: ids_numbered_same)
qed (use ids_numbered_api ids_numbered_announce in blast)+

lemma announced_once:
  assumes "ids_numbered s" and "length (sc_sent s) < 2 ^ 32 - 1"
    and "new_entry q oid \<in> set (sc_sent s)" and "new_entry q' oid \<in> set (sc_sent s)"
  shows "q' = q \<and> oid \<noteq> 0 \<and> oid < sc_maxId s"
proof -
  from assms(1) obtain k seqs where k: "sc_maxId s = of_nat (Suc k)" "k \<le> length (sc_sent s)"
    "\<And>seq oid. new_entry seq oid \<in> set (sc_sent s) \<Longrightarrow> \<exists>j. 1 \<le> j \<and> j \<le> k \<and> oid = of_nat j \<and> seqs j = seq"
    unfolding ids_numbered_def by blast
  obtain j j' where j: "1 \<le> j" "j \<le> k" "oid = of_nat j" "seqs j = q" and j': "1 \<le> j'" "j' \<le> k" "oid = of_nat j'" "seqs j' = q'"
    using k(3)[OF assms(3)] k(3)[OF assms(4)] by blast
  have bound: "Suc k < 2 ^ 32" using k(2) assms(2) by simp
  have id: "unat (of_nat i :: u32) = i" if "i \<le> Suc k" for i
    using that bound by (simp add: unat_of_nat)
  have "unat oid = j" "unat oid = j'" using id[of j] id[of j'] j(2,3) j'(2,3) by simp_all
  moreover have "unat (sc_maxId s) = Suc k" using id[of "Suc k"] k(1) by simp
  ultimately show ?thesis using j(1,2,4) j'(4) by (auto simp: word_less_nat_alt)
qed

section \<open>What is exposed stays exposed\<close>

interpretation exposed_more: connection_invariant impls "\<lambda>s. xs \<subseteq> set (sc_exposedProtocols s)" for impls xs
proof unfold_locales
  fix s t :: server_client
  assume "api impls s t" and xs: "xs \<subseteq> set (sc_exposedProtocols s)"
  then show "xs \<subseteq> set (sc_exposedProtocols t)"
  proof cases
    case (api_call oid mid vas)
    then show ?thesis using xs by (elim object_call_cases) (auto simp: sc_ops)
  next
    case (api_create ref r object seq)
    then show ?thesis
      using xs by (cases rule: announce_cases[of impls "w_protocolName r" object "w_version r" seq s]) (auto simp: sc_ops)
  qed (auto simp: sc_ops)
next
  fix s :: server_client and name object version seq
  assume "xs \<subseteq> set (sc_exposedProtocols s)"
  then show "xs \<subseteq> set (sc_exposedProtocols (snd (announce_object impls name object version seq s)))"
    by (cases rule: announce_cases[of impls name object version seq s]) (auto simp: sc_ops)
qed (auto simp: sc_ops setupExposedProtocols_def Let_def)

end
