(* ===== verification/Client_Speech.thy ===== *)
theory Client_Speech
  imports Message_Shape
begin

text \<open>
  What the client puts on the wire, whatever its user and the server do: only messages of the
  protocol; and what its state owes to the messages it has received.
\<close>

section \<open>What the client says\<close>

fun asked :: "client_msg \<Rightarrow> bool" where
  "asked (CmAck v) = (v = HYPRWIRE_PROTOCOL_VER)"
| "asked (CmCall oid mid args) = list_all typed args"
| "asked m = True"

definition pending_typed :: "pending_msg \<Rightarrow> bool" where
  "pending_typed p \<longleftrightarrow>
     (\<exists>q mid args. pm_data p = enc_Generic q mid args \<and> pm_fds p = wire_args_fds args \<and> list_all typed args)"

definition client_log :: "client_socket \<Rightarrow> bool" where
  "client_log c \<longleftrightarrow>
     (\<forall>p \<in> set (cs_pendingOutgoing c). pending_typed p) \<and>
     (\<forall>e \<in> set (cs_sent c). \<exists>m. e = client_entry m \<and> asked m)"

text \<open>
  What only a message of the server or a roundtrip of the user changes: the roundtrip
  sequences, the requests sent, the specifications learnt.
\<close>

definition is_request :: "byte list \<times> int list \<Rightarrow> bool" where
  "is_request e \<longleftrightarrow> (case fst e of [] \<Rightarrow> False | b # _ \<Rightarrow> b = type_code MSG_ROUNDTRIP_REQUEST)"

definition client_view ::
  "client_socket \<Rightarrow> u32 \<times> u32 \<times> (byte list \<times> int list) list \<times> protocol_spec list" where
  "client_view c =
     (cs_lastAckdRoundtripSeq c, cs_lastSentRoundtripSeq c, filter is_request (cs_sent c), cs_serverSpecs c)"

lemma is_request_client [simp]: "is_request (client_entry m) \<longleftrightarrow> (\<exists>q. m = CmRoundtrip q)"
  by (cases m) (simp_all add: is_request_def enc_message_defs)

lemma client_log_send:
  assumes "client_log c" and "asked m"
  shows "client_log (socket_sendMessage (enc_client_msg m) (client_msg_fds m) c)"
  using assms by (auto simp: client_log_def socket_sendMessage_def)

lemma client_view_send:
  "\<not> is_request (data, fds) \<Longrightarrow> client_view (socket_sendMessage data fds c) = client_view c"
  by (simp add: client_view_def socket_sendMessage_def)

lemma client_log_same:
  "client_log s \<Longrightarrow> cs_sent t = cs_sent s \<Longrightarrow> cs_pendingOutgoing t = cs_pendingOutgoing s \<Longrightarrow> client_log t"
  by (simp add: client_log_def)

lemma make_object_same [simp]:
  "cs_sent (makeObject p n q s) = cs_sent s" "cs_pendingOutgoing (makeObject p n q s) = cs_pendingOutgoing s"
  "cs_fdValid (makeObject p n q s) = cs_fdValid s" "cs_error (makeObject p n q s) = cs_error s"
  "client_view (makeObject p n q s) = client_view s"
  by (simp_all add: makeObject_def client_view_def split: option.split)

text \<open>The state a quiet step may leave: a log of well-formed messages and the same view.\<close>

definition client_talks :: "u32 \<times> u32 \<times> (byte list \<times> int list) list \<times> protocol_spec list \<Rightarrow> client_socket \<Rightarrow> bool" where
  "client_talks v c \<longleftrightarrow> client_log c \<and> client_view c = v \<and> (cs_fdValid c \<or> cs_error c)"

lemma client_talks_same:
  assumes "client_talks v s" and "cs_sent t = cs_sent s" "cs_pendingOutgoing t = cs_pendingOutgoing s"
    and "client_view t = client_view s" and "cs_fdValid s \<or> cs_error s \<Longrightarrow> cs_fdValid t \<or> cs_error t"
  shows "client_talks v t"
  using assms by (auto simp: client_talks_def intro: client_log_same)

lemma client_talks_send:
  assumes "client_talks v s" and "asked m" and "\<And>q. m \<noteq> CmRoundtrip q"
  shows "client_talks v (socket_sendMessage (enc_client_msg m) (client_msg_fds m) s)"
proof -
  let ?t = "socket_sendMessage (enc_client_msg m) (client_msg_fds m) s"
  have "\<not> is_request (client_entry m)" using assms(3) by simp
  then have "client_view ?t = client_view s" by (rule client_view_send)
  moreover have "cs_fdValid ?t = cs_fdValid s" "cs_error ?t = cs_error s" by (simp_all add: socket_sendMessage_def)
  ultimately show ?thesis using assms(1) client_log_send[OF _ assms(2), of s] by (simp add: client_talks_def)
qed

lemma client_talks_call:
  assumes "client_call mid vas obj s = Inr (ret, obj', t)" and obj: "client_object_ok obj" and talks: "client_talks v s"
  shows "client_talks v t"
  using assms(1)
proof (cases rule: client_call_cases)
  case refused
  with talks show ?thesis by simp
next
  case (failed sp m u)
  have "client_talks v u" using talks unfolding failed(4) by (auto simp: client_view_def intro: client_talks_same)
  then show ?thesis unfolding failed(5) by (auto simp: client_errd_def client_view_def intro: client_talks_same)
next
  case (passed sp m u w pm data fds)
  have u: "client_talks v u" using talks unfolding passed(4) by (auto simp: client_view_def intro: client_talks_same)
  have "generated sp" using obj passed(1) by (simp add: client_object_ok_def)
  then have "params_ok (m_params m)"
    using passed(2,3) by (simp add: generated_def spec_ok_def client_methodsOut_def list_all_iff)
  with passed(7) call_message_shape obtain oid args where msg: "list_all typed args" "data = enc_Generic oid mid args"
    "fds = wire_args_fds args" by blast
  have "client_talks v w"
    using passed(5)
  proof
    assume w: "w = u\<lparr>cs_pendingOutgoing := cs_pendingOutgoing u @ [pm]\<rparr>"
    have "pending_typed pm" using msg passed(8,9) by (auto simp: pending_typed_def)
    with u show ?thesis unfolding w by (auto simp: client_talks_def client_log_def client_view_def)
  next
    assume w: "w = socket_sendMessage data fds u"
    with client_talks_send[OF u, of "CmCall oid mid args"] msg show ?thesis by simp
  qed
  then have "client_talks v (makeObject p n q w)" for p n q by (rule client_talks_same) simp_all
  with \<open>client_talks v w\<close> show ?thesis unfolding passed(6) by simp
qed

lemma client_talks_collect:
  assumes "client_ok s" and "client_talks v s" and "collectOrphanedObjects env s = Inr t"
  shows "client_talks v t"
proof -
  let ?u = "s\<lparr>cs_objects := filter (\<lambda>obj. \<not> orphaned env obj) (cs_objects s)\<rparr>"
  have objs: "\<forall>obj \<in> set (filter (orphaned env) (cs_objects s)). client_object_ok obj"
    using assms(1) by (simp add: client_ok_def list_all_iff)
  have u: "client_talks v ?u" using assms(2) by (rule client_talks_same) (simp_all add: client_view_def)
  have run: "release_objects (filter (orphaned env) (cs_objects s)) ?u = Inr t"
    using assms(3) by (simp only: collectOrphanedObjects_def)
  have "client_talks v t'" if "client_object_ok obj" "release_object obj s' = Inr t'" "client_talks v s'" for obj s' t'
    using that by (auto simp: release_object_def bnd_eq_Inr split: if_splits option.splits dest: client_talks_call)
  then show ?thesis using release_objects_keep[where P = "client_talks v", OF _ run u] objs by blast
qed

lemma client_talks_flush:
  assumes "client_talks v s"
  shows "client_talks v (flushPendingOutgoing s)"
proof -
  have step: "client_talks v (snd (flush_pending ms u)) \<and> (\<forall>p \<in> set (fst (flush_pending ms u)). p \<in> set ms)"
    if "\<forall>p \<in> set ms. pending_typed p" "client_talks v u" for ms u
    using that
  proof (induction ms u rule: flush_pending.induct)
    case (2 m ms u)
    have "client_talks v (socket_sendMessage (resolveSeq oid (pm_data m)) (pm_fds m) u)" for oid
    proof -
      from 2(4) obtain q mid args where "pm_data m = enc_Generic q mid args" "pm_fds m = wire_args_fds args" "list_all typed args"
        by (auto simp: pending_typed_def)
      with client_talks_send[OF 2(5), of "CmCall oid mid args"] show ?thesis by (simp add: resolveSeq_enc)
    qed
    with 2 show ?case by (auto split: option.split prod.split)
  qed simp
  have "\<forall>p \<in> set (cs_pendingOutgoing s). pending_typed p" using assms by (simp add: client_talks_def client_log_def)
  from step[OF this assms] this show ?thesis
    by (auto simp: flushPendingOutgoing_def client_talks_def client_log_def client_view_def split: prod.split)
qed

lemma client_talks_api:
  assumes "client_api s t" and "client_ok s" and "client_talks v s"
  shows "client_talks v t"
  using assms(1)
proof cases
  case (capi_call seq mid vas ret)
  then obtain obj obj' u where obj: "objectForSeq seq s = Some obj" "client_call mid vas obj s = Inr (ret, obj', u)"
    and t: "t = u\<lparr>cs_objects := map (\<lambda>ob. if w_seq ob = seq then ob\<lparr>w_destroyed := w_destroyed obj'\<rparr> else ob) (cs_objects u)\<rparr>"
    by (auto simp: call_seq_def bnd_eq_Inr split: option.splits)
  have "client_object_ok obj"
    using obj(1) assms(2) by (auto simp: objectForSeq_def find_Some_iff client_ok_def list_all_iff)
  then have "client_talks v u" using client_talks_call[OF obj(2) _ assms(3)] by simp
  then show ?thesis unfolding t by (rule client_talks_same) (simp_all add: client_view_def)
next
  case (capi_bind spec version r)
  show ?thesis
  proof (cases "version > specVer spec")
    case True
    with capi_bind(1) have t: "t = disconnectOnError s" by (simp add: bind_request_def)
    show ?thesis unfolding t using assms(3) by (rule client_talks_same) (simp_all add: client_view_def disconnectOnError_def)
  next
    case False
    with capi_bind(1) obtain u m where t: "t = socket_sendMessage (enc_client_msg (CmBind m)) (client_msg_fds (CmBind m)) u"
      and u: "cs_sent u = cs_sent s" "cs_pendingOutgoing u = cs_pendingOutgoing s" "client_view u = client_view s"
        "cs_fdValid u = cs_fdValid s" "cs_error u = cs_error s"
      by (auto simp: bind_request_def client_view_def Let_def split: list.splits)
    have "client_talks v u" using assms(3) u(1-3) by (rule client_talks_same) (simp add: u)
    from client_talks_send[OF this, of "CmBind m"] show ?thesis unfolding t by simp
  qed
next
  case (capi_listen seq obj mid fn obj')
  show ?thesis unfolding capi_listen(1) using assms(3) by (rule client_talks_same) (simp_all add: client_view_def)
next
  case (capi_impl p)
  show ?thesis unfolding capi_impl(1) using assms(3)
    by (rule client_talks_same) (simp_all add: client_view_def addImplementation_def)
qed

interpretation client_speech: client_quiet "\<lambda>c. client_ok c \<and> client_talks v c" for v
proof unfold_locales
  fix s t
  assume "client_api s t" "client_ok s \<and> client_talks v s"
  then show "client_ok t \<and> client_talks v t" using client_objects.keep_api client_talks_api by blast
next
  fix s t env
  assume "client_ok s \<and> client_talks v s" "collectOrphanedObjects env s = Inr t"
  then show "client_ok t \<and> client_talks v t" using client_objects.keep_collect client_talks_collect by blast
next
  fix s
  assume s: "client_ok s \<and> client_talks v s"
  then show "client_ok (flushPendingOutgoing s) \<and> client_talks v (flushPendingOutgoing s)"
    using client_objects.keep_flush client_talks_flush by blast
  show "client_ok (socket_sendMessage (enc_HandshakeAck HYPRWIRE_PROTOCOL_VER) [] s) \<and>
      client_talks v (socket_sendMessage (enc_HandshakeAck HYPRWIRE_PROTOCOL_VER) [] s)"
    using s client_talks_send[of v s "CmAck HYPRWIRE_PROTOCOL_VER"] by simp
  show "client_ok (client_errd s) \<and> client_talks v (client_errd s)"
    "client_ok (disconnectOnError s) \<and> client_talks v (disconnectOnError s)"
    using s by (auto simp: client_errd_def disconnectOnError_def client_talks_def client_log_def client_view_def client_ok_def)
  show "client_ok (client_destroyIfNeeded seq oid m s) \<and> client_talks v (client_destroyIfNeeded seq oid m s)" for seq oid m
    using s client_objects.keep_destroy[of s seq oid m]
    by (auto simp: client_destroyIfNeeded_def socket_destroyObject_def Let_def client_talks_def client_log_def client_view_def)
qed

section \<open>Ids\<close>

text \<open>Every id an object has is one of the pairs of sequence and id in \<open>L\<close>.\<close>

definition ids_from :: "(u32 \<times> u32) set \<Rightarrow> client_socket \<Rightarrow> bool" where
  "ids_from L c \<longleftrightarrow> (\<forall>obj \<in> set (cs_objects c). w_id obj \<noteq> 0 \<longrightarrow> (w_seq obj, w_id obj) \<in> L)"

lemma ids_from_mono: "ids_from L c \<Longrightarrow> L \<subseteq> L' \<Longrightarrow> ids_from L' c"
  by (auto simp: ids_from_def)

lemma ids_from_objects:
  assumes "ids_from L s"
    and "\<And>obj. obj \<in> set (cs_objects t) \<Longrightarrow> w_id obj = 0 \<or> (\<exists>ob \<in> set (cs_objects s). w_id ob = w_id obj \<and> w_seq ob = w_seq obj)"
  shows "ids_from L t"
  using assms unfolding ids_from_def by metis

lemma ids_from_call:
  assumes "client_call mid vas obj s = Inr (ret, obj', t)" and "ids_from L s"
  shows "ids_from L t"
proof -
  have more: "ids_from L (makeObject p n q u)" if "ids_from L u" for p n q u
    using that by (rule ids_from_objects) (auto simp: makeObject_def split: option.splits)
  have same: "ids_from L u" if "cs_objects u = cs_objects s" for u
    using assms(2) that by (simp add: ids_from_def)
  from assms(1) show ?thesis
  proof (cases rule: client_call_cases)
    case (passed sp m u v pm data fds)
    then have "cs_objects v = cs_objects s" by (auto simp: socket_sendMessage_def)
    with passed(6) more same show ?thesis by (auto split: if_splits)
  qed (use same in \<open>auto simp: client_errd_def split: if_splits\<close>)
qed

lemma ids_from_onSeq: "ids_from L s \<Longrightarrow> (seq, oid) \<in> L \<Longrightarrow> ids_from L (onSeq seq oid s)"
proof -
  have "obj \<in> set (set_id seq oid objs) \<Longrightarrow>
      (w_seq obj = seq \<and> w_id obj = oid) \<or> obj \<in> set objs" for obj objs
    by (induction objs) (auto split: if_splits)
  then show "ids_from L s \<Longrightarrow> (seq, oid) \<in> L \<Longrightarrow> ids_from L (onSeq seq oid s)"
    unfolding ids_from_def onSeq_def by fastforce
qed

interpretation client_ids: client_quiet "ids_from L" for L
proof unfold_locales
  fix s t
  assume "client_api s t" and ids: "ids_from L s"
  then show "ids_from L t"
  proof cases
    case (capi_call seq mid vas ret)
    then obtain obj obj' u where call: "client_call mid vas obj s = Inr (ret, obj', u)"
      and t: "t = u\<lparr>cs_objects := map (\<lambda>ob. if w_seq ob = seq then ob\<lparr>w_destroyed := w_destroyed obj'\<rparr> else ob) (cs_objects u)\<rparr>"
      by (auto simp: call_seq_def bnd_eq_Inr split: option.splits)
    show ?thesis unfolding t using ids_from_call[OF call ids] by (rule ids_from_objects) auto
  next
    case (capi_bind spec version r)
    show ?thesis using ids by (rule ids_from_objects)
      (use capi_bind(1) in \<open>auto simp: bind_request_def Let_def disconnectOnError_def socket_sendMessage_def split: if_splits list.splits\<close>)
  next
    case (capi_listen seq obj mid fn obj')
    show ?thesis unfolding capi_listen(1) using ids by (rule ids_from_objects) auto
  next
    case (capi_impl p)
    with ids show ?thesis by (simp add: addImplementation_def ids_from_def)
  qed
next
  fix s t env
  assume ids: "ids_from L s" and run: "collectOrphanedObjects env s = Inr t"
  have "ids_from L (s\<lparr>cs_objects := filter (\<lambda>obj. \<not> orphaned env obj) (cs_objects s)\<rparr>)"
    using ids by (simp add: ids_from_def)
  moreover have "ids_from L t'" if "release_object obj s' = Inr t'" "ids_from L s'" for obj s' t'
    using that by (auto simp: release_object_def bnd_eq_Inr split: if_splits option.splits dest: ids_from_call)
  ultimately show "ids_from L t"
    using release_objects_keep[where P = "ids_from L", OF _ run[unfolded collectOrphanedObjects_def]] by blast
next
  fix s
  show "ids_from L s \<Longrightarrow> ids_from L (flushPendingOutgoing s)"
    by (rule flush_keeps[of "ids_from L"]) (auto simp: socket_sendMessage_def ids_from_def)
qed (auto simp: ids_from_def socket_sendMessage_def client_errd_def disconnectOnError_def client_destroyIfNeeded_def
    socket_destroyObject_def Let_def)

section \<open>What was sent stays sent\<close>

lemma history_call:
  "client_call mid vas obj s = Inr (ret, obj', t) \<Longrightarrow> prefix before (cs_sent s) \<Longrightarrow> prefix before (cs_sent t)"
  by (erule client_call_cases) (auto simp: client_errd_def socket_sendMessage_def split: if_splits)

interpretation client_history: client_invariant "\<lambda>c. prefix before (cs_sent c)" for before
proof unfold_locales
  fix s t
  assume "client_api s t" and p: "prefix before (cs_sent s)"
  then show "prefix before (cs_sent t)"
  proof cases
    case (capi_call seq mid vas ret)
    with p show ?thesis by (auto simp: call_seq_def bnd_eq_Inr split: option.splits dest: history_call)
  qed (use p in \<open>auto simp: bind_request_def Let_def disconnectOnError_def socket_sendMessage_def addImplementation_def
      split: if_splits list.splits\<close>)
next
  fix s t env
  assume p: "prefix before (cs_sent s)" and run: "collectOrphanedObjects env s = Inr t"
  have "prefix before (cs_sent t')" if "release_object obj s' = Inr t'" "prefix before (cs_sent s')" for obj s' t'
    using that by (auto simp: release_object_def bnd_eq_Inr split: if_splits option.splits dest: history_call)
  then show "prefix before (cs_sent t)"
    using release_objects_keep[where P = "\<lambda>c. prefix before (cs_sent c)", OF _ run[unfolded collectOrphanedObjects_def]] p by auto
next
  fix s
  show "prefix before (cs_sent s) \<Longrightarrow> prefix before (cs_sent (flushPendingOutgoing s))"
    by (rule flush_keeps[of "\<lambda>c. prefix before (cs_sent c)"]) (auto simp: socket_sendMessage_def)
next
  fix names s
  have "cs_sent (add_specs names s) = cs_sent s" for s
    by (induction names s rule: add_specs.induct) (auto simp: disconnectOnError_def split: option.split)
  then show "prefix before (cs_sent s) \<Longrightarrow> prefix before (cs_sent (serverSpecs names s))"
    by (simp add: serverSpecs_def)
qed (auto simp: socket_sendMessage_def client_errd_def disconnectOnError_def client_destroyIfNeeded_def
    socket_destroyObject_def onSeq_def Let_def)

end
