(* ===== verification/Two_Ends.thy ===== *)
theory Two_Ends
  imports Server_Speech Client_Speech
begin

text \<open>
  A client and a server connected by a socket, as one system whose steps interleave: either
  user calls the library at any time, either end reads what the other has sent. What is in
  flight is the part of the sender's log the receiver has not read. A read takes whole
  messages.
\<close>

section \<open>The system\<close>

record system =
  sy_client :: client_socket
  sy_server :: server_client
  sy_up :: nat
  sy_down :: nat

text \<open>
  \<open>sy_up\<close> and \<open>sy_down\<close> count the messages each end has handled. A dispatch of the client
  that brings no message: it is in error, its handshake is overdue, nothing has arrived or
  the read fails.
\<close>

definition no_message :: "client_socket \<Rightarrow> bool \<Rightarrow> dispatch_input \<Rightarrow> bool" where
  "no_message c block inp \<longleftrightarrow>
     cs_error c \<or> \<not> cs_handshakeDone c \<and> block \<and> (di_deadlinePassed inp \<or> \<not> di_pollEvent inp) \<or>
     \<not> di_pollin inp \<or> (case di_read inp of None \<Rightarrow> True | Some (data, fds) \<Rightarrow> data = [])"

text \<open>\<^verbatim>\<open>roundtrip\<close> up to its wait.\<close>

definition begin_roundtrip :: "client_socket \<Rightarrow> client_socket" where
  "begin_roundtrip c =
     (let nextSeq = cs_lastSentRoundtripSeq c + 1
      in socket_sendMessage (enc_RoundtripRequest nextSeq) [] (c\<lparr>cs_lastSentRoundtripSeq := nextSeq\<rparr>))"

lemma roundtrip_begins:
  "roundtrip env inps c =
     (if cs_error c then Some (Inr (inps, c))
      else await_roundtrip env (cs_lastSentRoundtripSeq c + 1) inps (begin_roundtrip c))"
  by (simp add: roundtrip_def begin_roundtrip_def Let_def)

definition system_start :: "int \<Rightarrow> system" where
  "system_start fd =
     \<lparr>sy_client = open_socket True, sy_server = new_server_client fd True, sy_up = 0, sy_down = 0\<rparr>"

text \<open>
  A server that is in error reads no more: the socket drops the connection. Of the messages
  of a read it has handled those before the one that put it in error, and that one.
\<close>

inductive system_step :: "client_env \<Rightarrow> server_env \<Rightarrow> protocol_impl list \<Rightarrow> system \<Rightarrow> system \<Rightarrow> bool"
  for cenv senv impls where
  client_user: "client_api (sy_client y) c \<Longrightarrow> system_step cenv senv impls y (y\<lparr>sy_client := c\<rparr>)"
| client_roundtrip: "\<not> cs_error (sy_client y) \<Longrightarrow> cs_lastSentRoundtripSeq (sy_client y) \<noteq> - 1 \<Longrightarrow>
    system_step cenv senv impls y (y\<lparr>sy_client := begin_roundtrip (sy_client y)\<rparr>)"
| client_idles: "no_message (sy_client y) block inp \<Longrightarrow>
    dispatchEvents cenv block inp (sy_client y) = Some (Inr (go, c)) \<Longrightarrow>
    system_step cenv senv impls y (y\<lparr>sy_client := c\<rparr>)"
| client_reads: "\<not> no_message (sy_client y) block inp \<Longrightarrow> di_read inp = Some (enc_replies ms, replies_fds ms) \<Longrightarrow>
    drop (sy_down y) (sc_sent (sy_server y)) = map server_entry ms @ later \<Longrightarrow>
    list_all ok_server_msg ms \<Longrightarrow> vec_ok (enc_replies ms) \<Longrightarrow>
    dispatchEvents cenv block inp (sy_client y) = Some (Inr (go, c)) \<Longrightarrow>
    system_step cenv senv impls y (y\<lparr>sy_client := c, sy_down := sy_down y + length ms\<rparr>)"
| server_user: "api impls (sy_server y) s \<Longrightarrow> system_step cenv senv impls y (y\<lparr>sy_server := s\<rparr>)"
| server_idles: "raw = None \<or> raw = Some ([], fds) \<Longrightarrow>
    dispatchClient senv impls raw (sy_server y) = Some (Inr s) \<Longrightarrow>
    system_step cenv senv impls y (y\<lparr>sy_server := s\<rparr>)"
| server_reads: "\<not> sc_error (sy_server y) \<Longrightarrow> ms \<noteq> [] \<Longrightarrow>
    drop (sy_up y) (cs_sent (sy_client y)) = map client_entry ms @ later \<Longrightarrow>
    list_all ok_client_msg ms \<Longrightarrow> vec_ok (enc_stream ms) \<Longrightarrow>
    serve senv impls ms (sy_server y) = Inr (rest, u) \<Longrightarrow>
    dispatchClient senv impls (Some (enc_stream ms, stream_fds ms)) (sy_server y) = Some (Inr s) \<Longrightarrow>
    system_step cenv senv impls y (y\<lparr>sy_server := s, sy_up := sy_up y + (length ms - length rest)\<rparr>)"

abbreviation reachable :: "client_env \<Rightarrow> server_env \<Rightarrow> protocol_impl list \<Rightarrow> system \<Rightarrow> bool" where
  "reachable cenv senv impls y \<equiv> \<exists>fd. (system_step cenv senv impls)\<^sup>*\<^sup>* (system_start fd) y"

section \<open>The server's side\<close>

abbreviation done_entry :: "u32 \<Rightarrow> byte list \<times> int list" where
  "done_entry q \<equiv> server_entry (SmDone q)"

abbreviation request_entry :: "u32 \<Rightarrow> byte list \<times> int list" where
  "request_entry q \<equiv> client_entry (CmRoundtrip q)"

lemma request_entry_inj: "request_entry q = request_entry q' \<longleftrightarrow> q = q'"
  using roundtrip_request.enc_inject[of q q'] by (auto simp: ok_RoundtripRequest_def vec_ok_def enc_RoundtripRequest_def)

text \<open>A roundtrip is scheduled or acknowledged only on a request among the messages \<open>U\<close> handled.\<close>

definition acks_from :: "(byte list \<times> int list) set \<Rightarrow> u32 \<Rightarrow> (byte list \<times> int list) list \<Rightarrow> bool" where
  "acks_from U q dones \<longleftrightarrow>
     (q \<noteq> 0 \<longrightarrow> request_entry q \<in> U) \<and> (\<forall>k. done_entry k \<in> set dones \<longrightarrow> request_entry k \<in> U)"

definition server_side :: "protocol_impl list \<Rightarrow> (byte list \<times> int list) set \<Rightarrow> server_client \<Rightarrow> bool" where
  "server_side impls U s \<longleftrightarrow>
     objects_ok impls s \<and> (impls_ok impls \<longrightarrow> server_talks impls s) \<and> ids_numbered s \<and>
     acks_from U (sc_scheduledRoundtripSeq s) (filter is_done (sc_sent s))"

lemma server_side_mono: "server_side impls U s \<Longrightarrow> U \<subseteq> V \<Longrightarrow> server_side impls V s"
  by (auto simp: server_side_def acks_from_def)

interpretation sided: quiet_invariant impls "server_side impls U" for impls U
proof -
  have acks: "quiet_invariant impls (\<lambda>s. acks_from U (sc_scheduledRoundtripSeq s) (filter is_done (sc_sent s)))"
    by (rule quiet_view[where R = "acks_from U" and f = sc_scheduledRoundtripSeq and g = "\<lambda>s. filter is_done (sc_sent s)",
        OF schedule.quiet_invariant_axioms acks.quiet_invariant_axioms])
  show "quiet_invariant impls (server_side impls U)"
    unfolding server_side_def[abs_def]
    by (rule quiet_conj[OF bound.quiet_invariant_axioms quiet_conj[OF server_speech.quiet_invariant_axioms
        quiet_conj[OF numbering.quiet_invariant_axioms acks]]])
qed

lemma serve_one_side:
  assumes "env_ok env impls" and "server_side impls U s" and "serve_one env impls m s = Inr t" and "client_entry m \<in> U"
  shows "server_side impls U t"
proof (cases "\<exists>q. m = CmRoundtrip q")
  case True
  then obtain q where "m = CmRoundtrip q" by blast
  with assms(2-4) show ?thesis
    by (auto simp: server_side_def acks_from_def objects_ok_def intro: server_speech.keep_seq numbering.keep_seq)
next
  case False
  then show ?thesis using sided.keep_serve_one[OF assms(1,2) _ assms(3)] by blast
qed

lemma serve_side:
  "env_ok env impls \<Longrightarrow> serve env impls ms s = Inr (rest, t) \<Longrightarrow> server_side impls U s \<Longrightarrow>
     (\<exists>handled. ms = handled @ rest \<and> server_side impls (U \<union> set (map client_entry handled)) t) \<and>
     (rest \<noteq> [] \<longrightarrow> sc_error t)"
proof (induction ms arbitrary: s U)
  case (Cons m ms)
  show ?case
  proof (cases "sc_error s")
    case True
    with Cons.prems show ?thesis by auto
  next
    case False
    with Cons.prems(2) obtain u where u: "serve_one env impls m s = Inr u" "serve env impls ms u = Inr (rest, t)"
      by (auto simp: bnd_eq_Inr)
    let ?U = "insert (client_entry m) U"
    have "server_side impls ?U s" using Cons.prems(3) by (rule server_side_mono) blast
    then have "server_side impls ?U u" using serve_one_side[OF Cons.prems(1) _ u(1)] by blast
    from Cons.IH[OF Cons.prems(1) u(2) this] obtain handled where "ms = handled @ rest"
      "server_side impls (?U \<union> set (map client_entry handled)) t" and err: "rest \<noteq> [] \<longrightarrow> sc_error t" by blast
    then show ?thesis by (intro conjI exI[of _ "m # handled"]) simp_all
  qed
qed auto

lemma server_side_answered:
  assumes "server_side impls U s" and "sc_scheduledRoundtripSeq s \<noteq> 0"
  shows "server_side impls U ((client_sendMessage (enc_RoundtripDone (sc_scheduledRoundtripSeq s)) [] s)
    \<lparr>sc_scheduledRoundtripSeq := 0\<rparr>)"
proof -
  let ?q = "sc_scheduledRoundtripSeq s"
  let ?t = "client_sendMessage (enc_RoundtripDone ?q) [] s"
  have inj: "k = q" if "enc_RoundtripDone k = enc_RoundtripDone q" for k q
    using that by (auto simp: enc_RoundtripDone_def dest: arg_cong[of _ _ bytes_u32])
  have "acks_from U 0 (filter is_done (sc_sent ?t))"
    using assms by (auto simp: server_side_def acks_from_def client_sendMessage_def dest: inj)
  moreover have "objects_ok impls ?t" using assms(1) bound.keep_done by (simp add: server_side_def)
  moreover have "impls_ok impls \<longrightarrow> server_talks impls ?t" using assms(1) server_speech.keep_done by (simp add: server_side_def)
  moreover have "ids_numbered ?t" using assms(1) numbering.keep_done by (simp add: server_side_def)
  ultimately show ?thesis
    using numbering.keep_seq[of ?t 0] by (simp add: server_side_def objects_ok_def)
qed

text \<open>What a dispatch makes of the state \<open>u\<close> its read has led to.\<close>

lemma dispatched_stream:
  assumes ms: "list_all ok_client_msg ms" "vec_ok (enc_stream ms)" "ms \<noteq> []"
    and run: "serve env impls ms s = Inr (rest, u)" "dispatchClient env impls (Some (enc_stream ms, stream_fds ms)) s = Some (Inr t)"
  shows "t = (if stream_fds rest \<noteq> [] then object_error no_object (- 1) ''fatal: failed to handle message on wire'' u
     else if 0 < sc_scheduledRoundtripSeq u then
       (client_sendMessage (enc_RoundtripDone (sc_scheduledRoundtripSeq u)) [] u)\<lparr>sc_scheduledRoundtripSeq := 0\<rparr>
     else u)"
proof -
  have "enc_stream ms \<noteq> []" using ms(3) by (cases ms) simp_all
  then show ?thesis
    using run(2) read_serves[OF ms(1,2) run(1)] by (cases "stream_fds rest = []") (simp_all add: dispatchClient_def)
qed

lemma dispatchClient_side:
  assumes env: "env_ok env impls" and side: "server_side impls U s" and ms: "list_all ok_client_msg ms" "vec_ok (enc_stream ms)"
    and run: "serve env impls ms s = Inr (rest, u)" "dispatchClient env impls (Some (enc_stream ms, stream_fds ms)) s = Some (Inr t)"
  shows "\<exists>handled. ms = handled @ rest \<and> server_side impls (U \<union> set (map client_entry handled)) t"
proof -
  from serve_side[OF env run(1) side] obtain handled where ms': "ms = handled @ rest"
    and u: "server_side impls (U \<union> set (map client_entry handled)) u" by blast
  have "server_side impls (U \<union> set (map client_entry handled)) t"
  proof (cases "ms = []")
    case True
    with run(2) have "t = s" by (simp add: dispatchClient_def)
    with side server_side_mono show ?thesis by blast
  next
    case False
    note t = dispatched_stream[OF ms False run]
    show ?thesis
    proof (cases "stream_fds rest = []")
      case True
      with t server_side_answered[OF u] u show ?thesis by (cases "sc_scheduledRoundtripSeq u = 0") (simp_all add: word_gt_0)
    next
      case False
      with t sided.keep_error[OF u] show ?thesis by (simp only: simp_thms if_True)
    qed
  qed
  with ms' show ?thesis by blast
qed

section \<open>The client's side\<close>

text \<open>
  What a client may know when the server has exposed \<open>ex\<close> and the messages \<open>R\<close> have been
  read: acknowledged sequences and ids from those messages, specifications of exposed
  protocols; and its own requests are numbered from one.
\<close>

definition exposed_specs :: "protocol_impl list \<Rightarrow> string set \<Rightarrow> protocol_spec set" where
  "exposed_specs impls ex =
     (\<lambda>i. server_spec (specName (protocol i)) (specVer (protocol i))) ` {i \<in> set impls. specName (protocol i) \<in> ex}"

fun view_ok ::
  "protocol_impl list \<Rightarrow> string set \<Rightarrow> (byte list \<times> int list) set \<Rightarrow>
   u32 \<times> u32 \<times> (byte list \<times> int list) list \<times> protocol_spec list \<Rightarrow> bool" where
  "view_ok impls ex R (acked, asked_for, requests, specs) \<longleftrightarrow>
     (acked \<noteq> 0 \<longrightarrow> done_entry acked \<in> R) \<and>
     requests = map (\<lambda>k. request_entry (of_nat k)) [1..<Suc (unat asked_for)] \<and>
     set specs \<subseteq> exposed_specs impls ex"

definition client_side ::
  "protocol_impl list \<Rightarrow> string set \<Rightarrow> (byte list \<times> int list) set \<Rightarrow> client_socket \<Rightarrow> bool" where
  "client_side impls ex R c \<longleftrightarrow>
     (\<exists>v. (client_ok c \<and> client_talks v c) \<and> view_ok impls ex R v) \<and> ids_from {(q, oid). new_entry q oid \<in> R} c"

lemma client_side_iff:
  "client_side impls ex R c \<longleftrightarrow>
     client_ok c \<and> client_log c \<and> (cs_fdValid c \<or> cs_error c) \<and> view_ok impls ex R (client_view c) \<and>
     ids_from {(q, oid). new_entry q oid \<in> R} c"
  by (auto simp: client_side_def client_talks_def)

lemma client_side_mono:
  assumes "client_side impls ex R c" and "ex \<subseteq> ex'" and "R \<subseteq> R'"
  shows "client_side impls ex' R' c"
proof -
  have "exposed_specs impls ex \<subseteq> exposed_specs impls ex'" using assms(2) by (auto simp: exposed_specs_def)
  then have "view_ok impls ex R v \<Longrightarrow> view_ok impls ex' R' v" for v
    using assms(3) by (cases v) auto
  moreover have "ids_from {(q, oid). new_entry q oid \<in> R'} c"
    using assms(1,3) by (auto simp: client_side_def intro: ids_from_mono)
  ultimately show ?thesis using assms(1) by (auto simp: client_side_iff)
qed

interpretation client_sided: client_quiet "client_side impls ex R" for impls ex R
  unfolding client_side_def[abs_def]
  by (rule client_quiet_conj[OF client_quiet_ex[OF client_speech.client_quiet_axioms] client_ids.client_quiet_axioms])

lemma learn_specs:
  assumes "client_side impls ex R c" and "set names \<subseteq> set (protocol_names impls xs)" and "set xs \<subseteq> ex"
  shows "client_side impls ex R (serverSpecs names c)"
proof -
  have "\<forall>name \<in> set names. \<exists>i \<in> set impls. specName (protocol i) \<in> ex \<and> name = protocol_entry (protocol i)"
    using assms(2,3) by (fastforce simp: protocol_names_def)
  then obtain f where f: "\<And>name. name \<in> set names \<Longrightarrow> f name \<in> set impls \<and> specName (protocol (f name)) \<in> ex \<and>
      name = protocol_entry (protocol (f name))" by metis
  let ?ps = "map (\<lambda>name. protocol (f name)) names"
  have "names = map protocol_entry ?ps" using f by (simp add: map_idI o_def)
  then have specs: "serverSpecs names c = c\<lparr>cs_serverSpecs := cs_serverSpecs c @ map (\<lambda>p. server_spec (specName p) (specVer p)) ?ps,
      cs_handshakeDone := True\<rparr>"
    using add_specs_entries[of ?ps c] by (simp add: serverSpecs_def)
  have new: "server_spec (specName p) (specVer p) \<in> exposed_specs impls ex" if "p \<in> set ?ps" for p
    using that f unfolding exposed_specs_def by auto
  have "view_ok impls ex R (client_view (serverSpecs names c))"
    using assms(1) new unfolding specs client_side_iff by (auto simp: client_view_def)
  moreover have "client_log (serverSpecs names c)" "ids_from {(q, oid). new_entry q oid \<in> R} (serverSpecs names c)"
    "cs_fdValid (serverSpecs names c) \<or> cs_error (serverSpecs names c)"
    using assms(1) unfolding specs client_side_iff by (simp_all add: client_log_def ids_from_def)
  ultimately show ?thesis using assms(1) client_objects.keep_specs by (simp add: client_side_iff)
qed

text \<open>
  The limits on sizes, for what the server encodes of its protocols: their number and the
  lengths of their names. A message within the limits that reads like one the server had
  reason to send is one.
\<close>

definition impls_fit :: "protocol_impl list \<Rightarrow> bool" where
  "impls_fit impls \<longleftrightarrow> length impls < 2048 \<and> list_all (\<lambda>i. ok_string (protocol_entry (protocol i))) impls"

lemma ok_said_protocols:
  assumes "impls_fit impls" and "said impls xs (SmProtocols names)"
  shows "ok_HandshakeProtocols names"
  using assms by (auto simp: impls_fit_def ok_HandshakeProtocols_def list_all_iff protocol_names_def)

lemma said_unique:
  assumes fit: "impls_fit impls" and ok: "ok_server_msg m" "vec_ok (enc_server_msg m)"
    and said: "said impls xs m'" and eq: "server_entry m = server_entry m'"
  shows "said impls xs m"
proof -
  have enc: "enc_server_msg m = enc_server_msg m'" using eq by simp
  have kind: "type_of_byte (hd (enc_server_msg m)) = type_of_byte (hd (enc_server_msg m'))" by (simp only: enc)
  note kind = kind[unfolded hd_enc_server_msg]
  show ?thesis
  proof (cases m)
    case (SmHandshakeBegin versions)
    with kind obtain versions' where m': "m' = SmHandshakeBegin versions'" by (cases m') simp_all
    with said have "versions' = [HYPRWIRE_PROTOCOL_VER]" by simp
    then have "versions = versions'"
      using ok enc unfolding SmHandshakeBegin m' by (intro handshake_begin.enc_inject) (simp_all add: ok_HandshakeBegin_def)
    with said SmHandshakeBegin m' show ?thesis by simp
  next
    case (SmProtocols names)
    with kind obtain names' where m': "m' = SmProtocols names'" by (cases m') simp_all
    with said have "ok_HandshakeProtocols names'" using ok_said_protocols[OF fit] by blast
    then have "names = names'"
      using ok enc unfolding SmProtocols m' by (intro handshake_protocols.enc_inject) simp_all
    with said SmProtocols m' show ?thesis by simp
  next
    case (SmCall oid mid args)
    with ok show ?thesis by (simp add: list_all_iff wire_ok_iff)
  qed simp_all
qed

lemma receive_one_side:
  assumes env: "client_env_ok env" and side: "client_side impls ex R c"
    and m: "ok_server_msg m" "vec_ok (enc_server_msg m)" "server_entry m \<in> R" "said impls xs m" "set xs \<subseteq> ex"
  shows "\<exists>t. receive_one env m c = Inr (True, t) \<and> client_side impls ex R t"
proof (cases m)
  case (SmHandshakeBegin versions)
  with m(4) client_sided.keep_ack[OF side] show ?thesis by simp
next
  case (SmProtocols names)
  with m(4,5) have "set names \<subseteq> set (protocol_names impls xs)" by simp
  from learn_specs[OF side this m(5)] SmProtocols show ?thesis by simp
next
  case (SmNewObject n)
  obtain q oid where n: "n = \<lparr>no_seq = q, no_id = oid\<rparr>" by (cases n)
  have same: "client_log (onSeq q oid c) = client_log c" "client_view (onSeq q oid c) = client_view c"
    "cs_fdValid (onSeq q oid c) = cs_fdValid c" "cs_error (onSeq q oid c) = cs_error c"
    by (simp_all add: onSeq_def client_log_def client_view_def)
  have "(q, oid) \<in> {(q, oid). new_entry q oid \<in> R}" using m(3) SmNewObject n by simp
  then have "ids_from {(q, oid). new_entry q oid \<in> R} (onSeq q oid c)"
    using side ids_from_onSeq unfolding client_side_iff by blast
  with side same client_ok_onSeq have "client_side impls ex R (onSeq q oid c)" unfolding client_side_iff by simp
  with SmNewObject n show ?thesis by simp
next
  case (SmCall oid mid args)
  let ?msg = "\<lparr>gm_object = oid, gm_method = mid, gm_data = wire_args args @ [0], gm_fds = wire_args_fds args\<rparr>"
  have "list_all wire_ok args" using m(1) SmCall by simp
  then have "block_at (wire_args args @ [0]) 0 args" by (rule block_at_wire_args) (rule stands_self)
  then have "block_at (gm_data ?msg) 0 args" by simp
  moreover have "vec_ok (gm_data ?msg)" using m(2) SmCall by (simp add: vec_ok_def)
  ultimately obtain t where t: "socket_onGeneric env ?msg c = Inr t"
    using socket_onGeneric_block[of c ?msg args env] side by (auto simp: client_side_iff)
  with client_sided.keep_onGeneric[OF env side t] SmCall show ?thesis by simp
next
  case (SmFatal f)
  with client_sided.keep_errd[OF side] show ?thesis by simp
next
  case (SmDone q)
  have "client_side impls ex R (c\<lparr>cs_lastAckdRoundtripSeq := q\<rparr>)"
    using side m(3) SmDone unfolding client_side_iff
    by (simp add: client_view_def client_log_def ids_from_def)
  with SmDone show ?thesis by simp
qed

lemma receive_side:
  "client_env_ok env \<Longrightarrow> client_side impls ex R c \<Longrightarrow> list_all ok_server_msg ms \<Longrightarrow> vec_ok (enc_replies ms) \<Longrightarrow>
     set (map server_entry ms) \<subseteq> R \<Longrightarrow> list_all (said impls xs) ms \<Longrightarrow> set xs \<subseteq> ex \<Longrightarrow>
     \<exists>t. receive env ms c = Inr (True, t) \<and> client_side impls ex R t"
proof (induction ms arbitrary: c)
  case (Cons m ms)
  have v: "vec_ok (enc_server_msg m)" "vec_ok (enc_replies ms)" using Cons.prems(4) by (simp_all add: vec_ok_def)
  obtain u where u: "receive_one env m c = Inr (True, u)" "client_side impls ex R u"
    using receive_one_side[OF Cons.prems(1,2) _ v(1), of xs] Cons.prems(3,5,6,7) by auto
  with Cons.IH[OF Cons.prems(1) u(2) _ v(2)] Cons.prems(3,5,6,7) show ?case by simp
qed simp

lemma collect_exact:
  assumes "client_ok c"
  shows "collectOrphanedObjects env c = Inr (c\<lparr>cs_objects := filter (\<lambda>obj. \<not> orphaned env obj) (cs_objects c),
    cs_sent := cs_sent c @ (if cs_fdValid c then concat (map destructor_msg (filter (orphaned env) (cs_objects c))) else [])\<rparr>)"
proof (cases "cs_fdValid c")
  case True
  have "\<forall>obj \<in> set (filter (orphaned env) (cs_objects c)). client_object_ok obj \<and> w_id obj \<noteq> 0"
    using assms by (auto simp: client_ok_def list_all_iff orphaned_def)
  from releases_send[OF this] True show ?thesis by (simp add: collectOrphanedObjects_def)
next
  case False
  then have "release_objects objs s = Inr s" if "\<not> cs_fdValid s" for objs and s :: client_socket
    using that by (induction objs) (simp_all add: release_object_def)
  with False show ?thesis by (simp add: collectOrphanedObjects_def)
qed

lemma collect_returns: "client_ok c \<Longrightarrow> \<exists>t. collectOrphanedObjects env c = Inr t"
  using collect_exact by blast

lemma handshake_kept: "collectOrphanedObjects env c = Inr t \<Longrightarrow> cs_handshakeDone t = cs_handshakeDone c"
proof -
  assume run: "collectOrphanedObjects env c = Inr t"
  have "cs_handshakeDone t' = b" if "release_object obj s = Inr t'" "cs_handshakeDone s = b" for obj s t' b
  proof (cases "t' = s")
    case False
    with that(1) obtain mid ret obj' where "client_call mid [] obj s = Inr (ret, obj', t')"
      by (auto simp: release_object_def bnd_eq_Inr split: if_splits option.splits)
    then show ?thesis using that(2)
      by (cases rule: client_call_cases)
        (auto simp: client_errd_def socket_sendMessage_def makeObject_def split: if_splits option.splits)
  qed (use that in simp)
  then show ?thesis
    using release_objects_keep[where P = "\<lambda>s. cs_handshakeDone s = cs_handshakeDone c",
        OF _ run[unfolded collectOrphanedObjects_def]] by auto
qed

text \<open>The parts of a dispatch that reads messages of the server.\<close>

lemma client_read_parts:
  assumes env: "client_env_ok env" and side: "client_side impls ex R c"
    and ms: "list_all ok_server_msg ms" "vec_ok (enc_replies ms)" "set (map server_entry ms) \<subseteq> R"
      "list_all (said impls xs) ms" "set xs \<subseteq> ex"
    and reads: "\<not> no_message c block inp" "di_read inp = Some (enc_replies ms, replies_fds ms)"
  shows "\<exists>u w t. collectOrphanedObjects env c = Inr u \<and> client_side impls ex R u \<and>
    receive env ms u = Inr (True, w) \<and> client_side impls ex R w \<and>
    collectOrphanedObjects env (flushPendingOutgoing w) = Inr t \<and> client_side impls ex R t \<and>
    dispatchEvents env block inp c = Some (Inr (\<not> cs_error t, t))"
proof -
  have "client_ok c" using side by (simp add: client_side_iff)
  then obtain u where u: "collectOrphanedObjects env c = Inr u" using collect_returns by blast
  have u': "client_side impls ex R u" using client_sided.keep_collect[OF side u] .
  obtain w where w: "receive env ms u = Inr (True, w)" "client_side impls ex R w"
    using receive_side[OF env u' ms] by blast
  have handled: "client_handleMessage env (enc_replies ms) (replies_fds ms) u = Some (Inr (MESSAGE_PARSED_OK, w))"
    using read_receives[OF ms(1,2) w(1)] by simp
  have f: "client_side impls ex R (flushPendingOutgoing w)" using client_sided.keep_flush[OF w(2)] .
  then have "client_ok (flushPendingOutgoing w)" by (simp add: client_side_iff)
  then obtain t where t: "collectOrphanedObjects env (flushPendingOutgoing w) = Inr t" using collect_returns by blast
  have "client_side impls ex R t" using client_sided.keep_collect[OF f t] .
  moreover have "dispatchEvents env block inp c = Some (Inr (\<not> cs_error t, t))"
    using reads u handled t handshake_kept[OF u]
    by (auto simp: no_message_def dispatchEvents_def dispatch_read_def)
  ultimately show ?thesis using u u' w t by blast
qed

lemma client_read_side:
  assumes "client_env_ok env" "client_side impls ex R c" "list_all ok_server_msg ms" "vec_ok (enc_replies ms)"
    "set (map server_entry ms) \<subseteq> R" "list_all (said impls xs) ms" "set xs \<subseteq> ex"
    "\<not> no_message c block inp" "di_read inp = Some (enc_replies ms, replies_fds ms)"
  shows "\<exists>go t. dispatchEvents env block inp c = Some (Inr (go, t)) \<and> client_side impls ex R t"
  using client_read_parts[OF assms] by blast

context client_quiet
begin

lemma keep_no_message:
  assumes s: "P s" and step: "dispatchEvents env block inp s = Some (Inr (go, t))" and no: "no_message s block inp"
  shows "P t"
proof (cases "cs_error s")
  case True
  with step s show ?thesis by (simp add: dispatchEvents_def)
next
  case False
  with step obtain u where u: "collectOrphanedObjects env s = Inr u"
    and rest: "(if \<not> cs_handshakeDone u \<and> block \<and> (di_deadlinePassed inp \<or> \<not> di_pollEvent inp) then
          Some (Inr (False, disconnectOnError u))
        else if \<not> di_pollin inp then
          Some (bnd (collectOrphanedObjects env u) (\<lambda>s. Inr (\<not> di_pollhup inp, s)))
        else dispatch_read env inp u) = Some (Inr (go, t))"
    by (auto simp: dispatchEvents_def obnd_eq_Some)
  have u': "P u" using keep_collect[OF s u] .
  show ?thesis
  proof (cases "di_pollin inp \<and> \<not> (\<not> cs_handshakeDone u \<and> block \<and> (di_deadlinePassed inp \<or> \<not> di_pollEvent inp))")
    case False
    with rest u' show ?thesis by (auto simp: bnd_eq_Inr split: if_splits intro: keep_disconnect keep_collect)
  next
    case True
    with rest have "dispatch_read env inp u = Some (Inr (go, t))" by (auto split: if_splits)
    moreover have "di_read inp = None \<or> (\<exists>fds. di_read inp = Some ([], fds))"
      using no False True handshake_kept[OF u] by (auto simp: no_message_def split: option.splits)
    ultimately show ?thesis using u' by (auto simp: dispatch_read_def intro: keep_disconnect)
  qed
qed

end

section \<open>The invariant\<close>

definition system_inv :: "protocol_impl list \<Rightarrow> system \<Rightarrow> bool" where
  "system_inv impls y \<longleftrightarrow>
     sy_up y \<le> length (cs_sent (sy_client y)) \<and> sy_down y \<le> length (sc_sent (sy_server y)) \<and>
     server_side impls (set (take (sy_up y) (cs_sent (sy_client y)))) (sy_server y) \<and>
     client_side impls (set (sc_exposedProtocols (sy_server y))) (set (take (sy_down y) (sc_sent (sy_server y)))) (sy_client y)"

lemma take_prefix: "prefix xs ys \<Longrightarrow> n \<le> length xs \<Longrightarrow> take n ys = take n xs"
  by (auto simp: prefix_def)

lemma take_more: "drop n xs = ys @ zs \<Longrightarrow> n \<le> length xs \<Longrightarrow> take (n + length ys) xs = take n xs @ ys \<and> n + length ys \<le> length xs"
  by (metis append_eq_conv_conj append_take_drop_id length_append length_take min.absorb2 nat_le_linear take_add take_all_iff le_add1 length_drop)

lemma inv_client:
  assumes "system_inv impls y" and "prefix (cs_sent (sy_client y)) (cs_sent c)"
    and "client_side impls (set (sc_exposedProtocols (sy_server y))) (set (take (sy_down y) (sc_sent (sy_server y)))) c"
  shows "system_inv impls (y\<lparr>sy_client := c\<rparr>)"
  using assms take_prefix[OF assms(2)] prefix_length_le[OF assms(2)] by (simp add: system_inv_def)

lemma inv_server:
  assumes "system_inv impls y" and "prefix (sc_sent (sy_server y)) (sc_sent s)"
    and "set (sc_exposedProtocols (sy_server y)) \<subseteq> set (sc_exposedProtocols s)"
    and "server_side impls (set (take (sy_up y) (cs_sent (sy_client y)))) s"
  shows "system_inv impls (y\<lparr>sy_server := s\<rparr>)"
  using assms take_prefix[OF assms(2)] prefix_length_le[OF assms(2)] client_side_mono[OF _ assms(3) subset_refl]
  by (simp add: system_inv_def)

lemma begin_roundtrip_side:
  assumes "client_side impls ex R c" and "\<not> cs_error c" and "cs_lastSentRoundtripSeq c \<noteq> - 1"
  shows "client_side impls ex R (begin_roundtrip c)"
proof -
  let ?q = "cs_lastSentRoundtripSeq c"
  have fd: "cs_fdValid c" using assms(1,2) by (simp add: client_side_iff)
  have "1 + ?q \<noteq> 0" using u32_succ[OF assms(3)] by (simp add: add.commute)
  then have "unat (?q + 1) = Suc (unat ?q)" using unatSuc[of ?q] by (simp add: add.commute)
  moreover have "(of_nat (Suc (unat ?q)) :: u32) = ?q + 1" by simp
  ultimately have next_numbers: "map (\<lambda>k. request_entry (of_nat k)) [1..<Suc (unat (?q + 1))] =
      map (\<lambda>k. request_entry (of_nat k)) [1..<Suc (unat ?q)] @ [request_entry (?q + 1)]"
    by (simp del: of_nat_Suc)
  have req: "is_request (enc_RoundtripRequest (?q + 1), [])" using is_request_client[of "CmRoundtrip (?q + 1)"] by simp
  let ?t = "begin_roundtrip c"
  have t: "?t = c\<lparr>cs_lastSentRoundtripSeq := ?q + 1, cs_sent := cs_sent c @ [request_entry (?q + 1)]\<rparr>"
    using fd by (simp add: begin_roundtrip_def socket_sendMessage_def Let_def)
  have "client_ok ?t" using assms(1) client_objects.keep_request[of c "?q + 1"] by (simp add: client_side_iff begin_roundtrip_def Let_def)
  moreover have "\<exists>m. request_entry q = client_entry m \<and> asked m" for q by (rule exI[of _ "CmRoundtrip q"]) simp
  then have "client_log ?t" using assms(1) unfolding t client_side_iff client_log_def by simp
  moreover have "view_ok impls ex R (client_view ?t)"
    using assms(1) next_numbers req unfolding t client_side_iff client_view_def by simp
  moreover have "ids_from {(q, oid). new_entry q oid \<in> R} ?t" using assms(1) unfolding t client_side_iff ids_from_def by simp
  ultimately show ?thesis using fd unfolding client_side_iff t by simp
qed

lemma segment_said:
  assumes "server_talks impls s" and "impls_fit impls" and "drop n (sc_sent s) = map server_entry ms @ later"
    and "list_all ok_server_msg ms" and "vec_ok (enc_replies ms)"
  shows "list_all (said impls (sc_exposedProtocols s)) ms"
proof -
  have "said impls (sc_exposedProtocols s) m" if m: "m \<in> set ms" for m
  proof -
    have "server_entry m \<in> set (drop n (sc_sent s))" using m unfolding assms(3) by auto
    then have "server_entry m \<in> set (sc_sent s)" by (rule in_set_dropD)
    with assms(1) obtain m' where m': "server_entry m = server_entry m'" "said impls (sc_exposedProtocols s) m'"
      unfolding server_talks_def by blast
    have "length (enc_server_msg m) \<le> length (enc_replies ms)" using m by (induction ms) auto
    then have "vec_ok (enc_server_msg m)" using assms(5) by (simp add: vec_ok_def)
    with said_unique[OF assms(2) _ _ m'(2,1)] assms(4) m show ?thesis by (simp add: list_all_iff)
  qed
  then show ?thesis by (simp add: list_all_iff)
qed

lemma system_inv_step:
  assumes env: "client_env_ok cenv" "env_ok senv impls" "impls_ok impls" "impls_fit impls"
    and step: "system_step cenv senv impls y z" and inv: "system_inv impls y"
  shows "system_inv impls z"
proof -
  let ?c = "sy_client y" and ?s = "sy_server y"
  let ?R = "set (take (sy_down y) (sc_sent ?s))" and ?U = "set (take (sy_up y) (cs_sent ?c))"
  let ?ex = "set (sc_exposedProtocols ?s)"
  have cside: "client_side impls ?ex ?R ?c" and sside: "server_side impls ?U ?s"
    and up: "sy_up y \<le> length (cs_sent ?c)" and down: "sy_down y \<le> length (sc_sent ?s)"
    using inv by (simp_all add: system_inv_def)
  from step show ?thesis
  proof cases
    case (client_user c)
    have "prefix (cs_sent ?c) (cs_sent c)" using client_history.keep_api[OF client_user(2)] by simp
    with client_sided.keep_api[OF client_user(2) cside] show ?thesis unfolding client_user(1) by (intro inv_client[OF inv])
  next
    case client_roundtrip
    have "prefix (cs_sent ?c) (cs_sent (begin_roundtrip ?c))"
      by (simp add: begin_roundtrip_def socket_sendMessage_def Let_def)
    with begin_roundtrip_side[OF cside client_roundtrip(2,3)] show ?thesis
      unfolding client_roundtrip(1) by (intro inv_client[OF inv])
  next
    case (client_idles block inp go c)
    have "prefix (cs_sent ?c) (cs_sent c)" using client_history.keep_dispatchEvents[OF env(1) _ client_idles(3)] by simp
    with client_sided.keep_no_message[OF cside client_idles(3,2)] show ?thesis
      unfolding client_idles(1) by (intro inv_client[OF inv])
  next
    case (client_reads block inp ms later go c)
    have "server_talks impls ?s" using sside env(3) by (simp add: server_side_def)
    then have said: "list_all (said impls (sc_exposedProtocols ?s)) ms"
      using segment_said env(4) client_reads(4-6) by blast
    let ?n = "sy_down y + length ms"
    have n: "take ?n (sc_sent ?s) = take (sy_down y) (sc_sent ?s) @ map server_entry ms" "?n \<le> length (sc_sent ?s)"
      using take_more[OF client_reads(4) down] by simp_all
    have "client_side impls ?ex (set (take ?n (sc_sent ?s))) ?c" using cside by (rule client_side_mono) (auto simp: n(1))
    moreover have "set (map server_entry ms) \<subseteq> set (take ?n (sc_sent ?s))" unfolding n(1) by auto
    ultimately have "client_side impls ?ex (set (take ?n (sc_sent ?s))) c"
      using client_read_side[OF env(1) _ client_reads(5,6) _ said subset_refl client_reads(2,3)] client_reads(7) by fastforce
    moreover have hist: "prefix (cs_sent ?c) (cs_sent c)" using client_history.keep_dispatchEvents[OF env(1) _ client_reads(7)] by simp
    ultimately show ?thesis
      using take_prefix[OF hist] prefix_length_le[OF hist] n(2) up sside unfolding client_reads(1) by (simp add: system_inv_def)
  next
    case (server_user s)
    have "prefix (sc_sent ?s) (sc_sent s)" using sent_log.keep_api[OF server_user(2)] by simp
    moreover have "?ex \<subseteq> set (sc_exposedProtocols s)" using exposed_more.keep_api[OF server_user(2)] by blast
    ultimately show ?thesis
      using sided.keep_api[OF server_user(2) sside] unfolding server_user(1) by (intro inv_server[OF inv])
  next
    case (server_idles raw fds s)
    have "prefix (sc_sent ?s) (sc_sent s)" using sent_log.keep_dispatchClient[OF env(2) _ server_idles(3)] by simp
    moreover have "?ex \<subseteq> set (sc_exposedProtocols s)" using exposed_more.keep_dispatchClient[OF env(2) _ server_idles(3)] by blast
    moreover have "s = ?s \<or> s = object_error no_object (- 1) ''fatal: invalid message on wire'' ?s"
      using server_idles(2,3) by (auto simp: dispatchClient_def)
    then have "server_side impls ?U s" using sside sided.keep_error[OF sside] by auto
    ultimately show ?thesis unfolding server_idles(1) by (intro inv_server[OF inv])
  next
    case (server_reads ms later rest u s)
    from dispatchClient_side[OF env(2) sside server_reads(5-8)] obtain handled where ms: "ms = handled @ rest"
      and side: "server_side impls (?U \<union> set (map client_entry handled)) s" by blast
    let ?n = "sy_up y + (length ms - length rest)"
    have len: "length ms - length rest = length handled" by (simp add: ms)
    have n: "take ?n (cs_sent ?c) = take (sy_up y) (cs_sent ?c) @ map client_entry handled" "?n \<le> length (cs_sent ?c)"
      using take_more[of "sy_up y" "cs_sent ?c" "map client_entry handled" "map client_entry rest @ later"]
        server_reads(4) up by (simp_all add: ms)
    have "server_side impls (set (take ?n (cs_sent ?c))) s" using side unfolding n(1) by simp
    moreover have hist: "prefix (sc_sent ?s) (sc_sent s)" using sent_log.keep_dispatchClient[OF env(2) _ server_reads(8)] by simp
    moreover have "?ex \<subseteq> set (sc_exposedProtocols s)" using exposed_more.keep_dispatchClient[OF env(2) _ server_reads(8)] by blast
    then have "client_side impls (set (sc_exposedProtocols s)) ?R ?c" using client_side_mono[OF cside] by blast
    ultimately show ?thesis
      using take_prefix[OF hist down] prefix_length_le[OF hist] n(2) down unfolding server_reads(1) by (simp add: system_inv_def)
  qed
qed

lemma system_inv_start: "system_inv impls (system_start fd)"
proof -
  have log: "cs_sent (open_socket True) = [client_entry CmHello]" "cs_pendingOutgoing (open_socket True) = []"
    "cs_objects (open_socket True) = []" "cs_fdValid (open_socket True)" "cs_impls (open_socket True) = []"
    "cs_lastAckdRoundtripSeq (open_socket True) = 0" "cs_lastSentRoundtripSeq (open_socket True) = 0"
    "cs_serverSpecs (open_socket True) = []"
    by (simp_all add: open_socket_def socket_sendMessage_def)
  have "\<exists>m. client_entry CmHello = client_entry m \<and> asked m" by (rule exI[of _ CmHello]) simp
  then have "client_log (open_socket True)" unfolding client_log_def log(1,2) by simp
  moreover have "client_view (open_socket True) = (0, 0, [], [])"
    using log is_request_client[of CmHello] by (simp add: client_view_def)
  ultimately have "client_side impls {} {} (open_socket True)"
    using log by (simp add: client_side_iff client_ok_def ids_from_def)
  moreover have "\<exists>k (seqs :: nat \<Rightarrow> u32). (1 :: u32) = of_nat (Suc k) \<and> k \<le> 0"
    by (intro exI[of _ 0]) simp
  then have "server_side impls {} (new_server_client fd True)"
    by (simp add: server_side_def new_client_ok acks_from_def server_talks_def ids_numbered_def new_server_client_def objects_ok_def)
  ultimately show ?thesis by (simp add: system_inv_def system_start_def new_server_client_def log)
qed

lemma system_inv_reachable:
  assumes "client_env_ok cenv" "env_ok senv impls" "impls_ok impls" "impls_fit impls" and "reachable cenv senv impls y"
  shows "system_inv impls y"
proof -
  obtain fd where "(system_step cenv senv impls)\<^sup>*\<^sup>* (system_start fd) y" using assms(5) by blast
  then show ?thesis by induction (auto intro: system_inv_start system_inv_step[OF assms(1-4)])
qed

end
