(* ===== verification/Delivery.thy ===== *)
theory Delivery
  imports Two_Ends
begin

text \<open>
  Once nothing is in flight between a client and a server, every roundtrip has been
  acknowledged: the server answers the last request of each read, and the client takes the
  acknowledgements in order.
\<close>

section \<open>The last request and the last acknowledgement\<close>

definition last_is :: "(u32 \<Rightarrow> byte list \<times> int list) \<Rightarrow> (byte list \<times> int list) list \<Rightarrow> u32 \<Rightarrow> bool" where
  "last_is f es q \<longleftrightarrow> es = [] \<and> q = 0 \<or> (\<exists>before. es = before @ [f q])"

definition answered :: "system \<Rightarrow> bool" where
  "answered y \<longleftrightarrow>
     (\<not> sc_error (sy_server y) \<longrightarrow> sc_scheduledRoundtripSeq (sy_server y) = 0 \<and>
        (\<exists>q. last_is request_entry (filter is_request (take (sy_up y) (cs_sent (sy_client y)))) q \<and>
             last_is done_entry (filter is_done (sc_sent (sy_server y))) q)) \<and>
     last_is done_entry (filter is_done (take (sy_down y) (sc_sent (sy_server y)))) (cs_lastAckdRoundtripSeq (sy_client y))"

lemma last_is_snoc [simp]: "last_is f (es @ [f q]) q"
  by (simp add: last_is_def)

lemma entry_kinds [simp]: "is_request (enc_RoundtripRequest q, [])" "is_done (enc_RoundtripDone q, [])"
  by (simp_all add: is_request_def is_done_def enc_RoundtripRequest_def enc_RoundtripDone_def)

lemma last_roundtrip_cases:
  "filter is_request (map client_entry ms) = [] \<and> (\<forall>q. last_roundtrip ms q = q) \<or>
   (\<exists>k before. filter is_request (map client_entry ms) = before @ [request_entry k] \<and> (\<forall>q. last_roundtrip ms q = k))"
proof (induction ms)
  case (Cons m ms)
  show ?case
  proof (cases "\<exists>q. m = CmRoundtrip q")
    case True
    then obtain q where m: "m = CmRoundtrip q" by blast
    from Cons.IH show ?thesis
    proof (elim disjE exE conjE)
      assume "filter is_request (map client_entry ms) = []" "\<forall>q. last_roundtrip ms q = q"
      with m show ?thesis by (intro disjI2 exI[of _ q] exI[of _ "[]"]) simp
    next
      fix k before
      assume "filter is_request (map client_entry ms) = before @ [request_entry k]" "\<forall>q. last_roundtrip ms q = k"
      with m show ?thesis by (intro disjI2 exI[of _ k] exI[of _ "request_entry q # before"]) simp
    qed
  next
    case False
    with Cons.IH last_roundtrip_other[of m ms] show ?thesis by simp
  qed
qed simp

section \<open>The server answers\<close>

context connection_invariant
begin

lemma keep_serve: "env_ok env impls \<Longrightarrow> serve env impls ms s = Inr (rest, t) \<Longrightarrow> P s \<Longrightarrow> P t"
proof (induction ms arbitrary: s)
  case (Cons m ms)
  have "P u" if "serve_one env impls m s = Inr u" for u
  proof (cases "\<exists>q. m = CmRoundtrip q")
    case True
    with that Cons.prems(3) show ?thesis by (auto intro: keep_seq)
  next
    case False
    with keep_serve_one[OF Cons.prems(1,3) _ that] show ?thesis by blast
  qed
  with Cons show ?case by (auto simp: bnd_eq_Inr split: if_splits)
qed simp

end

lemma serve_stops: "serve env impls ms s = Inr (rest, t) \<Longrightarrow> rest \<noteq> [] \<Longrightarrow> sc_error t"
  by (induction ms arbitrary: s) (auto simp: bnd_eq_Inr split: if_splits)

lemma read_answers:
  assumes env: "env_ok env impls" and s: "ids_numbered s" "sc_scheduledRoundtripSeq s = 0"
    and ms: "list_all ok_client_msg ms" "vec_ok (enc_stream ms)" "ms \<noteq> []"
    and run: "serve env impls ms s = Inr (rest, u)" "dispatchClient env impls (Some (enc_stream ms, stream_fds ms)) s = Some (Inr t)"
    and alive: "\<not> sc_error t"
  shows "rest = [] \<and> sc_scheduledRoundtripSeq t = 0 \<and>
    filter is_done (sc_sent t) = filter is_done (sc_sent s) @ (if last_roundtrip ms 0 = 0 then [] else [done_entry (last_roundtrip ms 0)])"
proof -
  note t = dispatched_stream[OF ms run]
  have "rest = []"
  proof (rule ccontr)
    assume "rest \<noteq> []"
    then have "sc_error u" using serve_stops[OF run(1)] by blast
    then have "sc_error t" unfolding t by (simp add: object_error_def object_errd_def client_sendMessage_def)
    with alive show False by blast
  qed
  moreover have "ids_numbered u"
    using numbering.keep_serve[OF env run(1) s(1)] .
  then have "sc_fdValid u" by (simp add: ids_numbered_def)
  ultimately show ?thesis
    using serve_schedule[OF env, of ms s u] run(1) t s(2)
    by (auto simp: client_sendMessage_def word_gt_0)
qed


section \<open>The client takes the answers\<close>

fun last_ack :: "server_msg list \<Rightarrow> u32 \<Rightarrow> u32" where
  "last_ack [] q = q"
| "last_ack (SmDone k # ms) q = last_ack ms k"
| "last_ack (m # ms) q = last_ack ms q"

lemma last_ack_is:
  "last_is done_entry es q \<Longrightarrow> last_is done_entry (es @ filter is_done (map server_entry ms)) (last_ack ms q)"
proof (induction ms arbitrary: es q)
  case (Cons m ms)
  show ?case
  proof (cases "\<exists>k. m = SmDone k")
    case True
    then obtain k where "m = SmDone k" by blast
    with Cons.IH[OF last_is_snoc[of done_entry es k]] show ?thesis by simp
  next
    case False
    then have "\<not> is_done (server_entry m)" "last_ack (m # ms) q = last_ack ms q"
      by (cases m; simp add: is_done_def enc_message_defs)+
    with Cons.IH[OF Cons.prems] show ?thesis by (simp del: server_msg_fds.simps enc_server_msg.simps)
  qed
qed simp

lemma acked_same: "client_talks (client_view c) t \<Longrightarrow> cs_lastAckdRoundtripSeq t = cs_lastAckdRoundtripSeq c"
  by (simp add: client_talks_def client_view_def)

lemma side_talks: "client_side impls ex R c \<Longrightarrow> client_ok c \<and> client_talks (client_view c) c"
  by (simp add: client_side_iff client_talks_def)

lemma receive_one_acked:
  assumes "client_env_ok env" and "client_side impls ex R c" and "receive_one env m c = Inr (True, t)"
  shows "cs_lastAckdRoundtripSeq t = last_ack [m] (cs_lastAckdRoundtripSeq c)"
proof -
  have c: "client_ok c \<and> client_talks (client_view c) c" using side_talks[OF assms(2)] .
  show ?thesis
  proof (cases m)
    case (SmHandshakeBegin versions)
    with assms(3) client_speech.keep_ack[OF c] show ?thesis by (auto split: if_splits dest: acked_same)
  next
    case (SmProtocols names)
    have "cs_lastAckdRoundtripSeq (add_specs names s) = cs_lastAckdRoundtripSeq s" for s
      by (induction names s rule: add_specs.induct) (auto simp: disconnectOnError_def split: option.split)
    with SmProtocols assms(3) show ?thesis by (auto simp: serverSpecs_def)
  next
    case (SmCall oid mid args)
    with assms(3) client_speech.keep_onGeneric[OF assms(1) c] show ?thesis by (auto simp: bnd_eq_Inr dest: acked_same)
  qed (use assms(3) in \<open>auto simp: onSeq_def client_errd_def\<close>)
qed

lemma last_ack_Cons: "last_ack (m # ms) q = last_ack ms (last_ack [m] q)"
  by (cases m) simp_all

lemma receive_acked:
  "client_env_ok env \<Longrightarrow> client_side impls ex R c \<Longrightarrow> list_all ok_server_msg ms \<Longrightarrow> vec_ok (enc_replies ms) \<Longrightarrow>
     set (map server_entry ms) \<subseteq> R \<Longrightarrow> list_all (said impls xs) ms \<Longrightarrow> set xs \<subseteq> ex \<Longrightarrow>
     \<exists>t. receive env ms c = Inr (True, t) \<and> client_side impls ex R t \<and>
       cs_lastAckdRoundtripSeq t = last_ack ms (cs_lastAckdRoundtripSeq c)"
proof (induction ms arbitrary: c)
  case (Cons m ms)
  have v: "vec_ok (enc_server_msg m)" "vec_ok (enc_replies ms)" using Cons.prems(4) by (simp_all add: vec_ok_def)
  obtain u where u: "receive_one env m c = Inr (True, u)" "client_side impls ex R u"
    using receive_one_side[OF Cons.prems(1,2) _ v(1), of xs] Cons.prems(3,5,6,7) by auto
  have "cs_lastAckdRoundtripSeq u = last_ack [m] (cs_lastAckdRoundtripSeq c)"
    using receive_one_acked[OF Cons.prems(1,2) u(1)] .
  with Cons.IH[OF Cons.prems(1) u(2) _ v(2)] Cons.prems(3,5,6,7) u(1) last_ack_Cons[of m ms] show ?case by simp
qed simp

lemma client_read_acked:
  assumes env: "client_env_ok env" and side: "client_side impls ex R c"
    and ms: "list_all ok_server_msg ms" "vec_ok (enc_replies ms)" "set (map server_entry ms) \<subseteq> R"
      "list_all (said impls xs) ms" "set xs \<subseteq> ex"
    and reads: "\<not> no_message c block inp" "di_read inp = Some (enc_replies ms, replies_fds ms)"
    and run: "dispatchEvents env block inp c = Some (Inr (go, t))"
  shows "cs_lastAckdRoundtripSeq t = last_ack ms (cs_lastAckdRoundtripSeq c)"
proof -
  have same: "cs_lastAckdRoundtripSeq v = cs_lastAckdRoundtripSeq u"
    if "client_side impls ex R u" "collectOrphanedObjects env u = Inr v" for u v
    using client_speech.keep_collect[OF side_talks[OF that(1)] that(2)] acked_same by blast
  from client_read_parts[OF env side ms reads] run obtain u w where
    u: "collectOrphanedObjects env c = Inr u" "client_side impls ex R u" and
    w: "receive env ms u = Inr (True, w)" "client_side impls ex R w" and
    t: "collectOrphanedObjects env (flushPendingOutgoing w) = Inr t" by auto
  have "cs_lastAckdRoundtripSeq w = last_ack ms (cs_lastAckdRoundtripSeq u)"
    using receive_acked[OF env u(2) ms] w(1) by simp
  moreover have "cs_lastAckdRoundtripSeq (flushPendingOutgoing w) = cs_lastAckdRoundtripSeq w"
    using client_speech.keep_flush[OF side_talks[OF w(2)]] acked_same by blast
  ultimately show ?thesis
    using same[OF side u(1)] same[OF client_sided.keep_flush[OF w(2)] t] by simp
qed

section \<open>Every step keeps it\<close>

lemma requests_positive:
  assumes "client_side impls ex R c" and "request_entry k \<in> set (cs_sent c)"
  shows "k \<noteq> 0"
proof
  assume k: "k = 0"
  have "filter is_request (cs_sent c) = map (\<lambda>j. request_entry (of_nat j)) [1..<Suc (unat (cs_lastSentRoundtripSeq c))]"
    using assms(1) by (simp add: client_side_iff client_view_def)
  moreover have "request_entry k \<in> set (filter is_request (cs_sent c))" using assms(2) by simp
  ultimately obtain j where j: "1 \<le> j" "j \<le> unat (cs_lastSentRoundtripSeq c)" "request_entry k = request_entry (of_nat j)"
    by (auto simp del: enc_client_msg.simps)
  then have "(of_nat j :: u32) = 0" using request_entry_inj k by metis
  moreover have "unat (cs_lastSentRoundtripSeq c) < 2 ^ 32" using unsigned_less[of "cs_lastSentRoundtripSeq c"] by simp
  then have "j < 2 ^ 32" using j(2) by simp
  then have "unat (of_nat j :: u32) = j" by (simp add: unat_of_nat)
  ultimately show False using j(1) by simp
qed

lemma answered_read:
  assumes env: "env_ok senv impls" and zero: "sc_scheduledRoundtripSeq s = 0" and num: "ids_numbered s"
    and q: "last_is request_entry (filter is_request before) q" "last_is done_entry (filter is_done (sc_sent s)) q"
    and pos: "\<And>k. CmRoundtrip k \<in> set ms \<Longrightarrow> k \<noteq> 0"
    and read: "list_all ok_client_msg ms" "vec_ok (enc_stream ms)" "ms \<noteq> []" "serve senv impls ms s = Inr (rest, u)"
      "dispatchClient senv impls (Some (enc_stream ms, stream_fds ms)) s = Some (Inr t)" "\<not> sc_error t"
  shows "rest = [] \<and> sc_scheduledRoundtripSeq t = 0 \<and>
    (\<exists>q. last_is request_entry (filter is_request (before @ map client_entry ms)) q \<and>
         last_is done_entry (filter is_done (sc_sent t)) q)"
proof -
  from read_answers[OF env num zero read] have rest: "rest = []" "sc_scheduledRoundtripSeq t = 0"
    and dones: "filter is_done (sc_sent t) = filter is_done (sc_sent s) @
      (if last_roundtrip ms 0 = 0 then [] else [done_entry (last_roundtrip ms 0)])" by blast+
  have "\<exists>q. last_is request_entry (filter is_request (before @ map client_entry ms)) q \<and>
      last_is done_entry (filter is_done (sc_sent t)) q"
    using last_roundtrip_cases[of ms]
  proof (elim disjE exE conjE)
    assume "filter is_request (map client_entry ms) = []" "\<forall>q. last_roundtrip ms q = q"
    with q dones show ?thesis by (intro exI[of _ q]) simp
  next
    fix k front
    assume k: "filter is_request (map client_entry ms) = front @ [request_entry k]" "\<forall>q. last_roundtrip ms q = k"
    have "request_entry k \<in> set (filter is_request (map client_entry ms))" unfolding k(1) by simp
    then have "request_entry k \<in> client_entry ` set ms" unfolding set_filter set_map by blast
    then obtain m where m: "m \<in> set ms" "request_entry k = client_entry m" by (rule imageE)
    have "is_request (client_entry m)" unfolding m(2)[symmetric] by simp
    then obtain k' where k': "m = CmRoundtrip k'" unfolding is_request_client by blast
    have "k = k'" using m(2) unfolding k' request_entry_inj .
    with m(1) k' have "CmRoundtrip k \<in> set ms" by simp
    then have "k \<noteq> 0" by (rule pos)
    then have "filter is_done (sc_sent t) = filter is_done (sc_sent s) @ [done_entry k]" using dones k(2) by simp
    moreover have "filter is_request (before @ map client_entry ms) = (filter is_request before @ front) @ [request_entry k]"
      unfolding filter_append k(1) by (simp only: append_assoc)
    ultimately show ?thesis by (intro exI[of _ k]) (simp only: last_is_snoc[of request_entry] last_is_snoc[of done_entry] simp_thms)
  qed
  with rest show ?thesis by blast
qed

lemma answered_client:
  assumes "answered y" and "sy_up y \<le> length (cs_sent (sy_client y))" and "prefix (cs_sent (sy_client y)) (cs_sent c)"
    and "cs_lastAckdRoundtripSeq c = cs_lastAckdRoundtripSeq (sy_client y)"
  shows "answered (y\<lparr>sy_client := c\<rparr>)"
  using assms(1,4) take_prefix[OF assms(3,2)] by (simp add: answered_def)

lemma answered_server:
  assumes "answered y" and "sy_down y \<le> length (sc_sent (sy_server y))" and "prefix (sc_sent (sy_server y)) (sc_sent s)"
    and "sc_error (sy_server y) \<Longrightarrow> sc_error s"
    and "\<not> sc_error s \<Longrightarrow> sc_scheduledRoundtripSeq s = sc_scheduledRoundtripSeq (sy_server y) \<and>
      filter is_done (sc_sent s) = filter is_done (sc_sent (sy_server y))"
  shows "answered (y\<lparr>sy_server := s\<rparr>)"
  using assms(1,4,5) take_prefix[OF assms(3,2)] by (auto simp: answered_def)

lemma answered_step:
  assumes env: "client_env_ok cenv" "env_ok senv impls" "impls_ok impls" "impls_fit impls"
    and step: "system_step cenv senv impls y z" and inv: "system_inv impls y" and ans: "answered y"
  shows "answered z"
proof -
  let ?c = "sy_client y" and ?s = "sy_server y"
  let ?R = "set (take (sy_down y) (sc_sent ?s))" and ?ex = "set (sc_exposedProtocols ?s)"
  have cside: "client_side impls ?ex ?R ?c" and sside: "server_side impls (set (take (sy_up y) (cs_sent ?c))) ?s"
    and up: "sy_up y \<le> length (cs_sent ?c)" and down: "sy_down y \<le> length (sc_sent ?s)"
    using inv by (simp_all add: system_inv_def)
  note talks = side_talks[OF cside]
  note client = answered_client[OF ans up] and server = answered_server[OF ans down]
  from step show ?thesis
  proof cases
    case (client_user c)
    have "prefix (cs_sent ?c) (cs_sent c)" using client_history.keep_api[OF client_user(2)] by simp
    moreover have "cs_lastAckdRoundtripSeq c = cs_lastAckdRoundtripSeq ?c"
      using client_speech.keep_api[OF client_user(2) talks] acked_same by blast
    ultimately show ?thesis unfolding client_user(1) by (rule client)
  next
    case client_roundtrip
    have "prefix (cs_sent ?c) (cs_sent (begin_roundtrip ?c))" "cs_lastAckdRoundtripSeq (begin_roundtrip ?c) = cs_lastAckdRoundtripSeq ?c"
      by (simp_all add: begin_roundtrip_def socket_sendMessage_def Let_def)
    then show ?thesis unfolding client_roundtrip(1) by (rule client)
  next
    case (client_idles block inp go c)
    have "prefix (cs_sent ?c) (cs_sent c)" using client_history.keep_dispatchEvents[OF env(1) _ client_idles(3)] by simp
    moreover have "cs_lastAckdRoundtripSeq c = cs_lastAckdRoundtripSeq ?c"
      using client_speech.keep_no_message[OF talks client_idles(3,2)] acked_same by blast
    ultimately show ?thesis unfolding client_idles(1) by (rule client)
  next
    case (client_reads block inp ms later go c)
    have "server_talks impls ?s" using sside env(3) by (simp add: server_side_def)
    then have said: "list_all (said impls (sc_exposedProtocols ?s)) ms"
      using segment_said env(4) client_reads(4-6) by blast
    let ?n = "sy_down y + length ms"
    have n: "take ?n (sc_sent ?s) = take (sy_down y) (sc_sent ?s) @ map server_entry ms"
      using take_more[OF client_reads(4) down] by simp
    have side: "client_side impls ?ex (set (take ?n (sc_sent ?s))) ?c" using cside by (rule client_side_mono) (auto simp: n)
    have "set (map server_entry ms) \<subseteq> set (take ?n (sc_sent ?s))" unfolding n by auto
    then have acked: "cs_lastAckdRoundtripSeq c = last_ack ms (cs_lastAckdRoundtripSeq ?c)"
      using client_read_acked[OF env(1) side client_reads(5,6) _ said subset_refl client_reads(2,3,7)] by blast
    have hist: "prefix (cs_sent ?c) (cs_sent c)" using client_history.keep_dispatchEvents[OF env(1) _ client_reads(7)] by simp
    have "last_is done_entry (filter is_done (take ?n (sc_sent ?s))) (last_ack ms (cs_lastAckdRoundtripSeq ?c))"
      unfolding n filter_append using ans by (intro last_ack_is) (simp add: answered_def)
    then show ?thesis
      using ans acked take_prefix[OF hist up] unfolding client_reads(1) answered_def by simp
  next
    case (server_user s)
    have "prefix (sc_sent ?s) (sc_sent s)" using sent_log.keep_api[OF server_user(2)] by simp
    moreover have "sc_error ?s \<Longrightarrow> sc_error s" using sticky.keep_api[OF server_user(2)] by blast
    moreover have "sc_scheduledRoundtripSeq s = sc_scheduledRoundtripSeq ?s \<and> filter is_done (sc_sent s) = filter is_done (sc_sent ?s)"
      using schedule.keep_api[OF server_user(2) refl] acks.keep_api[OF server_user(2) refl] by blast
    ultimately show ?thesis unfolding server_user(1) by (rule server)
  next
    case (server_idles raw fds s)
    have hist: "prefix (sc_sent ?s) (sc_sent s)" using sent_log.keep_dispatchClient[OF env(2) _ server_idles(3)] by simp
    consider "s = ?s" | "sc_error s"
      using server_idles(2,3) by (auto simp: dispatchClient_def object_error_def object_errd_def)
    then show ?thesis
    proof cases
      case 1
      with ans show ?thesis unfolding server_idles(1) by simp
    next
      case 2
      with hist show ?thesis unfolding server_idles(1) by (intro server) simp_all
    qed
  next
    case (server_reads ms later rest u s)
    have hist: "prefix (sc_sent ?s) (sc_sent s)" using sent_log.keep_dispatchClient[OF env(2) _ server_reads(8)] by simp
    then have down': "take (sy_down y) (sc_sent s) = take (sy_down y) (sc_sent ?s)" by (rule take_prefix[OF _ down])
    show ?thesis
    proof (cases "sc_error s")
      case True
      with ans down' show ?thesis unfolding server_reads(1) answered_def by simp
    next
      case False
      from ans server_reads(2) obtain q where zero: "sc_scheduledRoundtripSeq ?s = 0"
        and q: "last_is request_entry (filter is_request (take (sy_up y) (cs_sent ?c))) q" "last_is done_entry (filter is_done (sc_sent ?s)) q"
        unfolding answered_def by blast
      have num: "ids_numbered ?s" using sside by (simp add: server_side_def)
      have pos: "k \<noteq> 0" if "CmRoundtrip k \<in> set ms" for k
      proof -
        have "request_entry k \<in> client_entry ` set ms" using that by blast
        then have "request_entry k \<in> set (drop (sy_up y) (cs_sent ?c))" unfolding server_reads(4) set_append set_map by blast
        then show ?thesis using requests_positive[OF cside] by (blast dest: in_set_dropD)
      qed
      have n: "take (sy_up y + length ms) (cs_sent ?c) = take (sy_up y) (cs_sent ?c) @ map client_entry ms"
        using take_more[of "sy_up y" "cs_sent ?c" "map client_entry ms" later] server_reads(4) up by simp
      from answered_read[OF env(2) zero num q pos server_reads(5,6,3,7,8) False] down' ans
      show ?thesis unfolding server_reads(1) answered_def n[symmetric] by simp
    qed
  qed
qed

end
