(* ===== verification/Exchange.thy ===== *)
theory Exchange
  imports Delivery
begin

text \<open>
  What holds of a client and a server in every interleaving: neither stops the other, a
  roundtrip is a barrier and is answered, ids agree, specifications are exposed ones; and a run of the
  system in which a client binds a protocol, makes a roundtrip and learns the protocols.
\<close>

section \<open>Properties of the system\<close>

fun client_fits :: "client_msg \<Rightarrow> bool" where
  "client_fits (CmBind m) = ok_BindProtocol m"
| "client_fits (CmCall oid mid args) = list_all arg_fits args"
| "client_fits m = True"

fun server_fits :: "server_msg \<Rightarrow> bool" where
  "server_fits (SmCall oid mid args) = list_all arg_fits args"
| "server_fits (SmFatal m) = ok_FatalError m"
| "server_fits m = True"

lemma asked_ok: "asked m \<Longrightarrow> client_fits m \<Longrightarrow> ok_client_msg m"
  by (cases m) (auto simp: list_all_iff wire_ok_iff)

lemma said_ok: "impls_fit impls \<Longrightarrow> said impls xs m \<Longrightarrow> server_fits m \<Longrightarrow> ok_server_msg m"
  using ok_said_protocols by (cases m) (auto simp: list_all_iff wire_ok_iff ok_HandshakeBegin_def simp del: said.simps(2))

lemma entries_messages:
  assumes "\<forall>e \<in> set es. \<exists>m. e = entry m \<and> Q m"
  shows "\<exists>ms. es = map entry ms \<and> list_all Q ms"
  using assms
proof (induction es)
  case (Cons e es)
  then obtain m ms where "e = entry m" "Q m" "es = map entry ms" "list_all Q ms" by auto
  then show ?case by (intro exI[of _ "m # ms"]) simp
qed simp

text \<open>C2. Two ends of the library never stop each other (safety). Whatever the users of a client and a
  server do, and however reads and calls interleave, both have only ever sent messages of
  the protocol; and whenever either reads any number of whole messages of those that are
  waiting for it, within the limits on sizes, its dispatch comes to an end without an
  exception and without a read outside its buffer. A read that cuts a message is another
  matter: \<open>cut_read_overreads\<close>.\<close>

theorem exchange_never_stops:
  assumes "client_env_ok cenv" and "env_ok senv impls" and "impls_ok impls" and "impls_fit impls"
    and "reachable cenv senv impls y"
  shows "\<exists>cms sms. cs_sent (sy_client y) = map client_entry cms \<and> list_all asked cms \<and>
    sc_sent (sy_server y) = map server_entry sms \<and> list_all (said impls (sc_exposedProtocols (sy_server y))) sms \<and>
    (\<forall>ms later. drop (sy_up y) cms = ms @ later \<longrightarrow> list_all client_fits ms \<longrightarrow> vec_ok (enc_stream ms) \<longrightarrow>
       (\<exists>t. dispatchClient senv impls (Some (enc_stream ms, stream_fds ms)) (sy_server y) = Some (Inr t))) \<and>
    (\<forall>ms later block inp. drop (sy_down y) sms = ms @ later \<longrightarrow> list_all server_fits ms \<longrightarrow> vec_ok (enc_replies ms) \<longrightarrow>
       \<not> no_message (sy_client y) block inp \<longrightarrow> di_read inp = Some (enc_replies ms, replies_fds ms) \<longrightarrow>
       (\<exists>go t. dispatchEvents cenv block inp (sy_client y) = Some (Inr (go, t))))"
proof -
  let ?c = "sy_client y" and ?s = "sy_server y"
  have inv: "system_inv impls y" using system_inv_reachable[OF assms] .
  then have cside: "client_side impls (set (sc_exposedProtocols ?s)) (set (take (sy_down y) (sc_sent ?s))) ?c"
    and sside: "server_side impls (set (take (sy_up y) (cs_sent ?c))) ?s"
    by (simp_all add: system_inv_def)
  obtain cms where cms: "cs_sent ?c = map client_entry cms" "list_all asked cms"
    using entries_messages[of "cs_sent ?c" client_entry asked] cside unfolding client_side_iff client_log_def by blast
  have talks: "server_talks impls ?s" and objs: "objects_ok impls ?s" using sside assms(3) by (simp_all add: server_side_def)
  then obtain sms where sms: "sc_sent ?s = map server_entry sms" "list_all (said impls (sc_exposedProtocols ?s)) sms"
    using entries_messages[of "sc_sent ?s" server_entry] unfolding server_talks_def by blast
  have up: "\<exists>t. dispatchClient senv impls (Some (enc_stream ms, stream_fds ms)) ?s = Some (Inr t)"
    if seg: "drop (sy_up y) cms = ms @ later" and fit: "list_all client_fits ms" and v: "vec_ok (enc_stream ms)" for ms later
  proof -
    have "set ms \<subseteq> set cms" using seg by (metis Un_upper1 set_append set_drop_subset subset_trans)
    then have "list_all ok_client_msg ms" using cms(2) fit asked_ok by (auto simp: list_all_iff)
    then obtain res t where "server_handleMessage senv impls (enc_stream ms) (stream_fds ms) ?s = Some (Inr (res, t))"
      using read_serves[of ms] serve_returns[OF assms(2,3) objs _ v] v by blast
    then show ?thesis by (simp add: dispatchClient_def)
  qed
  have down: "\<exists>go t. dispatchEvents cenv block inp ?c = Some (Inr (go, t))"
    if seg: "drop (sy_down y) sms = ms @ later" and fit: "list_all server_fits ms" and v: "vec_ok (enc_replies ms)"
      and reads: "\<not> no_message ?c block inp" "di_read inp = Some (enc_replies ms, replies_fds ms)" for ms later block inp
  proof -
    have "set ms \<subseteq> set sms" using seg by (metis Un_upper1 set_append set_drop_subset subset_trans)
    then have said: "list_all (said impls (sc_exposedProtocols ?s)) ms" using sms(2) by (auto simp: list_all_iff)
    then have "list_all ok_server_msg ms" using fit said_ok[OF assms(4)] by (auto simp: list_all_iff)
    then show ?thesis
      using client_read_side[OF assms(1) client_side_mono[OF cside subset_refl Un_upper1] _ v Un_upper2 said subset_refl reads]
      by blast
  qed
  show ?thesis using cms sms up down by blast
qed

text \<open>The last of several distinct entries stands nowhere before.\<close>

lemma last_occurrence:
  assumes "filter P xs = ys @ [x]" and "distinct (ys @ [x])" and "x \<in> set (take n xs)"
  shows "\<exists>before after. xs = before @ x # after \<and> length before < n \<and> \<not> list_ex P after"
proof -
  obtain pre post where split: "take n xs = pre @ x # post" using split_list[OF assms(3)] by blast
  have xs: "xs = pre @ x # (post @ drop n xs)" using split append_take_drop_id[of n xs] by simp
  have "x \<in> set (filter P xs)" using assms(1) by simp
  then have "P x" by simp
  then have f: "filter P xs = filter P pre @ x # filter P (post @ drop n xs)" by (subst xs) simp
  have "filter P (post @ drop n xs) = []"
  proof (rule ccontr)
    assume ne: "filter P (post @ drop n xs) \<noteq> []"
    then have "last (filter P xs) \<in> set (filter P (post @ drop n xs))" unfolding f using last_in_set[OF ne] by (simp del: filter_append set_filter)
    then have "x \<in> set (filter P (post @ drop n xs))" using assms(1) by simp
    then have "\<not> distinct (filter P xs)" unfolding f by (simp del: filter_append)
    with assms(1,2) show False by simp
  qed
  then have "\<not> list_ex P (post @ drop n xs)" by (simp add: filter_empty_conv list_ex_iff del: filter_append)
  moreover have "length pre < n" using arg_cong[OF split, of length] by (simp add: min_def split: if_splits)
  ultimately show ?thesis using xs by blast
qed

text \<open>C3. A roundtrip is a barrier (invariant). Once the client has seen its last request acknowledged - the
  condition \<^verbatim>\<open>roundtrip\<close> waits for -, the server has handled that request and every message
  sent before it, and the client has handled every message the server had sent up to its
  acknowledgement. This holds in every interleaving in which reads take whole messages, until
  the counter of requests wraps.\<close>

theorem roundtrip_barrier:
  assumes "client_env_ok cenv" and "env_ok senv impls" and "impls_ok impls" and "impls_fit impls"
    and "reachable cenv senv impls y" and "cs_lastSentRoundtripSeq (sy_client y) = q" and "q \<noteq> 0"
    and "\<not> cs_lastAckdRoundtripSeq (sy_client y) < q"
  shows "(\<exists>before after. cs_sent (sy_client y) = before @ request_entry q # after \<and> length before < sy_up y \<and>
      \<not> list_ex is_request after) \<and>
    (\<exists>before after. sc_sent (sy_server y) = before @ done_entry q # after \<and> length before < sy_down y)"
proof -
  let ?c = "sy_client y" and ?s = "sy_server y" and ?n = "unat q"
  let ?f = "\<lambda>k. request_entry (of_nat k)"
  have inv: "system_inv impls y" using system_inv_reachable[OF assms(1-5)] .
  then have view: "view_ok impls (set (sc_exposedProtocols ?s)) (set (take (sy_down y) (sc_sent ?s))) (client_view ?c)"
    and acks: "\<forall>k. done_entry k \<in> set (filter is_done (sc_sent ?s)) \<longrightarrow> request_entry k \<in> set (take (sy_up y) (cs_sent ?c))"
    by (simp_all add: system_inv_def client_side_iff server_side_def acks_from_def)
  let ?a = "cs_lastAckdRoundtripSeq ?c"
  have reqs: "filter is_request (cs_sent ?c) = map ?f [1..<Suc ?n]" and acked: "?a \<noteq> 0 \<longrightarrow> done_entry ?a \<in> set (take (sy_down y) (sc_sent ?s))"
    using view assms(6) unfolding client_view_def view_ok.simps by blast+
  have n: "1 \<le> ?n" "?n < 2 ^ 32" using assms(7) unsigned_less[of q] by (simp_all add: unat_gt_0 Suc_le_eq)
  have id: "unat (of_nat k :: u32) = k" if "k \<le> ?n" for k using that n(2) by (simp add: unat_of_nat)
  have "?a \<noteq> 0" using assms(7,8) by (auto simp: word_gt_0)
  with acked have acks_a: "done_entry ?a \<in> set (take (sy_down y) (sc_sent ?s))" by blast
  then have "done_entry ?a \<in> set (filter is_done (sc_sent ?s))"
    by (auto simp: is_done_def enc_RoundtripDone_def dest: in_set_takeD)
  with acks have req: "request_entry ?a \<in> set (take (sy_up y) (cs_sent ?c))" by blast
  then have "request_entry ?a \<in> set (filter is_request (cs_sent ?c))"
    using is_request_client[of "CmRoundtrip ?a"] by (auto dest: in_set_takeD)
  then have "request_entry ?a \<in> ?f ` set [1..<Suc ?n]" unfolding reqs set_map .
  then obtain k where "k \<in> set [1..<Suc ?n]" "request_entry ?a = ?f k" by blast
  then have k: "k \<le> ?n" "?a = of_nat k" unfolding request_entry_inj by auto
  have "?n \<le> k" using assms(8) k(2) id[OF k(1)] by (simp add: word_less_nat_alt not_less)
  with k have "?a = q" by simp
  have upt: "[1..<Suc ?n] = [1..<?n] @ [?n]" using n(1) by simp
  then have last: "filter is_request (cs_sent ?c) = map ?f [1..<?n] @ [request_entry q]"
    unfolding reqs by (simp del: enc_client_msg.simps)
  have "inj_on ?f (set [1..<Suc ?n])"
    by (rule inj_onI) (metis atLeastLessThan_iff id less_Suc_eq_le request_entry_inj set_upt)
  then have "distinct (map ?f [1..<Suc ?n])" by (simp only: distinct_map distinct_upt simp_thms)
  then have "distinct (map ?f [1..<?n] @ [request_entry q])" unfolding reqs[symmetric] last .
  from last_occurrence[OF last this] req \<open>?a = q\<close> have "\<exists>before after. cs_sent ?c = before @ request_entry q # after \<and>
      length before < sy_up y \<and> \<not> list_ex is_request after" by simp
  moreover obtain pre post where split: "take (sy_down y) (sc_sent ?s) = pre @ done_entry q # post"
    using split_list[OF acks_a] \<open>?a = q\<close> by blast
  then have "sc_sent ?s = pre @ done_entry q # (post @ drop (sy_down y) (sc_sent ?s))"
    using append_take_drop_id[of "sy_down y" "sc_sent ?s"] by simp
  moreover have "length pre < sy_down y" using arg_cong[OF split, of length] by (simp add: min_def split: if_splits)
  ultimately show ?thesis by blast
qed

text \<open>The last of a list in which every entry shows its number.\<close>

lemma last_is_unique:
  "last_is done_entry es q \<Longrightarrow> last_is done_entry es q' \<Longrightarrow> q = q'"
  "last_is request_entry es q \<Longrightarrow> last_is request_entry es q' \<Longrightarrow> q = q'"
  by (auto simp: last_is_def enc_RoundtripDone_def enc_RoundtripRequest_def dest: arg_cong[of _ _ bytes_u32])

lemma answered_reachable:
  assumes "client_env_ok cenv" "env_ok senv impls" "impls_ok impls" "impls_fit impls" and "reachable cenv senv impls y"
  shows "answered y"
proof -
  obtain fd where run: "(system_step cenv senv impls)\<^sup>*\<^sup>* (system_start fd) y" using assms(5) by blast
  then have "system_inv impls y \<and> answered y"
  proof induction
    case base
    have "answered (system_start fd)"
      by (simp add: answered_def last_is_def system_start_def new_server_client_def open_socket_def socket_sendMessage_def)
    with system_inv_start show ?case by blast
  next
    case (step y z)
    with system_inv_step[OF assms(1-4)] answered_step[OF assms(1-4)] show ?case by blast
  qed
  then show ?thesis by blast
qed

text \<open>C4. Roundtrips are answered (liveness). Whenever nothing is in flight - either end has handled all that
  the other has sent - and the server has not given the connection up, the last request of
  the client has been acknowledged, whatever was called, read and answered before: a
  client in \<^verbatim>\<open>roundtrip\<close> waits only as long as there is something left to deliver. Reads
  take whole messages.\<close>

theorem roundtrips_answered:
  assumes "client_env_ok cenv" and "env_ok senv impls" and "impls_ok impls" and "impls_fit impls"
    and "reachable cenv senv impls y" and "\<not> sc_error (sy_server y)"
    and "sy_up y = length (cs_sent (sy_client y))" and "sy_down y = length (sc_sent (sy_server y))"
  shows "cs_lastAckdRoundtripSeq (sy_client y) = cs_lastSentRoundtripSeq (sy_client y)"
proof -
  let ?q = "cs_lastSentRoundtripSeq (sy_client y)" and ?reqs = "filter is_request (cs_sent (sy_client y))"
  have "answered y" using answered_reachable[OF assms(1-5)] .
  then obtain q where q: "last_is request_entry ?reqs q" "q = cs_lastAckdRoundtripSeq (sy_client y)"
    using last_is_unique(1) assms(6-8) by (auto simp: answered_def)
  have "?reqs = map (\<lambda>k. request_entry (of_nat k)) [1..<Suc (unat ?q)]"
    using system_inv_reachable[OF assms(1-5)] by (simp add: system_inv_def client_side_iff client_view_def)
  then have "last_is request_entry ?reqs ?q"
    by (cases "?q = 0") (auto simp: last_is_def unat_gt_0 Suc_le_eq)
  with q(1) have "q = ?q" by (rule last_is_unique(2))
  with q(2) show ?thesis by simp
qed

text \<open>C16. The ends agree on ids (invariant). An id a client object has was announced by the server for the
  sequence of that object and is one the server has drawn; no two objects of the client
  share one - for fewer than two to the power of 32 messages of the server, read as whole
  messages.\<close>

theorem ids_agree:
  assumes "client_env_ok cenv" and "env_ok senv impls" and "impls_ok impls" and "impls_fit impls"
    and "reachable cenv senv impls y" and "length (sc_sent (sy_server y)) < 2 ^ 32 - 1"
    and "obj \<in> set (cs_objects (sy_client y))" and "w_id obj \<noteq> 0"
  shows "new_entry (w_seq obj) (w_id obj) \<in> set (take (sy_down y) (sc_sent (sy_server y))) \<and>
    w_id obj < sc_maxId (sy_server y) \<and>
    (\<forall>ob \<in> set (cs_objects (sy_client y)). w_id ob = w_id obj \<longrightarrow> ob = obj)"
proof -
  let ?c = "sy_client y" and ?s = "sy_server y"
  have inv: "system_inv impls y" using system_inv_reachable[OF assms(1-5)] .
  then have ids: "ids_from {(q, oid). new_entry q oid \<in> set (take (sy_down y) (sc_sent ?s))} ?c"
    and num: "ids_numbered ?s" and ok: "client_ok ?c"
    by (simp_all add: system_inv_def client_side_iff server_side_def)
  have told: "new_entry (w_seq ob) (w_id ob) \<in> set (take (sy_down y) (sc_sent ?s))"
    if "ob \<in> set (cs_objects ?c)" "w_id ob \<noteq> 0" for ob
    using ids that by (auto simp: ids_from_def)
  note here = told[OF assms(7,8)]
  note once = announced_once[OF num assms(6) in_set_takeD[OF here]]
  have "ob = obj" if "ob \<in> set (cs_objects ?c)" "w_id ob = w_id obj" for ob
  proof -
    have "new_entry (w_seq ob) (w_id obj) \<in> set (sc_sent ?s)"
      using told[OF that(1)] that(2) assms(8) by (auto dest: in_set_takeD)
    with once have "w_seq ob = w_seq obj" by blast
    moreover have "distinct (map w_seq (cs_objects ?c))" using ok by (simp add: client_ok_def)
    ultimately show ?thesis using that(1) assms(7) by (auto simp: distinct_map dest: inj_onD)
  qed
  with here once[OF in_set_takeD[OF here]] show ?thesis by blast
qed

text \<open>C17. A client learns nothing it is not meant to see (safety). Every specification it has, and so can
  bind, is that of a registered protocol, with its version, which the server exposes to
  this client; reads take whole messages.\<close>

theorem client_knows_exposed:
  assumes "client_env_ok cenv" and "env_ok senv impls" and "impls_ok impls" and "impls_fit impls"
    and "reachable cenv senv impls y" and "getSpec name (sy_client y) = Some spec"
  shows "\<exists>i \<in> set impls. specName (protocol i) = name \<and> name \<in> set (sc_exposedProtocols (sy_server y)) \<and>
    spec = server_spec name (specVer (protocol i))"
proof -
  have "view_ok impls (set (sc_exposedProtocols (sy_server y)))
      (set (take (sy_down y) (sc_sent (sy_server y)))) (client_view (sy_client y))"
    using system_inv_reachable[OF assms(1-5)] by (simp add: system_inv_def client_side_iff)
  then have "set (cs_serverSpecs (sy_client y)) \<subseteq> exposed_specs impls (set (sc_exposedProtocols (sy_server y)))"
    by (simp add: client_view_def)
  moreover have "spec \<in> set (cs_serverSpecs (sy_client y))" "specName spec = name"
    using assms(6) by (auto simp: getSpec_def find_Some_iff)
  ultimately obtain i where "i \<in> set impls" "specName (protocol i) \<in> set (sc_exposedProtocols (sy_server y))"
    "spec = server_spec (specName (protocol i)) (specVer (protocol i))"
    unfolding exposed_specs_def by blast
  with \<open>specName spec = name\<close> show ?thesis by (auto simp: server_spec_def)
qed

section \<open>A run\<close>

definition example_requests :: "client_msg list" where
  "example_requests =
     [CmHello, CmBind \<lparr>bind_protocol = ''my_protocol'', bind_seq = 1, bind_version = 1\<rparr>, CmRoundtrip 1]"

definition example_answers :: "server_msg list" where
  "example_answers = [SmHandshakeBegin [1], SmNewObject \<lparr>no_seq = 1, no_id = 1\<rparr>, SmDone 1]"

lemma example_serve:
  "\<exists>u. serve example_env example_impls example_requests (new_server_client 5 True) = Inr ([], u) \<and> \<not> sc_error u \<and>
     sc_fdValid u \<and> sc_scheduledRoundtripSeq u = 1 \<and> sc_exposedProtocols u = [''my_protocol''] \<and>
     sc_sent u = map server_entry [SmHandshakeBegin [1], SmNewObject \<lparr>no_seq = 1, no_id = 1\<rparr>]"
  unfolding example_requests_def serve.simps serve_one.simps bnd_simps example_first_poll
  by (simp add: new_server_client_def client_sendMessage_def client_createObject_def announce_object_def resolve_object_def example_impls_def example_spec_def fresh_object_def Let_def client_onBind_def example_env_def example_bind_def
      find_object_def has_id_def listen_def update_object_def HYPRWIRE_PROTOCOL_VER_def)

definition example_caller :: client_socket where
  "example_caller = begin_roundtrip (socket_sendMessage
     (enc_BindProtocol \<lparr>bind_protocol = ''my_protocol'', bind_seq = 1, bind_version = 1\<rparr>) []
     ((open_socket True)\<lparr>cs_seq := 1, cs_objects := [\<lparr>w_listeners = [], w_id = 0, w_version = 1, w_seq = 1,
        w_destroyed = False, w_protocolName = ''my_protocol'', w_spec = Some (hd (spec_objects example_spec))\<rparr>]\<rparr>))"

definition example_input :: dispatch_input where
  "example_input = \<lparr>di_deadlinePassed = False, di_pollEvent = True, di_pollin = True, di_pollhup = False,
     di_read = Some (enc_replies example_answers, replies_fds example_answers)\<rparr>"

lemma example_caller_state:
  "cs_sent example_caller = map client_entry example_requests" "cs_lastSentRoundtripSeq example_caller = 1"
  "\<not> cs_error example_caller" "cs_pendingOutgoing example_caller = []" "cs_fdValid example_caller"
  "cs_serverSpecs example_caller = []"
  by (simp_all add: example_caller_def begin_roundtrip_def open_socket_def socket_sendMessage_def example_requests_def Let_def)

lemma example_ok:
  "list_all ok_client_msg example_requests" "vec_ok (enc_stream example_requests)"
  "list_all ok_server_msg example_answers" "vec_ok (enc_replies example_answers)"
proof -
  show "list_all ok_client_msg example_requests"
    by (simp add: example_requests_def ok_BindProtocol_def ok_string_def)
  show "vec_ok (enc_stream example_requests)"
    using length_encodeVarInt(1)[of "length ''my_protocol''"]
    by (simp add: example_requests_def vec_ok_def enc_message_defs enc_string_def enc_bytes_def)
  show "list_all ok_server_msg example_answers"
    by (simp add: example_answers_def ok_HandshakeBegin_def)
  show "vec_ok (enc_replies example_answers)"
    using length_encodeVarInt(1)[of "Suc 0"]
    by (simp add: example_answers_def vec_ok_def enc_message_defs)
qed

text \<open>A user who keeps the objects.\<close>

definition holding_env :: client_env where
  "holding_env = example_client_env\<lparr>cenv_held := (\<lambda>_. True)\<rparr>"

lemma holding_env_ok: "client_env_ok holding_env"
  using example_client_env_ok by (simp add: holding_env_def client_env_ok_def)

lemma example_caller_object:
  "\<exists>obj. cs_objects example_caller = [obj] \<and> w_seq obj = 1 \<and> w_id obj = 0"
  by (simp add: example_caller_def begin_roundtrip_def open_socket_def socket_sendMessage_def Let_def)

lemma nothing_collected: "collectOrphanedObjects holding_env c = Inr c"
  by (simp add: collectOrphanedObjects_def orphaned_def holding_env_def)

lemma example_receive:
  "\<exists>t obj. dispatchEvents holding_env False example_input example_caller = Some (Inr (True, t)) \<and>
     cs_lastAckdRoundtripSeq t = 1 \<and> cs_lastSentRoundtripSeq t = 1 \<and> cs_objects t = [obj] \<and> w_seq obj = 1 \<and> w_id obj = 1 \<and>
     \<not> cs_error t \<and> cs_pendingOutgoing t = [] \<and> cs_serverSpecs t = [] \<and>
     cs_sent t = map client_entry (example_requests @ [CmAck 1])"
proof -
  let ?t = "(onSeq 1 1 (socket_sendMessage (enc_HandshakeAck 1) [] example_caller))\<lparr>cs_lastAckdRoundtripSeq := 1\<rparr>"
  have "receive holding_env example_answers example_caller = Inr (True, ?t)"
    by (simp add: example_answers_def HYPRWIRE_PROTOCOL_VER_def)
  then have handled: "client_handleMessage holding_env (enc_replies example_answers) (replies_fds example_answers) example_caller =
      Some (Inr (MESSAGE_PARSED_OK, ?t))"
    using read_receives[OF example_ok(3,4)] by simp
  have ne: "enc_replies example_answers \<noteq> []" by (simp add: example_answers_def enc_NewObject_def)
  have t: "cs_pendingOutgoing ?t = []" "\<not> cs_error ?t" "cs_lastSentRoundtripSeq ?t = 1"
    "cs_serverSpecs ?t = []" "cs_sent ?t = map client_entry (example_requests @ [CmAck 1])"
    using example_caller_state by (simp_all add: onSeq_def socket_sendMessage_def)
  from t(1) have "flushPendingOutgoing ?t = ?t" by (simp add: flushPendingOutgoing_def)
  then have "dispatchEvents holding_env False example_input example_caller = Some (Inr (True, ?t))"
    using handled ne t(2) example_caller_state(3) nothing_collected
    by (simp add: dispatchEvents_def dispatch_read_def example_input_def)
  moreover have "\<exists>obj. cs_objects ?t = [obj] \<and> w_seq obj = 1 \<and> w_id obj = 1"
    using example_caller_object by (auto simp: onSeq_def socket_sendMessage_def)
  ultimately show ?thesis using t by (intro exI[of _ ?t]) auto
qed

lemma example_dispatch:
  "\<exists>s u. serve example_env example_impls example_requests (new_server_client 5 True) = Inr ([], u) \<and>
     dispatchClient example_env example_impls (Some (enc_stream example_requests, stream_fds example_requests))
       (new_server_client 5 True) = Some (Inr s) \<and> sc_sent s = map server_entry example_answers \<and>
     \<not> sc_error s \<and> sc_fdValid s \<and> sc_scheduledRoundtripSeq s = 0 \<and> sc_exposedProtocols s = [''my_protocol'']"
proof -
  obtain u where u: "serve example_env example_impls example_requests (new_server_client 5 True) = Inr ([], u)"
    "sc_fdValid u" "sc_scheduledRoundtripSeq u = 1"
    "\<not> sc_error u" "sc_exposedProtocols u = [''my_protocol'']" "sc_sent u = map server_entry [SmHandshakeBegin [1], SmNewObject \<lparr>no_seq = 1, no_id = 1\<rparr>]"
    using example_serve by blast
  have "server_handleMessage example_env example_impls (enc_stream example_requests) (stream_fds example_requests)
      (new_server_client 5 True) = Some (Inr (MESSAGE_PARSED_OK, u))"
    using read_serves[OF example_ok(1,2) u(1)] by simp
  then show ?thesis
    using u by (simp add: dispatchClient_def client_sendMessage_def example_answers_def) (simp add: example_requests_def)
qed

definition example_bound_caller :: client_socket where
  "example_bound_caller = socket_sendMessage
     (enc_BindProtocol \<lparr>bind_protocol = ''my_protocol'', bind_seq = 1, bind_version = 1\<rparr>) []
     ((open_socket True)\<lparr>cs_seq := 1, cs_objects := [\<lparr>w_listeners = [], w_id = 0, w_version = 1, w_seq = 1,
        w_destroyed = False, w_protocolName = ''my_protocol'', w_spec = Some (hd (spec_objects example_spec))\<rparr>]\<rparr>)"

text \<open>The second exchange: the client's version, the server's protocols.\<close>

lemma example_version:
  assumes "\<not> sc_error s" "sc_fdValid s" "sc_scheduledRoundtripSeq s = 0" "sc_exposedProtocols s = [''my_protocol'']"
  shows "\<exists>t. serve example_env example_impls [CmAck 1] s = Inr ([], t) \<and>
     dispatchClient example_env example_impls (Some (enc_stream [CmAck 1], stream_fds [CmAck 1])) s = Some (Inr t) \<and>
     sc_sent t = sc_sent s @ [server_entry (SmProtocols [protocol_entry example_spec])] \<and> \<not> sc_error t"
proof -
  let ?t = "client_sendMessage (enc_HandshakeProtocols [protocol_entry example_spec]) [] (s\<lparr>sc_version := 1\<rparr>)"
  have names: "protocol_names example_impls [''my_protocol''] = [protocol_entry example_spec]"
    by (simp add: protocol_names_def example_impls_def example_spec_def)
  have run: "serve example_env example_impls [CmAck 1] s = Inr ([], ?t)" using assms(1,4) names by simp
  have "vec_ok (enc_stream [CmAck 1])" by (simp add: vec_ok_def enc_HandshakeAck_def)
  then have "server_handleMessage example_env example_impls (enc_stream [CmAck 1]) (stream_fds [CmAck 1]) s =
      Some (Inr (MESSAGE_PARSED_OK, ?t))"
    using read_serves[OF _ _ run] by simp
  then have "dispatchClient example_env example_impls (Some (enc_stream [CmAck 1], stream_fds [CmAck 1])) s = Some (Inr ?t)"
    using assms(3) by (simp add: dispatchClient_def client_sendMessage_def enc_HandshakeAck_def)
  with run assms(1,2) show ?thesis by (intro exI[of _ ?t]) (simp add: client_sendMessage_def)
qed

definition example_learn :: dispatch_input where
  "example_learn = example_input\<lparr>di_read := Some (enc_replies [SmProtocols [protocol_entry example_spec]], [])\<rparr>"

lemma example_protocols_ok:
  "ok_server_msg (SmProtocols [protocol_entry example_spec])" "vec_ok (enc_replies [SmProtocols [protocol_entry example_spec]])"
  using example_replies_ok by (simp_all add: example_replies_def vec_ok_def)

lemma example_learns:
  assumes "\<not> cs_error c" "cs_pendingOutgoing c = []" "cs_serverSpecs c = []"
  shows "\<exists>t. dispatchEvents holding_env False example_learn c = Some (Inr (True, t)) \<and>
     cs_serverSpecs t = [server_spec ''my_protocol'' 1] \<and> cs_sent t = cs_sent c \<and> cs_objects t = cs_objects c \<and>
     cs_lastSentRoundtripSeq t = cs_lastSentRoundtripSeq c"
proof -
  let ?t = "serverSpecs [protocol_entry example_spec] c"
  have "serverSpecs (map protocol_entry [example_spec]) c = c\<lparr>cs_serverSpecs := [server_spec ''my_protocol'' 1], cs_handshakeDone := True\<rparr>"
    unfolding serverSpecs_def add_specs_entries using assms(3) by (simp add: example_spec_def)
  then have t: "?t = c\<lparr>cs_serverSpecs := [server_spec ''my_protocol'' 1], cs_handshakeDone := True\<rparr>" by simp
  have "client_handleMessage holding_env (enc_replies [SmProtocols [protocol_entry example_spec]]) [] c =
      Some (Inr (MESSAGE_PARSED_OK, ?t))"
    using read_receives[of "[SmProtocols [protocol_entry example_spec]]" holding_env c] example_protocols_ok by simp
  moreover have "flushPendingOutgoing ?t = ?t" "\<not> cs_error ?t" using assms unfolding t by (simp_all add: flushPendingOutgoing_def)
  ultimately show ?thesis
    using assms(1) t nothing_collected
    by (simp add: dispatchEvents_def dispatch_read_def example_learn_def example_input_def enc_HandshakeProtocols_def)
qed

lemma example_run:
  "reachable holding_env example_env example_impls ((system_start 5)\<lparr>sy_client := example_caller\<rparr>)"
  "\<exists>y obj. reachable holding_env example_env example_impls y \<and> cs_lastSentRoundtripSeq (sy_client y) = 1 \<and>
     cs_lastAckdRoundtripSeq (sy_client y) = 1 \<and> cs_objects (sy_client y) = [obj] \<and> w_seq obj = 1 \<and> w_id obj = 1 \<and>
     sc_sent (sy_server y) = map server_entry example_answers \<and> sy_up y = 3 \<and> sy_down y = 3 \<and>
     (\<not> cs_error (sy_client y) \<and> cs_pendingOutgoing (sy_client y) = [] \<and> cs_serverSpecs (sy_client y) = [] \<and>
      cs_sent (sy_client y) = map client_entry (example_requests @ [CmAck 1])) \<and>
     (\<not> sc_error (sy_server y) \<and> sc_fdValid (sy_server y) \<and> sc_scheduledRoundtripSeq (sy_server y) = 0 \<and>
      sc_exposedProtocols (sy_server y) = [''my_protocol''])"
proof -
  let ?step = "system_step holding_env example_env example_impls"
  let ?y0 = "system_start 5" and ?c = "example_bound_caller"
  let ?y1 = "?y0\<lparr>sy_client := ?c\<rparr>" and ?y2 = "?y0\<lparr>sy_client := example_caller\<rparr>"
  have bind: "bind_request example_spec 1 (open_socket True) = Inr (Some 1, ?c)"
    by (simp add: bind_request_def example_spec_def example_bound_caller_def open_socket_def socket_sendMessage_def Let_def)
  have "cs_seq (open_socket True) \<noteq> - 1" by (simp add: open_socket_def socket_sendMessage_def)
  then have "client_api (sy_client ?y0) ?c"
    using capi_bind[OF bind _ example_generated] by (simp add: system_start_def)
  then have 1: "?step ?y0 ?y1" by (rule client_user)
  have "\<not> cs_error ?c" "cs_lastSentRoundtripSeq ?c \<noteq> - 1" "begin_roundtrip ?c = example_caller"
    by (simp_all add: example_bound_caller_def example_caller_def open_socket_def socket_sendMessage_def)
  then have 2: "?step ?y1 ?y2"
    using client_roundtrip[of ?y1 holding_env example_env example_impls] by simp
  from 1 2 show "reachable holding_env example_env example_impls ?y2" by (intro exI[of _ 5]) simp
  obtain s u where s: "serve example_env example_impls example_requests (new_server_client 5 True) = Inr ([], u)"
    "dispatchClient example_env example_impls (Some (enc_stream example_requests, stream_fds example_requests))
       (new_server_client 5 True) = Some (Inr s)" "sc_sent s = map server_entry example_answers"
    and s': "\<not> sc_error s" "sc_fdValid s" "sc_scheduledRoundtripSeq s = 0" "sc_exposedProtocols s = [''my_protocol'']"
    using example_dispatch by blast
  let ?y3 = "?y2\<lparr>sy_server := s, sy_up := 3\<rparr>"
  have "?step ?y2 (?y2\<lparr>sy_server := s, sy_up := sy_up ?y2 + (length example_requests - length ([] :: client_msg list))\<rparr>)"
    by (rule server_reads[where later = "[]" and u = u])
      (use s example_ok(1,2) example_caller_state(1) in \<open>simp_all add: system_start_def\<close>,
       simp_all add: example_requests_def new_server_client_def)
  then have 3: "?step ?y2 ?y3" by (simp add: system_start_def example_requests_def eval_nat_numeral)
  obtain t obj where t: "dispatchEvents holding_env False example_input example_caller = Some (Inr (True, t))"
    "cs_lastAckdRoundtripSeq t = 1" "cs_lastSentRoundtripSeq t = 1" "cs_objects t = [obj]" "w_seq obj = 1" "w_id obj = 1"
    and t': "\<not> cs_error t" "cs_pendingOutgoing t = []" "cs_serverSpecs t = []"
      "cs_sent t = map client_entry (example_requests @ [CmAck 1])"
    using example_receive by blast
  let ?y4 = "?y3\<lparr>sy_client := t, sy_down := 3\<rparr>"
  have "?step ?y3 (?y3\<lparr>sy_client := t, sy_down := sy_down ?y3 + length example_answers\<rparr>)"
    by (rule client_reads[where later = "[]" and block = False and inp = example_input and go = True])
      (use s t(1) example_ok(3,4) example_caller_state(3) in \<open>simp_all add: system_start_def no_message_def example_input_def\<close>,
       simp_all add: example_answers_def)
  then have 4: "?step ?y3 ?y4" by (simp add: system_start_def example_answers_def eval_nat_numeral)
  from 1 2 3 4 have "?step\<^sup>*\<^sup>* ?y0 ?y4" by (meson converse_rtranclp_into_rtranclp rtranclp.rtrancl_refl)
  then show "\<exists>y obj. reachable holding_env example_env example_impls y \<and> cs_lastSentRoundtripSeq (sy_client y) = 1 \<and>
     cs_lastAckdRoundtripSeq (sy_client y) = 1 \<and> cs_objects (sy_client y) = [obj] \<and> w_seq obj = 1 \<and> w_id obj = 1 \<and>
     sc_sent (sy_server y) = map server_entry example_answers \<and> sy_up y = 3 \<and> sy_down y = 3 \<and>
     (\<not> cs_error (sy_client y) \<and> cs_pendingOutgoing (sy_client y) = [] \<and> cs_serverSpecs (sy_client y) = [] \<and>
      cs_sent (sy_client y) = map client_entry (example_requests @ [CmAck 1])) \<and>
     (\<not> sc_error (sy_server y) \<and> sc_fdValid (sy_server y) \<and> sc_scheduledRoundtripSeq (sy_server y) = 0 \<and>
      sc_exposedProtocols (sy_server y) = [''my_protocol''])"
    using s(3) t s' t' by (intro exI[of _ ?y4] exI[of _ obj] conjI) (simp_all, blast)
qed

lemma example_run_on:
  "\<exists>y. reachable holding_env example_env example_impls y \<and> getSpec ''my_protocol'' (sy_client y) = Some (server_spec ''my_protocol'' 1) \<and>
     \<not> sc_error (sy_server y) \<and> sy_up y = length (cs_sent (sy_client y)) \<and> sy_down y = length (sc_sent (sy_server y)) \<and>
     cs_lastSentRoundtripSeq (sy_client y) = 1 \<and> cs_sent (sy_client y) = map client_entry (example_requests @ [CmAck 1]) \<and>
     length (sc_sent (sy_server y)) = 4 \<and> (\<exists>obj. cs_objects (sy_client y) = [obj] \<and> w_seq obj = 1)"
proof -
  let ?step = "system_step holding_env example_env example_impls"
  obtain y obj where y: "reachable holding_env example_env example_impls y" "sc_sent (sy_server y) = map server_entry example_answers"
      "sy_up y = 3" "sy_down y = 3" "cs_lastSentRoundtripSeq (sy_client y) = 1" "cs_objects (sy_client y) = [obj]" "w_seq obj = 1"
    and t': "\<not> cs_error (sy_client y)" "cs_pendingOutgoing (sy_client y) = []" "cs_serverSpecs (sy_client y) = []"
      "cs_sent (sy_client y) = map client_entry (example_requests @ [CmAck 1])"
    and s': "\<not> sc_error (sy_server y)" "sc_fdValid (sy_server y)" "sc_scheduledRoundtripSeq (sy_server y) = 0"
      "sc_exposedProtocols (sy_server y) = [''my_protocol'']"
    using example_run(2) by blast
  obtain s2 where s2: "serve example_env example_impls [CmAck 1] (sy_server y) = Inr ([], s2)"
    "dispatchClient example_env example_impls (Some (enc_stream [CmAck 1], stream_fds [CmAck 1])) (sy_server y) = Some (Inr s2)"
    "sc_sent s2 = sc_sent (sy_server y) @ [server_entry (SmProtocols [protocol_entry example_spec])]" "\<not> sc_error s2"
    using example_version[OF s'] by blast
  let ?y5 = "y\<lparr>sy_server := s2, sy_up := sy_up y + (length [CmAck 1] - length ([] :: client_msg list))\<rparr>"
  have waiting: "drop (sy_up y) (cs_sent (sy_client y)) = map client_entry [CmAck 1] @ []"
    using t'(4) y(3) by (simp add: example_requests_def)
  have "vec_ok (enc_stream [CmAck 1])" by (simp add: vec_ok_def enc_HandshakeAck_def)
  with server_reads[OF s'(1) _ waiting _ _ s2(1,2)] have 5: "?step y ?y5" by simp
  obtain t2 where t2: "dispatchEvents holding_env False example_learn (sy_client y) = Some (Inr (True, t2))"
    "cs_serverSpecs t2 = [server_spec ''my_protocol'' 1]" "cs_sent t2 = cs_sent (sy_client y)"
    "cs_lastSentRoundtripSeq t2 = cs_lastSentRoundtripSeq (sy_client y)" "cs_objects t2 = cs_objects (sy_client y)"
    using example_learns[OF t'(1-3)] by blast
  let ?ms = "[SmProtocols [protocol_entry example_spec]]"
  let ?y6 = "?y5\<lparr>sy_client := t2, sy_down := sy_down ?y5 + length ?ms\<rparr>"
  have "\<not> no_message (sy_client ?y5) False example_learn" "di_read example_learn = Some (enc_replies ?ms, replies_fds ?ms)"
    using t'(1) by (simp_all add: no_message_def example_learn_def example_input_def enc_HandshakeProtocols_def)
  moreover have "drop (sy_down ?y5) (sc_sent (sy_server ?y5)) = map server_entry ?ms @ []"
    using s2(3) y(2,4) by (simp add: example_answers_def)
  ultimately have 6: "?step ?y5 ?y6"
    using example_protocols_ok t2(1) by (intro client_reads[where go = True and block = False and inp = example_learn and later = "[]"]) simp_all
  from y(1) 5 6 have "reachable holding_env example_env example_impls ?y6" by (meson rtranclp.rtrancl_into_rtrancl)
  moreover have "getSpec ''my_protocol'' (sy_client ?y6) = Some (server_spec ''my_protocol'' 1)"
    using t2(2) by (simp add: getSpec_def server_spec_def)
  moreover have "\<not> sc_error (sy_server ?y6) \<and> sy_up ?y6 = length (cs_sent (sy_client ?y6)) \<and>
      sy_down ?y6 = length (sc_sent (sy_server ?y6)) \<and> cs_lastSentRoundtripSeq (sy_client ?y6) = 1"
    using s2(3,4) t2(3,4) t'(4) y(2-5) by (simp add: example_requests_def example_answers_def)
  moreover have "cs_sent (sy_client ?y6) = map client_entry (example_requests @ [CmAck 1]) \<and> length (sc_sent (sy_server ?y6)) = 4 \<and>
      (\<exists>obj. cs_objects (sy_client ?y6) = [obj] \<and> w_seq obj = 1)"
    using s2(3) t2(3,5) t'(4) y(2,6,7) by (simp add: example_answers_def)
  ultimately show ?thesis by blast
qed

lemma example_impls_fit: "impls_fit example_impls"
proof -
  have "dec_u32 1 = ''1''" by code_simp
  then show ?thesis by (simp add: impls_fit_def example_impls_def protocol_entry_def example_spec_def ok_string_def)
qed

lemmas example_system = holding_env_ok example_env_ok example_impls_ok example_impls_fit

theorem exchange_never_stops_witness:
  "\<exists>cms sms. cs_sent example_caller = map client_entry cms \<and> list_all asked cms \<and>
     sc_sent (new_server_client 5 True) = map server_entry sms"
  using exchange_never_stops[OF example_system example_run(1)] by (simp add: system_start_def) blast

theorem roundtrip_barrier_witness:
  "\<exists>(y :: system) before after. cs_sent (sy_client y) = before @ request_entry 1 # after \<and> length before < sy_up y \<and> sy_up y = 3"
proof -
  obtain y where y: "reachable holding_env example_env example_impls y" "cs_lastSentRoundtripSeq (sy_client y) = 1"
    "cs_lastAckdRoundtripSeq (sy_client y) = 1" "sy_up y = 3"
    using example_run(2) by blast
  from roundtrip_barrier[OF example_system y(1,2)] y(3,4) show ?thesis by (intro exI[of _ y]) auto
qed

theorem roundtrips_answered_witness:
  "\<exists>y :: system. cs_lastSentRoundtripSeq (sy_client y) = 1 \<and> cs_lastAckdRoundtripSeq (sy_client y) = 1"
proof -
  obtain y where y: "reachable holding_env example_env example_impls y" "\<not> sc_error (sy_server y)"
    "sy_up y = length (cs_sent (sy_client y))" "sy_down y = length (sc_sent (sy_server y))" "cs_lastSentRoundtripSeq (sy_client y) = 1"
    using example_run_on by blast
  from roundtrips_answered[OF example_system y(1-4)] y(5) show ?thesis by (intro exI[of _ y]) simp
qed

theorem ids_agree_witness:
  "\<exists>(y :: system) obj. obj \<in> set (cs_objects (sy_client y)) \<and> w_id obj = 1 \<and>
     new_entry (w_seq obj) (w_id obj) \<in> set (sc_sent (sy_server y)) \<and> w_id obj < sc_maxId (sy_server y)"
proof -
  obtain y obj where y: "reachable holding_env example_env example_impls y" "cs_objects (sy_client y) = [obj]" "w_id obj = 1"
    "sc_sent (sy_server y) = map server_entry example_answers"
    using example_run(2) by blast
  from ids_agree[OF example_system y(1), of obj] y(2-4) show ?thesis
    by (intro exI[of _ y] exI[of _ obj]) (auto simp: example_answers_def dest: in_set_takeD)
qed

theorem client_knows_exposed_witness:
  "\<exists>y :: system. getSpec ''my_protocol'' (sy_client y) = Some (server_spec ''my_protocol'' 1) \<and>
     ''my_protocol'' \<in> set (sc_exposedProtocols (sy_server y))"
proof -
  obtain y where y: "reachable holding_env example_env example_impls y"
    "getSpec ''my_protocol'' (sy_client y) = Some (server_spec ''my_protocol'' 1)"
    using example_run_on by blast
  from client_knows_exposed[OF example_system y] y(2) show ?thesis by (intro exI[of _ y]) auto
qed

end
