(* ===== verification/Binding.thy ===== *)
theory Binding
  imports Exchange
begin

text \<open>
  Once nothing is in flight between a client and a server, every object the client has bound
  has its id, and no call waits for one: the server answers each bind it reads, or gives the
  connection up.
\<close>

section \<open>The binds of a log\<close>

definition binds :: "(byte list \<times> int list) list \<Rightarrow> u32 set" where
  "binds es = {q. \<exists>m. client_entry (CmBind m) \<in> set es \<and> bind_seq m = q}"

lemma binds_append [simp]: "binds (xs @ ys) = binds xs \<union> binds ys"
  by (auto simp: binds_def)

lemma binds_Nil [simp]: "binds [] = {}"
  by (simp add: binds_def)

lemma bind_entry:
  assumes "client_entry (CmBind m) = client_entry m'"
  shows "\<exists>k. m' = CmBind k \<and> bind_seq k = bind_seq m"
proof (cases m')
  case (CmBind k)
  have "bind_seq k = bind_seq m"
    using assms unfolding CmBind by (auto simp: enc_BindProtocol_def dest: arg_cong[of _ _ bytes_u32])
  with CmBind show ?thesis by blast
qed (use assms in \<open>simp_all add: enc_message_defs\<close>)

lemma in_binds: "q \<in> binds [e] \<longleftrightarrow> (\<exists>m. client_entry (CmBind m) = e \<and> bind_seq m = q)"
  unfolding binds_def by simp

lemma binds_entry [simp]: "binds [client_entry (CmBind m)] = {bind_seq m}"
proof (rule set_eqI)
  fix q
  have "bind_seq k = bind_seq m" if "client_entry (CmBind k) = client_entry (CmBind m)" for k
    using bind_entry[OF that] by auto
  then show "q \<in> binds [client_entry (CmBind m)] \<longleftrightarrow> q \<in> {bind_seq m}"
    unfolding in_binds by blast
qed

lemma binds_other:
  assumes "\<And>m. m' \<noteq> CmBind m"
  shows "binds [client_entry m'] = {}"
proof (rule equals0I)
  fix q
  assume "q \<in> binds [client_entry m']"
  then obtain m where "client_entry (CmBind m) = client_entry m'" unfolding in_binds by blast
  from bind_entry[OF this] assms show False by blast
qed

lemma binds_Cons: "binds (e # es) = binds [e] \<union> binds es"
  by (auto simp: binds_def)

lemma binds_none: "(\<And>e. e \<in> set es \<Longrightarrow> \<exists>m'. e = client_entry m' \<and> (\<forall>m. m' \<noteq> CmBind m)) \<Longrightarrow> binds es = {}"
proof (induction es)
  case (Cons e es)
  then obtain m' where "e = client_entry m'" "\<And>m. m' \<noteq> CmBind m" by fastforce
  then have "binds [e] = {}" using binds_other by simp
  moreover have "binds es = {}" using Cons by simp
  ultimately show ?case unfolding binds_Cons[of e es] by blast
qed simp

section \<open>What a client waits for\<close>

text \<open>
  A step of the client that learns nothing: it appends to the log, draws sequences, binds only
  new ones, and neither gives an object an id nor takes one back.
\<close>

definition moves :: "client_socket \<Rightarrow> client_socket \<Rightarrow> bool" where
  "moves s t \<longleftrightarrow>
     (\<exists>new. cs_sent t = cs_sent s @ new \<and> (\<forall>q \<in> binds new. cs_seq s < q \<and> q \<le> cs_seq t)) \<and> cs_seq s \<le> cs_seq t \<and>
     (\<forall>obj \<in> set (cs_objects t). (\<exists>ob \<in> set (cs_objects s). w_seq ob = w_seq obj \<and> w_id ob = w_id obj) \<or> cs_seq s < w_seq obj)"

text \<open>
  Of the messages sent the server has handled \<open>n\<close>. An object without an id whose bind was sent
  is one of those in \<open>L\<close>, or its bind is still to be handled.
\<close>

definition waits_for :: "nat \<Rightarrow> u32 set \<Rightarrow> client_socket \<Rightarrow> bool" where
  "waits_for n L c \<longleftrightarrow>
     n \<le> length (cs_sent c) \<and> (\<forall>q \<in> binds (cs_sent c). q \<le> cs_seq c) \<and>
     (\<forall>obj \<in> set (cs_objects c). w_id obj = 0 \<longrightarrow> w_seq obj \<in> binds (cs_sent c) \<longrightarrow> w_seq obj \<in> L \<union> binds (drop n (cs_sent c)))"

definition calls_wait :: "client_socket \<Rightarrow> bool" where
  "calls_wait c \<longleftrightarrow>
     (\<forall>p \<in> set (cs_pendingOutgoing c). \<exists>obj \<in> set (cs_objects c). w_seq obj = pm_dependsOnSeq p \<and> w_id obj = 0)"

lemma waits_moves:
  assumes waits: "waits_for n L s" and ok: "client_ok s" and step: "moves s t"
  shows "waits_for n L t"
proof -
  obtain new where sent: "cs_sent t = cs_sent s @ new" and new: "\<forall>q \<in> binds new. cs_seq s < q \<and> q \<le> cs_seq t"
    using step by (auto simp: moves_def)
  have seq: "cs_seq s \<le> cs_seq t" using step by (simp add: moves_def)
  have n: "n \<le> length (cs_sent s)" and old: "\<forall>q \<in> binds (cs_sent s). q \<le> cs_seq s" using waits by (simp_all add: waits_for_def)
  have rest: "drop n (cs_sent t) = drop n (cs_sent s) @ new" using sent n by simp
  have "w_seq obj \<in> L \<union> binds (drop n (cs_sent t))"
    if obj: "obj \<in> set (cs_objects t)" "w_id obj = 0" "w_seq obj \<in> binds (cs_sent t)" for obj
  proof (cases "w_seq obj \<in> binds new")
    case False
    then have q: "w_seq obj \<in> binds (cs_sent s)" using obj(3) sent by simp
    then have "\<not> cs_seq s < w_seq obj" using old by (simp add: not_less)
    then obtain ob where "ob \<in> set (cs_objects s)" "w_seq ob = w_seq obj" "w_id ob = w_id obj"
      using step obj(1) by (auto simp: moves_def)
    with waits q obj(2) have "w_seq obj \<in> L \<union> binds (drop n (cs_sent s))" by (metis waits_for_def)
    then show ?thesis using rest by auto
  qed (simp add: rest)
  moreover have "q \<le> cs_seq t" if "q \<in> binds (cs_sent t)" for q
    using that old new seq order_trans unfolding sent by auto
  ultimately show ?thesis using n sent by (simp add: waits_for_def)
qed

lemma moves_same:
  "cs_sent t = cs_sent s \<Longrightarrow> cs_seq t = cs_seq s \<Longrightarrow>
     (\<And>obj. obj \<in> set (cs_objects t) \<Longrightarrow> \<exists>ob \<in> set (cs_objects s). w_seq ob = w_seq obj \<and> w_id ob = w_id obj) \<Longrightarrow> moves s t"
  unfolding moves_def by (intro conjI exI[of _ "[]"]) auto

lemma moves_sends:
  assumes "binds new = {}" and "cs_sent t = cs_sent s @ new" and "cs_seq t = cs_seq s" and "cs_objects t = cs_objects s"
  shows "moves s t"
  using assms unfolding moves_def by (intro conjI exI[of _ new]) auto

lemma moves_trans: "moves s t \<Longrightarrow> moves t u \<Longrightarrow> moves s u"
proof -
  assume st: "moves s t" and tu: "moves t u"
  obtain new new' where sent: "cs_sent t = cs_sent s @ new" "cs_sent u = cs_sent t @ new'"
    and new: "\<forall>q \<in> binds new. cs_seq s < q \<and> q \<le> cs_seq t" "\<forall>q \<in> binds new'. cs_seq t < q \<and> q \<le> cs_seq u"
    using st tu by (auto simp: moves_def)
  have seq: "cs_seq s \<le> cs_seq t" "cs_seq t \<le> cs_seq u" using st tu by (simp_all add: moves_def)
  have "\<forall>q \<in> binds (new @ new'). cs_seq s < q \<and> q \<le> cs_seq u" using new seq by (auto intro: order_trans le_less_trans)
  moreover have "(\<exists>ob \<in> set (cs_objects s). w_seq ob = w_seq obj \<and> w_id ob = w_id obj) \<or> cs_seq s < w_seq obj"
    if "obj \<in> set (cs_objects u)" for obj
  proof (cases "cs_seq t < w_seq obj")
    case True
    with seq show ?thesis by (auto intro: le_less_trans)
  next
    case False
    with tu that obtain ob where "ob \<in> set (cs_objects t)" "w_seq ob = w_seq obj" "w_id ob = w_id obj"
      by (auto simp: moves_def)
    with st show ?thesis unfolding moves_def by metis
  qed
  ultimately show ?thesis using sent seq unfolding moves_def by (intro conjI exI[of _ "new @ new'"]) auto
qed

lemma moves_send:
  "(\<And>m. m' \<noteq> CmBind m) \<Longrightarrow> moves s (socket_sendMessage (enc_client_msg m') (client_msg_fds m') s)"
  using binds_other[of m'] by (cases "cs_fdValid s")
    (auto simp: socket_sendMessage_def intro: moves_same moves_sends[of "[client_entry m']"])

lemma calls_wait_keeps:
  assumes "calls_wait s" and "cs_pendingOutgoing t = cs_pendingOutgoing s"
    and "\<And>obj. obj \<in> set (cs_objects s) \<Longrightarrow> w_id obj = 0 \<Longrightarrow> \<exists>ob \<in> set (cs_objects t). w_seq ob = w_seq obj \<and> w_id ob = 0"
  shows "calls_wait t"
  using assms unfolding calls_wait_def by metis


lemma calls_wait_map:
  assumes "calls_wait s" and "\<And>obj. w_seq (f obj) = w_seq obj \<and> w_id (f obj) = w_id obj"
  shows "calls_wait (s\<lparr>cs_objects := map f (cs_objects s)\<rparr>)"
  using assms by (auto simp: calls_wait_def)

lemma moves_refl: "moves s s"
  by (rule moves_same) auto

lemma moves_make: "moves s v \<Longrightarrow> cs_seq s < q \<Longrightarrow> moves s (makeObject p n q v)"
  by (auto simp: moves_def makeObject_def split: option.split)

lemma moves_call:
  assumes run: "client_call mid vas obj s = Inr (ret, obj', t)" and obj: "client_object_ok obj" and wrap: "cs_seq s \<noteq> - 1"
  shows "moves s t"
  using run
proof (cases rule: client_call_cases)
  case refused
  then show ?thesis using moves_refl by simp
next
  case (failed sp m u)
  then show ?thesis using u32_succ[OF wrap] unfolding moves_def by (auto simp: client_errd_def)
next
  case (passed sp m u v pm data fds)
  have "generated sp" using obj passed(1) by (simp add: client_object_ok_def)
  then have "params_ok (m_params m)"
    using passed(2,3) by (simp add: generated_def spec_ok_def client_methodsOut_def list_all_iff)
  with passed(7) call_message_shape obtain oid args where msg: "data = enc_Generic oid mid args" "fds = wire_args_fds args" by blast
  have "moves s u" using u32_succ[OF wrap] unfolding moves_def passed(4) by auto
  moreover have "moves u v"
    using passed(5)
  proof
    assume v: "v = u\<lparr>cs_pendingOutgoing := cs_pendingOutgoing u @ [pm]\<rparr>"
    show ?thesis unfolding v by (rule moves_same) auto
  next
    assume "v = socket_sendMessage data fds u"
    with moves_send[of "CmCall oid mid args" u] msg show ?thesis by simp
  qed
  ultimately have "moves s v" by (rule moves_trans)
  with u32_succ[OF wrap] show ?thesis unfolding passed(6) by (auto intro: moves_make)
qed

lemma calls_wait_call:
  assumes run: "client_call mid vas obj s = Inr (ret, obj', t)" and obj: "obj \<in> set (cs_objects s)" and waits: "calls_wait s"
  shows "calls_wait t"
  using run
proof (cases rule: client_call_cases)
  case refused
  with waits show ?thesis by simp
next
  case (failed sp m u)
  with waits show ?thesis by (auto simp: client_errd_def calls_wait_def)
next
  case (passed sp m u v pm data fds)
  have u: "cs_objects u = cs_objects s" "cs_pendingOutgoing u = cs_pendingOutgoing s" unfolding passed(4) by simp_all
  then have v: "cs_objects v = cs_objects s" using passed(5) by (auto simp: socket_sendMessage_def)
  have "calls_wait v"
  proof (cases "w_id obj = 0")
    case True
    have "\<exists>ob \<in> set (cs_objects v). w_seq ob = pm_dependsOnSeq pm \<and> w_id ob = 0"
      using True obj v passed(10) by (intro bexI[of _ obj]) simp_all
    moreover have "set (cs_pendingOutgoing v) \<subseteq> insert pm (set (cs_pendingOutgoing s))"
      using passed(5)
    proof
      assume "v = u\<lparr>cs_pendingOutgoing := cs_pendingOutgoing u @ [pm]\<rparr>"
      with u(2) show ?thesis by simp
    next
      assume "v = socket_sendMessage data fds u"
      with u(2) have "cs_pendingOutgoing v = cs_pendingOutgoing s" by (simp add: socket_sendMessage_def)
      then show ?thesis by auto
    qed
    ultimately show ?thesis using waits v unfolding calls_wait_def by auto
  next
    case False
    then have "cs_pendingOutgoing v = cs_pendingOutgoing s" using passed(11) u(2) by (simp add: socket_sendMessage_def)
    with waits v show ?thesis by (simp add: calls_wait_def)
  qed
  moreover have "calls_wait (makeObject p n q v)" if "calls_wait v" for p n q
    using that by (rule calls_wait_keeps) (auto simp: makeObject_def split: option.split)
  ultimately show ?thesis unfolding passed(6) by simp
qed

lemma waits_api:
  assumes api: "client_api s t" and ok: "client_ok s"
  shows "moves s t \<and> (calls_wait s \<longrightarrow> calls_wait t)"
  using api
proof cases
  case (capi_call seq mid vas ret)
  then obtain obj obj' u where obj: "objectForSeq seq s = Some obj" "client_call mid vas obj s = Inr (ret, obj', u)"
    and t: "t = u\<lparr>cs_objects := map (\<lambda>ob. if w_seq ob = seq then ob\<lparr>w_destroyed := w_destroyed obj'\<rparr> else ob) (cs_objects u)\<rparr>"
    by (auto simp: call_seq_def bnd_eq_Inr split: option.splits)
  have mem: "obj \<in> set (cs_objects s)" using obj(1) by (auto simp: objectForSeq_def find_Some_iff)
  then have "client_object_ok obj" using ok by (simp add: client_ok_def list_all_iff)
  then have "moves s u" using moves_call[OF obj(2) _ capi_call(2)] by blast
  moreover have "moves u t" unfolding t by (rule moves_same) auto
  moreover have "calls_wait s \<Longrightarrow> calls_wait u" using calls_wait_call[OF obj(2) mem] .
  moreover have "calls_wait u \<Longrightarrow> calls_wait t" unfolding t by (rule calls_wait_map) simp_all
  ultimately show ?thesis using moves_trans by blast
next
  case (capi_bind spec version r)
  show ?thesis
  proof (cases "version > specVer spec")
    case True
    with capi_bind(1) have t: "t = disconnectOnError s" by (simp add: bind_request_def)
    have "moves s t" unfolding t by (rule moves_same) (auto simp: disconnectOnError_def)
    then show ?thesis unfolding t by (simp add: disconnectOnError_def calls_wait_def)
  next
    case False
    with capi_bind(1) obtain m obj where t: "t = socket_sendMessage (enc_BindProtocol m) []
        (s\<lparr>cs_seq := cs_seq s + 1, cs_objects := cs_objects s @ [obj]\<rparr>)" and new: "bind_seq m = cs_seq s + 1" "w_seq obj = cs_seq s + 1"
      by (fastforce simp: bind_request_def Let_def split: list.splits)
    have st: "cs_seq t = cs_seq s + 1" "cs_objects t = cs_objects s @ [obj]" "cs_pendingOutgoing t = cs_pendingOutgoing s"
      unfolding t by (simp_all add: socket_sendMessage_def)
    have "\<exists>new. cs_sent t = cs_sent s @ new \<and> (new = [] \<or> new = [client_entry (CmBind m)])"
      unfolding t by (cases "cs_fdValid s") (simp_all add: socket_sendMessage_def)
    then have "\<exists>new. cs_sent t = cs_sent s @ new \<and> (\<forall>q \<in> binds new. q = cs_seq s + 1)"
      using binds_entry[of m] new(1) by (metis binds_Nil empty_iff singletonD)
    then obtain new where "cs_sent t = cs_sent s @ new" "\<forall>q \<in> binds new. q = cs_seq s + 1" by blast
    then have "moves s t" using u32_succ[OF capi_bind(2)] new(2) st unfolding moves_def by (intro conjI exI[of _ new]) auto
    moreover have "calls_wait t" if "calls_wait s"
      using that st(3) by (rule calls_wait_keeps) (auto simp: st(2))
    ultimately show ?thesis by blast
  qed
next
  case (capi_listen seq obj mid fn obj')
  show ?thesis unfolding capi_listen(1) by (intro conjI impI moves_same calls_wait_map) auto
next
  case (capi_impl p)
  show ?thesis unfolding capi_impl(1) by (intro conjI impI moves_same) (auto simp: addImplementation_def calls_wait_def)
qed


lemma flush_moves:
  assumes "client_log s"
  shows "moves s (flushPendingOutgoing s) \<and> calls_wait (flushPendingOutgoing s)"
proof -
  have step: "moves u (snd (flush_pending ms u)) \<and> cs_objects (snd (flush_pending ms u)) = cs_objects u \<and>
      (\<forall>p \<in> set (fst (flush_pending ms u)). \<exists>obj \<in> set (cs_objects u). w_seq obj = pm_dependsOnSeq p \<and> w_id obj = 0)"
    if "\<forall>p \<in> set ms. pending_typed p" for ms u
    using that
  proof (induction ms u rule: flush_pending.induct)
    case (1 u)
    show ?case using moves_refl by simp
  next
    case (2 m ms u)
    let ?send = "\<lambda>oid. socket_sendMessage (resolveSeq oid (pm_data m)) (pm_fds m) u"
    have typed: "\<forall>p \<in> set ms. pending_typed p" using 2(4) by simp
    show ?case
    proof (cases "objectForSeq (pm_dependsOnSeq m) u")
      case None
      with 2(1)[OF None typed] show ?thesis by simp
    next
      case (Some obj)
      then have obj: "obj \<in> set (cs_objects u)" "w_seq obj = pm_dependsOnSeq m" by (auto simp: objectForSeq_def find_Some_iff)
      show ?thesis
      proof (cases "w_id obj = 0")
        case True
        with 2(2)[OF Some True typed] Some obj show ?thesis by (cases "flush_pending ms u") auto
      next
        case False
        from 2(4) obtain q mid args where "pm_data m = enc_Generic q mid args" "pm_fds m = wire_args_fds args"
          by (auto simp: pending_typed_def)
        then have "moves u (?send (w_id obj))" using moves_send[of "CmCall (w_id obj) mid args" u] by (simp add: resolveSeq_enc)
        moreover have "cs_objects (?send (w_id obj)) = cs_objects u" by (simp add: socket_sendMessage_def)
        ultimately show ?thesis using 2(3)[OF Some False typed] Some False by (auto intro: moves_trans)
      qed
    qed
  qed
  have "\<forall>p \<in> set (cs_pendingOutgoing s). pending_typed p" using assms by (simp add: client_log_def)
  from step[OF this, of s] obtain kept u where u: "flush_pending (cs_pendingOutgoing s) s = (kept, u)" "moves s u"
    "cs_objects u = cs_objects s" "\<forall>p \<in> set kept. \<exists>obj \<in> set (cs_objects s). w_seq obj = pm_dependsOnSeq p \<and> w_id obj = 0"
    by (cases "flush_pending (cs_pendingOutgoing s) s") simp
  have "moves u (u\<lparr>cs_pendingOutgoing := kept\<rparr>)" by (rule moves_same) auto
  with u moves_trans show ?thesis by (auto simp: flushPendingOutgoing_def calls_wait_def)
qed

lemma collect_moves:
  assumes "client_ok s" and "collectOrphanedObjects env s = Inr t"
  shows "moves s t \<and> (calls_wait s \<longrightarrow> calls_wait t)"
proof -
  let ?objs = "filter (orphaned env) (cs_objects s)"
  let ?new = "if cs_fdValid s then concat (map destructor_msg ?objs) else []"
  have t: "t = s\<lparr>cs_objects := filter (\<lambda>obj. \<not> orphaned env obj) (cs_objects s), cs_sent := cs_sent s @ ?new\<rparr>"
    using assms(2) unfolding collect_exact[OF assms(1)] by simp
  have "binds ?new = {}"
  proof (rule binds_none)
    fix e
    assume "e \<in> set ?new"
    then obtain obj where "e \<in> set (destructor_msg obj)" by (auto split: if_splits)
    then obtain mid where "e = (enc_client_msg (CmCall (w_id obj) mid []), [])"
      by (auto simp: destructor_msg_def split: if_splits option.splits)
    then show "\<exists>m'. e = client_entry m' \<and> (\<forall>m. m' \<noteq> CmBind m)"
      by (intro exI[of _ "CmCall (w_id obj) mid []"]) simp
  qed
  then have "moves s t" unfolding t moves_def by (intro conjI exI[of _ ?new]) auto
  moreover have "calls_wait t" if "calls_wait s"
    using that by (rule calls_wait_keeps) (auto simp: t orphaned_def)
  ultimately show ?thesis by blast
qed

lemma destroy_moves: "moves s (client_destroyIfNeeded seq oid m s) \<and> (calls_wait s \<longrightarrow> calls_wait (client_destroyIfNeeded seq oid m s))"
proof -
  let ?f = "\<lambda>obj. if w_seq obj = seq then obj\<lparr>w_destroyed := True\<rparr> else obj"
  let ?u = "s\<lparr>cs_objects := map ?f (cs_objects s)\<rparr>"
  have "moves s ?u" by (rule moves_same) auto
  moreover have "calls_wait s \<Longrightarrow> calls_wait ?u" by (rule calls_wait_map) simp_all
  moreover have "moves ?u (socket_destroyObject oid ?u)" by (rule moves_same) (auto simp: socket_destroyObject_def)
  moreover have "calls_wait ?u \<Longrightarrow> oid \<noteq> 0 \<Longrightarrow> calls_wait (socket_destroyObject oid ?u)"
    by (erule calls_wait_keeps) (auto simp: socket_destroyObject_def)
  ultimately show ?thesis using moves_refl by (auto simp: client_destroyIfNeeded_def Let_def intro: moves_trans)
qed

text \<open>The client of a connected system, as it waits.\<close>

definition client_waits ::
  "protocol_impl list \<Rightarrow> string set \<Rightarrow> (byte list \<times> int list) set \<Rightarrow> nat \<Rightarrow> u32 set \<Rightarrow> client_socket \<Rightarrow> bool" where
  "client_waits impls ex R n L c \<longleftrightarrow> client_side impls ex R c \<and> waits_for n L c"

lemma client_waits_moves:
  assumes "client_waits impls ex R n L s" and "client_side impls ex R t" and "moves s t"
  shows "client_waits impls ex R n L t"
proof -
  have "client_ok s" using assms(1) by (simp add: client_waits_def client_side_iff)
  with assms show ?thesis unfolding client_waits_def by (blast intro: waits_moves)
qed

lemma moves_error: "moves s (client_errd s)" "moves s (disconnectOnError s)"
  by (rule moves_same; auto simp: client_errd_def disconnectOnError_def)+

interpretation client_waiting: client_quiet "client_waits impls ex R n L" for impls ex R n L
proof unfold_locales
  fix s t
  assume api: "client_api s t" and s: "client_waits impls ex R n L s"
  then have "client_side impls ex R s" "client_ok s" by (simp_all add: client_waits_def client_side_iff)
  with client_waits_moves[OF s] client_sided.keep_api[OF api] waits_api[OF api] show "client_waits impls ex R n L t" by blast
next
  fix s t env
  assume s: "client_waits impls ex R n L s" and run: "collectOrphanedObjects env s = Inr t"
  then have "client_side impls ex R s" "client_ok s" by (simp_all add: client_waits_def client_side_iff)
  with client_waits_moves[OF s] client_sided.keep_collect[OF _ run] collect_moves[OF _ run]
  show "client_waits impls ex R n L t" by blast
next
  fix s
  assume s: "client_waits impls ex R n L s"
  then have side: "client_side impls ex R s" "client_log s" by (simp_all add: client_waits_def client_side_iff)
  note keep = client_waits_moves[OF s]
  show "client_waits impls ex R n L (flushPendingOutgoing s)"
    using keep client_sided.keep_flush[OF side(1)] flush_moves[OF side(2)] by blast
  show "client_waits impls ex R n L (socket_sendMessage (enc_HandshakeAck HYPRWIRE_PROTOCOL_VER) [] s)"
    using keep[OF client_sided.keep_ack[OF side(1)]] moves_send[of "CmAck HYPRWIRE_PROTOCOL_VER" s] by simp
  show "client_waits impls ex R n L (client_errd s)" "client_waits impls ex R n L (disconnectOnError s)"
    using keep client_sided.keep_errd[OF side(1)] client_sided.keep_disconnect[OF side(1)] moves_error by blast+
  show "client_waits impls ex R n L (client_destroyIfNeeded seq oid m s)" for seq oid m
    using keep client_sided.keep_destroy[OF side(1)] destroy_moves by blast
qed

text \<open>And the calls that wait, on their own.\<close>

interpretation calls_waiting: client_quiet "\<lambda>c. client_side impls ex R c \<and> calls_wait c" for impls ex R
proof unfold_locales
  fix s t
  assume api: "client_api s t" and s: "client_side impls ex R s \<and> calls_wait s"
  then have "client_ok s" by (simp add: client_side_iff)
  with s client_sided.keep_api[OF api] waits_api[OF api] show "client_side impls ex R t \<and> calls_wait t" by blast
next
  fix s t env
  assume s: "client_side impls ex R s \<and> calls_wait s" and run: "collectOrphanedObjects env s = Inr t"
  then have "client_ok s" by (simp add: client_side_iff)
  with s client_sided.keep_collect[OF _ run] collect_moves[OF _ run] show "client_side impls ex R t \<and> calls_wait t" by blast
next
  fix s
  assume s: "client_side impls ex R s \<and> calls_wait s"
  then have "client_log s" by (simp add: client_side_iff)
  with s client_sided.keep_flush flush_moves show "client_side impls ex R (flushPendingOutgoing s) \<and> calls_wait (flushPendingOutgoing s)"
    by blast
  have simps: "calls_wait (socket_sendMessage data fds s) = calls_wait s" "calls_wait (client_errd s) = calls_wait s"
    "calls_wait (disconnectOnError s) = calls_wait s" for data fds
    by (simp_all add: calls_wait_def socket_sendMessage_def client_errd_def disconnectOnError_def)
  with s client_sided.keep_ack client_sided.keep_errd client_sided.keep_disconnect
  show "client_side impls ex R (socket_sendMessage (enc_HandshakeAck HYPRWIRE_PROTOCOL_VER) [] s) \<and>
      calls_wait (socket_sendMessage (enc_HandshakeAck HYPRWIRE_PROTOCOL_VER) [] s)"
    "client_side impls ex R (client_errd s) \<and> calls_wait (client_errd s)"
    "client_side impls ex R (disconnectOnError s) \<and> calls_wait (disconnectOnError s)"
    by blast+
  show "client_side impls ex R (client_destroyIfNeeded seq oid m s) \<and> calls_wait (client_destroyIfNeeded seq oid m s)" for seq oid m
    using s client_sided.keep_destroy destroy_moves by blast
qed


section \<open>Reading ids\<close>

fun announced :: "server_msg list \<Rightarrow> u32 set" where
  "announced [] = {}"
| "announced (SmNewObject n # ms) = insert (no_seq n) (announced ms)"
| "announced (m # ms) = announced ms"

fun ids_given :: "server_msg \<Rightarrow> bool" where
  "ids_given (SmNewObject n) = (no_id n \<noteq> 0)"
| "ids_given m = True"

lemma announced_Cons: "announced (m # ms) = announced [m] \<union> announced ms"
  by (cases m) simp_all

lemma waits_onSeq:
  assumes "client_ok c" and "waits_for n L c" and "oid \<noteq> 0"
  shows "waits_for n (L - {q}) (onSeq q oid c)"
proof -
  have "distinct (map w_seq objs) \<Longrightarrow> obj \<in> set (set_id q oid objs) \<Longrightarrow> w_id obj = 0 \<Longrightarrow> obj \<in> set objs \<and> w_seq obj \<noteq> q" for obj objs
    using assms(3) by (induction objs) (auto split: if_splits simp: image_iff)
  with assms(1,2) show ?thesis unfolding waits_for_def client_ok_def onSeq_def by simp blast
qed

lemma receive_one_waits:
  assumes env: "client_env_ok env" and c: "client_waits impls ex R n L c" and given: "ids_given m"
    and run: "receive_one env m c = Inr (True, t)" and side: "client_side impls ex R t"
  shows "client_waits impls ex R n (L - announced [m]) t"
proof (cases m)
  case (SmHandshakeBegin versions)
  with run client_waiting.keep_ack[OF c] show ?thesis by (simp split: if_splits)
next
  case (SmProtocols names)
  have "cs_sent (add_specs names s) = cs_sent s \<and> cs_seq (add_specs names s) = cs_seq s \<and>
      cs_objects (add_specs names s) = cs_objects s" for s
    by (induction names s rule: add_specs.induct) (auto simp: disconnectOnError_def split: option.split)
  then have "moves c (serverSpecs names c)" by (intro moves_same) (auto simp: serverSpecs_def)
  with SmProtocols run client_waits_moves[OF c side] show ?thesis by simp
next
  case (SmNewObject k)
  have "client_ok c" using c by (simp add: client_waits_def client_side_iff)
  with SmNewObject run given side c waits_onSeq[of c n L "no_id k" "no_seq k"] show ?thesis by (simp add: client_waits_def)
next
  case (SmCall oid mid args)
  with run client_waiting.keep_onGeneric[OF env c] show ?thesis by (auto simp: bnd_eq_Inr)
next
  case (SmFatal k)
  with run client_waiting.keep_errd[OF c] show ?thesis by simp
next
  case (SmDone q)
  with run have "moves c t" by (intro moves_same) auto
  with SmDone client_waits_moves[OF c side] show ?thesis by simp
qed

lemma receive_waits:
  "client_env_ok env \<Longrightarrow> client_waits impls ex R n L c \<Longrightarrow> list_all ok_server_msg ms \<Longrightarrow> vec_ok (enc_replies ms) \<Longrightarrow>
     set (map server_entry ms) \<subseteq> R \<Longrightarrow> list_all (said impls xs) ms \<Longrightarrow> set xs \<subseteq> ex \<Longrightarrow> list_all ids_given ms \<Longrightarrow>
     \<exists>t. receive env ms c = Inr (True, t) \<and> client_waits impls ex R n (L - announced ms) t"
proof (induction ms arbitrary: c L)
  case (Cons m ms)
  have v: "vec_ok (enc_server_msg m)" "vec_ok (enc_replies ms)" using Cons.prems(4) by (simp_all add: vec_ok_def)
  have c: "client_side impls ex R c" using Cons.prems(2) by (simp add: client_waits_def)
  obtain u where u: "receive_one env m c = Inr (True, u)" "client_side impls ex R u"
    using receive_one_side[OF Cons.prems(1) c _ v(1), of xs] Cons.prems(3,5,6,7) by auto
  have "client_waits impls ex R n (L - announced [m]) u"
    using receive_one_waits[OF Cons.prems(1,2) _ u] Cons.prems(8) by simp
  from Cons.IH[OF Cons.prems(1) this _ v(2)] Cons.prems(3,5,6,7,8) u(1) show ?case
    unfolding announced_Cons[of m ms] by (simp add: Diff_eq Int_assoc)
qed simp

lemma client_read_waits:
  assumes env: "client_env_ok env" and c: "client_waits impls ex R n L c"
    and ms: "list_all ok_server_msg ms" "vec_ok (enc_replies ms)" "set (map server_entry ms) \<subseteq> R"
      "list_all (said impls xs) ms" "set xs \<subseteq> ex" and given: "list_all ids_given ms"
    and reads: "\<not> no_message c block inp" "di_read inp = Some (enc_replies ms, replies_fds ms)"
    and run: "dispatchEvents env block inp c = Some (Inr (go, t))"
  shows "client_waits impls ex R n (L - announced ms) t"
proof -
  have side: "client_side impls ex R c" using c by (simp add: client_waits_def)
  from client_read_parts[OF env side ms reads] run obtain u w where
    u: "collectOrphanedObjects env c = Inr u" and w: "receive env ms u = Inr (True, w)" "client_side impls ex R w" and
    t: "collectOrphanedObjects env (flushPendingOutgoing w) = Inr t" by auto
  have "client_waits impls ex R n L u" using client_waiting.keep_collect[OF c u] .
  from receive_waits[OF env this ms given] w(1) have "client_waits impls ex R n (L - announced ms) w" by simp
  then show ?thesis using client_waiting.keep_after_read t by blast
qed

lemma client_read_calls:
  assumes env: "client_env_ok env" and side: "client_side impls ex R c"
    and ms: "list_all ok_server_msg ms" "vec_ok (enc_replies ms)" "set (map server_entry ms) \<subseteq> R"
      "list_all (said impls xs) ms" "set xs \<subseteq> ex"
    and reads: "\<not> no_message c block inp" "di_read inp = Some (enc_replies ms, replies_fds ms)"
    and run: "dispatchEvents env block inp c = Some (Inr (go, t))"
  shows "calls_wait t"
proof -
  from client_read_parts[OF env side ms reads] run obtain w where
    w: "client_side impls ex R w" and t: "collectOrphanedObjects env (flushPendingOutgoing w) = Inr t" by auto
  have "client_side impls ex R (flushPendingOutgoing w) \<and> calls_wait (flushPendingOutgoing w)"
    using client_sided.keep_flush[OF w] flush_moves w by (simp add: client_side_iff)
  then show ?thesis using calls_waiting.keep_collect t by blast
qed

section \<open>Answering binds\<close>

lemma serve_answers_binds:
  "env_ok env impls \<Longrightarrow> serve env impls ms s = Inr (rest, t) \<Longrightarrow> ids_numbered s \<Longrightarrow> \<not> sc_error t \<Longrightarrow>
     CmBind m \<in> set ms \<Longrightarrow> \<exists>oid. new_entry (bind_seq m) oid \<in> set (drop (length (sc_sent s)) (sc_sent t))"
proof (induction ms arbitrary: s)
  case (Cons m' ms)
  have alive: "\<not> sc_error s" using Cons.prems(2,4) by (auto split: if_splits)
  with Cons.prems(2) obtain u where u: "serve_one env impls m' s = Inr u" "serve env impls ms u = Inr (rest, t)"
    by (auto simp: bnd_eq_Inr)
  have st: "prefix (sc_sent u) (sc_sent t)" using sent_log.keep_serve[OF Cons.prems(1) u(2)] by simp
  have ok: "\<not> sc_error u" using sticky.keep_serve[OF Cons.prems(1) u(2)] Cons.prems(4) by blast
  show ?case
  proof (cases "m' = CmBind m")
    case True
    let ?v = "snd (announce_object impls (bind_protocol m) [] (bind_version m) (bind_seq m) s)"
    have v: "prefix (sc_sent ?v) (sc_sent u)" "sc_error ?v \<Longrightarrow> sc_error u"
      using u(1) True sent_log.keep_onBind[OF Cons.prems(1), of "sc_sent ?v"] sticky.keep_onBind[OF Cons.prems(1)]
      by (auto simp: client_createObject_def split: prod.splits option.splits)
    have fd: "sc_fdValid s" using Cons.prems(3) by (simp add: ids_numbered_def)
    have "\<exists>oid. sc_sent ?v = sc_sent s @ [new_entry (bind_seq m) oid]"
    proof (cases rule: announce_cases[of impls "bind_protocol m" "[]" "bind_version m" "bind_seq m" s])
      case (1 obj msg)
      then have "sc_error ?v" by (simp add: object_error_def object_errd_def)
      with v(2) ok show ?thesis by blast
    next
      case (2 obj)
      with fd show ?thesis by (intro exI[of _ "sc_maxId s"]) (simp add: client_sendMessage_def)
    qed
    then obtain oid where "prefix (sc_sent s @ [new_entry (bind_seq m) oid]) (sc_sent t)"
      using v(1) st by (metis prefix_order.trans)
    then show ?thesis by (auto simp: prefix_def)
  next
    case False
    then have m: "CmBind m \<in> set ms" using Cons.prems(5) by simp
    have single: "serve env impls [m'] s = Inr ([], u)" using alive u(1) by simp
    have num: "ids_numbered u" using numbering.keep_serve[OF Cons.prems(1) single Cons.prems(3)] .
    have su: "prefix (sc_sent s) (sc_sent u)" using sent_log.keep_serve[OF Cons.prems(1) single] by simp
    from Cons.IH[OF Cons.prems(1) u(2) num Cons.prems(4) m] obtain oid where
      "new_entry (bind_seq m) oid \<in> set (drop (length (sc_sent u)) (sc_sent t))" by blast
    moreover have "set (drop (length (sc_sent u)) (sc_sent t)) \<subseteq> set (drop (length (sc_sent s)) (sc_sent t))"
      using su by (intro set_drop_subset_set_drop) (simp add: prefix_length_le)
    ultimately show ?thesis by blast
  qed
qed simp


section \<open>Every step keeps it\<close>

text \<open>The sequences of the answers in flight, and what a system owes: while the server is not in error, what the
  client waits for is in flight, one way or the other.\<close>

definition answers_to :: "(byte list \<times> int list) list \<Rightarrow> u32 set" where
  "answers_to es = {q. \<exists>oid. new_entry q oid \<in> set es}"

definition bound_or_coming :: "system \<Rightarrow> bool" where
  "bound_or_coming y \<longleftrightarrow>
     calls_wait (sy_client y) \<and>
     (\<not> sc_error (sy_server y) \<longrightarrow>
        waits_for (sy_up y) (answers_to (drop (sy_down y) (sc_sent (sy_server y)))) (sy_client y))"

lemma waits_for_mono: "waits_for n L c \<Longrightarrow> L \<subseteq> L' \<Longrightarrow> waits_for n L' c"
  by (auto simp: waits_for_def)

lemma answers_append [simp]: "answers_to (xs @ ys) = answers_to xs \<union> answers_to ys"
  by (auto simp: answers_to_def)

lemma answers_messages:
  "answers_to (map server_entry ms) \<subseteq> announced ms"
proof
  fix q
  assume "q \<in> answers_to (map server_entry ms)"
  then obtain oid where "new_entry q oid \<in> server_entry ` set ms" unfolding answers_to_def set_map by blast
  then obtain m where m: "m \<in> set ms" "new_entry q oid = server_entry m" by (rule imageE)
  have "m = SmNewObject \<lparr>no_seq = q, no_id = oid\<rparr>"
  proof (cases m)
    case (SmNewObject k)
    with m(2) enc_NewObject_inj show ?thesis by auto
  qed (use m(2) in \<open>simp_all add: enc_message_defs\<close>)
  with m(1) have "SmNewObject \<lparr>no_seq = q, no_id = oid\<rparr> \<in> set ms" by simp
  then show "q \<in> announced ms"
  proof (induction ms)
    case (Cons m ms)
    then show ?case by (cases m) auto
  qed simp
qed

lemma coming_client:
  assumes coming: "bound_or_coming y" and side: "client_side impls ex R (sy_client y)"
    and quiet: "\<And>P. client_quiet P \<Longrightarrow> P (sy_client y) \<Longrightarrow> P c"
  shows "bound_or_coming (y\<lparr>sy_client := c\<rparr>)"
proof -
  let ?L = "answers_to (drop (sy_down y) (sc_sent (sy_server y)))"
  have "client_waits impls ex R (sy_up y) ?L c" if "waits_for (sy_up y) ?L (sy_client y)"
    using quiet[OF client_waiting.client_quiet_axioms] side that by (simp add: client_waits_def)
  moreover have "client_side impls ex R c \<and> calls_wait c"
    using quiet[OF calls_waiting.client_quiet_axioms] side coming unfolding bound_or_coming_def by blast
  ultimately show ?thesis using coming by (simp add: bound_or_coming_def client_waits_def)
qed

lemma coming_server:
  assumes "bound_or_coming y" and "sy_down y \<le> length (sc_sent (sy_server y))" and "prefix (sc_sent (sy_server y)) (sc_sent s)"
    and "sc_error (sy_server y) \<Longrightarrow> sc_error s"
  shows "bound_or_coming (y\<lparr>sy_server := s\<rparr>)"
proof -
  have "set (drop (sy_down y) (sc_sent (sy_server y))) \<subseteq> set (drop (sy_down y) (sc_sent s))"
    using assms(2,3) by (auto simp: prefix_def)
  then have "answers_to (drop (sy_down y) (sc_sent (sy_server y))) \<subseteq> answers_to (drop (sy_down y) (sc_sent s))"
    by (auto simp: answers_to_def)
  with assms(1,4) waits_for_mono show ?thesis by (auto simp: bound_or_coming_def)
qed


lemma coming_read:
  assumes env: "client_env_ok cenv" "impls_ok impls" "impls_fit impls"
    and inv: "system_inv impls y" and coming: "bound_or_coming y" and few: "length (sc_sent (sy_server y)) < 2 ^ 32 - 1"
    and reads: "\<not> no_message (sy_client y) block inp" "di_read inp = Some (enc_replies ms, replies_fds ms)"
      "drop (sy_down y) (sc_sent (sy_server y)) = map server_entry ms @ later" "list_all ok_server_msg ms" "vec_ok (enc_replies ms)"
      "dispatchEvents cenv block inp (sy_client y) = Some (Inr (go, c))"
  shows "bound_or_coming (y\<lparr>sy_client := c, sy_down := sy_down y + length ms\<rparr>)"
proof -
  let ?c = "sy_client y" and ?s = "sy_server y"
  let ?n = "sy_down y + length ms"
  let ?R = "set (take ?n (sc_sent ?s))" and ?ex = "set (sc_exposedProtocols ?s)"
  have cside: "client_side impls ?ex (set (take (sy_down y) (sc_sent ?s))) ?c"
    and sside: "server_side impls (set (take (sy_up y) (cs_sent ?c))) ?s" and down: "sy_down y \<le> length (sc_sent ?s)"
    using inv by (simp_all add: system_inv_def)
  have "server_talks impls ?s" using sside env(2) by (simp add: server_side_def)
  then have said: "list_all (said impls (sc_exposedProtocols ?s)) ms" using segment_said env(3) reads(3-5) by blast
  have n: "take ?n (sc_sent ?s) = take (sy_down y) (sc_sent ?s) @ map server_entry ms"
    using take_more[OF reads(3) down] by simp
  have side: "client_side impls ?ex ?R ?c" using cside by (rule client_side_mono) (auto simp: n)
  have R: "set (map server_entry ms) \<subseteq> ?R" unfolding n by auto
  note calls = client_read_calls[OF env(1) side reads(4,5) R said subset_refl reads(1,2,6)]
  have "ids_given m" if m: "m \<in> set ms" for m
  proof (cases m)
    case (SmNewObject k)
    obtain q oid where k: "k = \<lparr>no_seq = q, no_id = oid\<rparr>" by (cases k)
    have "server_entry m \<in> set (map server_entry ms)" using m unfolding set_map by (rule imageI)
    then have "server_entry m \<in> set (drop (sy_down y) (sc_sent ?s))" unfolding reads(3) by (simp only: set_append UnI1)
    then have "new_entry q oid \<in> set (sc_sent ?s)" unfolding SmNewObject k by (rule in_set_dropD)
    moreover have "ids_numbered ?s" using sside by (simp add: server_side_def)
    ultimately show ?thesis using announced_once[OF _ few] SmNewObject k by fastforce
  qed simp_all
  then have given: "list_all ids_given ms" by (simp add: list_all_iff)
  let ?L = "answers_to (drop (sy_down y) (sc_sent ?s))"
  have "drop ?n (sc_sent ?s) = drop (length ms) (drop (sy_down y) (sc_sent ?s))" by (simp add: add.commute)
  then have rest: "drop ?n (sc_sent ?s) = later" unfolding reads(3) by simp
  have "waits_for (sy_up y) (answers_to later) c" if "\<not> sc_error ?s"
  proof -
    have "client_waits impls ?ex ?R (sy_up y) ?L ?c" using that coming side by (simp add: bound_or_coming_def client_waits_def)
    from client_read_waits[OF env(1) this reads(4,5) R said subset_refl given reads(1,2,6)]
    have "waits_for (sy_up y) (?L - announced ms) c" by (simp add: client_waits_def)
    moreover have "?L - announced ms \<subseteq> answers_to later" unfolding reads(3) using answers_messages[of ms] by auto
    ultimately show ?thesis by (rule waits_for_mono)
  qed
  with calls rest show ?thesis by (simp add: bound_or_coming_def)
qed

lemma coming_served:
  assumes env: "env_ok senv impls" and inv: "system_inv impls y" and coming: "bound_or_coming y"
    and reads: "\<not> sc_error (sy_server y)" "ms \<noteq> []" "drop (sy_up y) (cs_sent (sy_client y)) = map client_entry ms @ later"
      "list_all ok_client_msg ms" "vec_ok (enc_stream ms)" "serve senv impls ms (sy_server y) = Inr (rest, u)"
      "dispatchClient senv impls (Some (enc_stream ms, stream_fds ms)) (sy_server y) = Some (Inr s)"
  shows "bound_or_coming (y\<lparr>sy_server := s, sy_up := sy_up y + (length ms - length rest)\<rparr>)"
proof (cases "sc_error s")
  case True
  with coming show ?thesis by (simp add: bound_or_coming_def)
next
  case False
  let ?c = "sy_client y" and ?s = "sy_server y"
  have num: "ids_numbered ?s" and down: "sy_down y \<le> length (sc_sent ?s)" and up: "sy_up y \<le> length (cs_sent ?c)"
    using inv by (simp_all add: system_inv_def server_side_def)
  note t = dispatched_stream[OF reads(4,5,2,6,7)]
  have ut: "sc_error u \<longrightarrow> sc_error s" "prefix (sc_sent u) (sc_sent s)"
    unfolding t by (auto simp: object_error_def object_errd_def send_fatal_def client_sendMessage_def)
  have "\<not> sc_error u" using ut(1) False by blast
  then have rest: "rest = []" using serve_stops[OF reads(6)] by blast
  have su: "prefix (sc_sent ?s) (sc_sent u)" using sent_log.keep_serve[OF env reads(6)] by simp
  then have ss: "prefix (sc_sent ?s) (sc_sent s)" using ut(2) by (metis prefix_order.trans)
  let ?L = "answers_to (drop (sy_down y) (sc_sent s))"
  have more: "set (drop (length (sc_sent ?s)) (sc_sent u)) \<subseteq> set (drop (sy_down y) (sc_sent s))"
    using su ut(2) down by (auto simp: prefix_def)
  have answered: "binds (map client_entry ms) \<subseteq> ?L"
  proof
    fix q
    assume "q \<in> binds (map client_entry ms)"
    then obtain k where k: "client_entry (CmBind k) \<in> client_entry ` set ms" "bind_seq k = q" unfolding binds_def set_map by blast
    from k(1) obtain m where m: "m \<in> set ms" "client_entry (CmBind k) = client_entry m" by (rule imageE)
    from bind_entry[OF m(2)] obtain j where "m = CmBind j" "bind_seq j = q" using k(2) by blast
    with serve_answers_binds[OF env reads(6) num \<open>\<not> sc_error u\<close>] m(1) more show "q \<in> ?L"
      unfolding answers_to_def by blast
  qed
  have "drop (sy_up y + length ms) (cs_sent ?c) = drop (length ms) (drop (sy_up y) (cs_sent ?c))" by (simp add: add.commute)
  then have left: "drop (sy_up y + length ms) (cs_sent ?c) = later" unfolding reads(3) by simp
  have "sy_up y + length ms \<le> length (cs_sent ?c)" using arg_cong[OF reads(3), of length] up by simp
  moreover have "answers_to (drop (sy_down y) (sc_sent ?s)) \<subseteq> ?L"
    using ss down by (auto simp: answers_to_def prefix_def)
  moreover have "waits_for (sy_up y) (answers_to (drop (sy_down y) (sc_sent ?s))) ?c"
    using coming reads(1) by (simp add: bound_or_coming_def)
  ultimately have "waits_for (sy_up y + length ms) ?L ?c"
    using answered unfolding waits_for_def left reads(3) binds_append by blast
  with coming rest show ?thesis by (simp add: bound_or_coming_def)
qed

lemma begin_roundtrip_moves: "moves c (begin_roundtrip c) \<and> (calls_wait c \<longrightarrow> calls_wait (begin_roundtrip c))"
proof -
  let ?u = "c\<lparr>cs_lastSentRoundtripSeq := cs_lastSentRoundtripSeq c + 1\<rparr>"
  have "moves c ?u" by (rule moves_same) auto
  moreover have "moves ?u (begin_roundtrip c)"
    using moves_send[of "CmRoundtrip (cs_lastSentRoundtripSeq c + 1)" ?u] by (simp add: begin_roundtrip_def Let_def)
  ultimately have "moves c (begin_roundtrip c)" by (rule moves_trans)
  then show ?thesis by (simp add: begin_roundtrip_def Let_def calls_wait_def socket_sendMessage_def)
qed

lemma coming_step:
  assumes env: "client_env_ok cenv" "env_ok senv impls" "impls_ok impls" "impls_fit impls"
    and step: "system_step cenv senv impls y z" and inv: "system_inv impls y" and coming: "bound_or_coming y"
    and few: "length (sc_sent (sy_server y)) < 2 ^ 32 - 1"
  shows "bound_or_coming z"
proof -
  let ?c = "sy_client y" and ?s = "sy_server y"
  have cside: "client_side impls (set (sc_exposedProtocols ?s)) (set (take (sy_down y) (sc_sent ?s))) ?c"
    and down: "sy_down y \<le> length (sc_sent ?s)"
    using inv by (simp_all add: system_inv_def)
  note client = coming_client[OF coming cside] and server = coming_server[OF coming down]
  from step show ?thesis
  proof cases
    case (client_user c)
    show ?thesis unfolding client_user(1) by (rule client) (rule client_quiet.keep_api[OF _ client_user(2)])
  next
    case client_roundtrip
    have "client_ok ?c" using cside by (simp add: client_side_iff)
    with coming begin_roundtrip_moves waits_moves show ?thesis unfolding client_roundtrip(1) bound_or_coming_def by simp blast
  next
    case (client_idles block inp go c)
    show ?thesis unfolding client_idles(1)
      by (rule client) (erule client_quiet.keep_no_message, assumption, rule client_idles(3), rule client_idles(2))
  next
    case (client_reads block inp ms later go c)
    show ?thesis unfolding client_reads(1) by (rule coming_read[OF env(1,3,4) inv coming few client_reads(2-7)])
  next
    case (server_user s)
    show ?thesis unfolding server_user(1)
      using sent_log.keep_api[OF server_user(2)] sticky.keep_api[OF server_user(2)] by (intro server) simp_all
  next
    case (server_idles raw fds s)
    show ?thesis unfolding server_idles(1)
      using sent_log.keep_dispatchClient[OF env(2) _ server_idles(3)] sticky.keep_dispatchClient[OF env(2) _ server_idles(3)]
      by (intro server) simp_all
  next
    case (server_reads ms later rest u s)
    show ?thesis unfolding server_reads(1) by (rule coming_served[OF env(2) inv coming server_reads(2-8)])
  qed
qed


lemma server_log_grows:
  assumes "env_ok senv impls" and "system_step cenv senv impls y z"
  shows "prefix (sc_sent (sy_server y)) (sc_sent (sy_server z))"
  using assms(2)
proof cases
  case (server_user s)
  then show ?thesis using sent_log.keep_api[OF server_user(2)] by simp
next
  case (server_idles raw fds s)
  then show ?thesis using sent_log.keep_dispatchClient[OF assms(1) _ server_idles(3)] by simp
next
  case (server_reads ms later rest u s)
  then show ?thesis using sent_log.keep_dispatchClient[OF assms(1) _ server_reads(8)] by simp
qed simp_all

lemma coming_start: "bound_or_coming (system_start fd)"
proof -
  have "binds [client_entry CmHello] = {}" by (rule binds_other) simp
  then show ?thesis
    by (simp add: bound_or_coming_def system_start_def open_socket_def socket_sendMessage_def calls_wait_def waits_for_def)
qed

lemma coming_reachable:
  assumes env: "client_env_ok cenv" "env_ok senv impls" "impls_ok impls" "impls_fit impls"
    and "reachable cenv senv impls y" and few: "length (sc_sent (sy_server y)) < 2 ^ 32 - 1"
  shows "bound_or_coming y"
proof -
  obtain fd where run: "(system_step cenv senv impls)\<^sup>*\<^sup>* (system_start fd) y" using assms(5) by blast
  then have "system_inv impls y \<and> (length (sc_sent (sy_server y)) < 2 ^ 32 - 1 \<longrightarrow> bound_or_coming y)"
  proof induction
    case base
    show ?case using system_inv_start coming_start by blast
  next
    case (step y z)
    have "length (sc_sent (sy_server y)) \<le> length (sc_sent (sy_server z))"
      using server_log_grows[OF env(2) step.hyps(2)] by (rule prefix_length_le)
    with step.IH coming_step[OF env step.hyps(2)] system_inv_step[OF env step.hyps(2)] show ?case by auto
  qed
  with few show ?thesis by blast
qed

section \<open>The property\<close>

text \<open>C5. Binds are answered (liveness). Whenever nothing is in flight and the server has not given the
  connection up, every object whose bind the client has sent has its id, and no deferred
  call waits for it: a client in \<^verbatim>\<open>waitForObject\<close> waits only as long as there is something
  left to deliver, and no call on a bound object is left behind - for fewer than two to the
  power of 32 messages of the server, and reads of whole messages.\<close>

theorem binds_answered:
  assumes "client_env_ok cenv" and "env_ok senv impls" and "impls_ok impls" and "impls_fit impls"
    and "reachable cenv senv impls y" and "\<not> sc_error (sy_server y)"
    and "sy_up y = length (cs_sent (sy_client y))" and "sy_down y = length (sc_sent (sy_server y))"
    and "length (sc_sent (sy_server y)) < 2 ^ 32 - 1"
    and "client_entry (CmBind m) \<in> set (cs_sent (sy_client y))"
    and "obj \<in> set (cs_objects (sy_client y))" and "w_seq obj = bind_seq m"
  shows "w_id obj \<noteq> 0 \<and> (\<forall>p \<in> set (cs_pendingOutgoing (sy_client y)). pm_dependsOnSeq p \<noteq> bind_seq m)"
proof -
  let ?c = "sy_client y"
  have coming: "calls_wait ?c" "waits_for (sy_up y) (answers_to (drop (sy_down y) (sc_sent (sy_server y)))) ?c"
    using coming_reachable[OF assms(1-5,9)] assms(6) by (simp_all add: bound_or_coming_def)
  have none: "answers_to (drop (sy_down y) (sc_sent (sy_server y))) \<union> binds (drop (sy_up y) (cs_sent ?c)) = {}"
    using assms(7,8) by (simp add: answers_to_def)
  have "w_seq obj \<in> binds (cs_sent ?c)" 
    unfolding binds_def using assms(10) assms(12)[symmetric] by (intro CollectI exI[of _ m] conjI)
  then have given: "w_id obj \<noteq> 0" using coming(2) assms(11) none unfolding waits_for_def by blast
  have inj: "inj_on w_seq (set (cs_objects ?c))"
    using system_inv_reachable[OF assms(1-5)] by (simp add: system_inv_def client_side_iff client_ok_def distinct_map)
  have "pm_dependsOnSeq p \<noteq> bind_seq m" if p: "p \<in> set (cs_pendingOutgoing ?c)" for p
  proof
    assume dep: "pm_dependsOnSeq p = bind_seq m"
    obtain ob where ob: "ob \<in> set (cs_objects ?c)" "w_seq ob = pm_dependsOnSeq p" "w_id ob = 0"
      using coming(1) p unfolding calls_wait_def by blast
    have "w_seq ob = w_seq obj" using ob(2) dep assms(12) by simp
    from inj_onD[OF inj this ob(1) assms(11)] ob(3) given show False by simp
  qed
  with given show ?thesis by blast
qed

theorem binds_answered_witness:
  "\<exists>(y :: system) obj. cs_objects (sy_client y) = [obj] \<and> w_seq obj = 1 \<and> w_id obj \<noteq> 0 \<and>
     (\<forall>p \<in> set (cs_pendingOutgoing (sy_client y)). pm_dependsOnSeq p \<noteq> 1)"
proof -
  let ?m = "\<lparr>bind_protocol = ''my_protocol'', bind_seq = 1, bind_version = 1\<rparr>"
  obtain y obj where y: "reachable holding_env example_env example_impls y" "\<not> sc_error (sy_server y)"
    "sy_up y = length (cs_sent (sy_client y))" "sy_down y = length (sc_sent (sy_server y))"
    "length (sc_sent (sy_server y)) < 2 ^ 32 - 1" "client_entry (CmBind ?m) \<in> set (cs_sent (sy_client y))"
    "cs_objects (sy_client y) = [obj]" "w_seq obj = 1"
  proof -
    obtain y obj where run: "reachable holding_env example_env example_impls y" "\<not> sc_error (sy_server y)"
      "sy_up y = length (cs_sent (sy_client y))" "sy_down y = length (sc_sent (sy_server y))"
      "cs_objects (sy_client y) = [obj]" "w_seq obj = 1" "length (sc_sent (sy_server y)) = 4"
      "cs_sent (sy_client y) = map client_entry (example_requests @ [CmAck 1])"
      using example_run_on by blast
    have "length (sc_sent (sy_server y)) < 2 ^ 32 - 1" using run(7) by simp
    moreover have "client_entry (CmBind ?m) \<in> set (cs_sent (sy_client y))" unfolding run(8) by (simp add: example_requests_def)
    ultimately show thesis by (rule that[OF run(1-4) _ _ run(5,6)])
  qed
  from binds_answered[OF example_system y(1-6), of obj] y(7,8) show ?thesis by (intro exI[of _ y] exI[of _ obj]) simp
qed

end
