(* ===== verification/Call_Order.thy ===== *)
theory Call_Order
  imports Two_Ends
begin

text \<open>
  When a deferred call goes out. The flush comes after a whole read has been handled: what
  a listener calls during that read goes first, and a roundtrip begun after the call ends
  before the server has it.
\<close>

section \<open>Calls without a result\<close>

definition plain_call :: "wire_object \<Rightarrow> u32 \<Rightarrow> wire_arg list \<Rightarrow> bool" where
  "plain_call obj mid args \<longleftrightarrow>
     (case w_spec obj of
        None \<Rightarrow> False
      | Some sp \<Rightarrow>
          call_error False obj (client_methodsOut sp) mid = None \<and>
          m_params (client_methodsOut sp ! unat mid) = args_params args \<and>
          m_returnsType (client_methodsOut sp ! unat mid) = [] \<and>
          \<not> m_isDestructor (client_methodsOut sp ! unat mid)) \<and>
     list_all call_ok args"

lemma plain_call_id: "plain_call obj mid args \<Longrightarrow> plain_call (obj\<lparr>w_id := oid\<rparr>) mid args"
  by (auto simp: plain_call_def call_error_def Let_def split: option.splits if_splits)

definition deferred :: "u32 \<Rightarrow> u32 \<Rightarrow> wire_arg list \<Rightarrow> pending_msg" where
  "deferred seq mid args = \<lparr>pm_dependsOnSeq = seq, pm_data = enc_Generic 0 mid args, pm_fds = wire_args_fds args\<rparr>"

lemma plain_call_seq:
  assumes "client_ok c" and "objectForSeq seq c = Some obj" and "plain_call obj mid args"
  shows "call_seq seq mid (map arg_va args) c =
    Inr (0, if w_id obj = 0 then c\<lparr>cs_pendingOutgoing := cs_pendingOutgoing c @ [deferred seq mid args]\<rparr>
      else socket_sendMessage (enc_Generic (w_id obj) mid args) (wire_args_fds args) c)"
proof -
  from assms(3) obtain sp where sp: "w_spec obj = Some sp" and calls: "call_error False obj (client_methodsOut sp) mid = None"
    "m_params (client_methodsOut sp ! unat mid) = args_params args"
    "m_returnsType (client_methodsOut sp ! unat mid) = []" "\<not> m_isDestructor (client_methodsOut sp ! unat mid)" "list_all call_ok args"
    by (auto simp: plain_call_def split: option.splits)
  have obj: "obj \<in> set (cs_objects c)" "w_seq obj = seq" using assms(2) by (auto simp: objectForSeq_def find_Some_iff)
  have msg: "call_message obj (client_methodsOut sp ! unat mid) mid 0 (map arg_va args) =
      Inr (Marshalled (enc_Generic (w_id obj) mid args) (wire_args_fds args))"
    using call_message_args[OF calls(2,5), of obj mid 0] calls(3) by (simp add: sent_args_def)
  have one: "client_call mid (map arg_va args) obj c = Inr (0, obj,
      if w_id obj = 0 then c\<lparr>cs_pendingOutgoing := cs_pendingOutgoing c @ [deferred seq mid args]\<rparr>
      else socket_sendMessage (enc_Generic (w_id obj) mid args) (wire_args_fds args) c)"
    using sp calls(1,3,4) msg obj(2) by (simp add: client_call_def Let_def deferred_def)
  have "inj_on w_seq (set (cs_objects c))" using assms(1) by (simp add: client_ok_def distinct_map)
  then have "ob = obj" if "ob \<in> set (cs_objects c)" "w_seq ob = seq" for ob
    using that obj by (auto dest: inj_onD)
  then have "map (\<lambda>ob. if w_seq ob = seq then ob\<lparr>w_destroyed := w_destroyed obj\<rparr> else ob) (cs_objects c) = cs_objects c"
    by (intro map_idI) auto
  with one assms(2) show ?thesis by (auto simp: call_seq_def socket_sendMessage_def)
qed

section \<open>A read\<close>

lemma all_held: "(\<And>ob. cenv_held env ob) \<Longrightarrow> collectOrphanedObjects env c = Inr c"
  by (simp add: collectOrphanedObjects_def orphaned_def)

lemma dispatch_reads:
  assumes held: "\<And>ob. cenv_held env ob" and reads: "\<not> no_message c block inp" "di_read inp = Some (enc_replies ms, replies_fds ms)"
    and ms: "list_all ok_server_msg ms" "vec_ok (enc_replies ms)" "receive env ms c = Inr (True, w)"
  shows "dispatchEvents env block inp c = Some (Inr (\<not> cs_error (flushPendingOutgoing w), flushPendingOutgoing w))"
  using read_receives[OF ms] reads all_held[OF held]
  by (auto simp: dispatchEvents_def dispatch_read_def no_message_def)

lemma named_object:
  assumes "client_ok c" and "objectForSeq seq c = Some obj"
  shows "client_ok (onSeq seq oid c) \<and> objectForSeq seq (onSeq seq oid c) = Some (obj\<lparr>w_id := oid\<rparr>) \<and>
    cs_pendingOutgoing (onSeq seq oid c) = cs_pendingOutgoing c \<and> cs_sent (onSeq seq oid c) = cs_sent c \<and>
    cs_fdValid (onSeq seq oid c) = cs_fdValid c \<and> cs_error (onSeq seq oid c) = cs_error c"
  using client_ok_onSeq[OF assms(1)] onSeq_found[OF assms(2)] by (simp add: onSeq_def)

lemma flush_deferred:
  assumes "objectForSeq seq w = Some obj" and "w_id obj \<noteq> 0" and "cs_pendingOutgoing w = [deferred seq mid args]" and "cs_fdValid w"
  shows "cs_sent (flushPendingOutgoing w) = cs_sent w @ [client_entry (CmCall (w_id obj) mid args)] \<and>
    cs_error (flushPendingOutgoing w) = cs_error w"
  using flush_one[of "deferred seq mid args" w obj] assms by (simp add: deferred_def resolveSeq_enc)

section \<open>The order of calls\<close>

text \<open>C28. A later call overtakes a deferred one (functional). A call on an object that has no id is deferred; when
  one read brings the id and then a message whose listener calls the same object, that
  second call is sent at once and the first only after the read: the server receives the two
  in the opposite order.\<close>

theorem later_call_overtakes:
  assumes "client_ok c" and "\<not> cs_error c" and "cs_fdValid c" and "cs_pendingOutgoing c = []"
    and "objectForSeq seq c = Some obj" and "w_id obj = 0" and "oid \<noteq> 0"
    and "plain_call obj mid args" and "plain_call obj mid' args'"
    and "call_seq seq mid (map arg_va args) c = Inr (ret, c1)"
    and "\<And>ob. cenv_held env ob"
    and "\<forall>ret t. call_seq seq mid' (map arg_va args') (onSeq seq oid c1) = Inr (ret, t) \<longrightarrow>
           receive_one env event (onSeq seq oid c1) = Inr (True, t)"
    and "ms = [SmNewObject \<lparr>no_seq = seq, no_id = oid\<rparr>, event]" and "list_all ok_server_msg ms" and "vec_ok (enc_replies ms)"
    and "\<not> no_message c1 block inp" and "di_read inp = Some (enc_replies ms, replies_fds ms)"
  shows "\<exists>t. dispatchEvents env block inp c1 = Some (Inr (True, t)) \<and>
    cs_sent t = cs_sent c @ [client_entry (CmCall oid mid' args'), client_entry (CmCall oid mid args)]"
proof -
  have c1: "c1 = c\<lparr>cs_pendingOutgoing := [deferred seq mid args]\<rparr>"
    using plain_call_seq[OF assms(1,5,8)] assms(4,6,10) by simp
  have ok1: "client_ok c1" "objectForSeq seq c1 = Some obj" using assms(1,5) unfolding c1 by (simp_all add: objectForSeq_def)
  let ?c2 = "onSeq seq oid c1"
  note c2 = named_object[OF ok1, of oid]
  let ?t = "socket_sendMessage (enc_Generic oid mid' args') (wire_args_fds args') ?c2"
  have "call_seq seq mid' (map arg_va args') ?c2 = Inr (0, ?t)"
    using plain_call_seq[of ?c2 seq "obj\<lparr>w_id := oid\<rparr>" mid' args'] c2 plain_call_id[OF assms(9)] assms(7) by simp
  with assms(12) have "receive_one env event ?c2 = Inr (True, ?t)" by blast
  then have "receive env ms c1 = Inr (True, ?t)" unfolding assms(13) by simp
  note reads = dispatch_reads[OF assms(11,16,17,14,15) this]
  have "objectForSeq seq ?t = Some (obj\<lparr>w_id := oid\<rparr>)" "cs_pendingOutgoing ?t = [deferred seq mid args]" "cs_fdValid ?t"
    "cs_sent ?t = cs_sent c @ [client_entry (CmCall oid mid' args')]" "\<not> cs_error ?t"
    using c2 assms(2,3) unfolding c1 by (simp_all add: socket_sendMessage_def objectForSeq_def)
  with flush_deferred[of seq ?t "obj\<lparr>w_id := oid\<rparr>" mid args] reads assms(7) show ?thesis by simp
qed

text \<open>C29. A roundtrip does not wait for deferred calls (functional). A client that calls an object without an
  id and then makes a roundtrip returns from it, its request acknowledged, on a read that
  brings the id and the acknowledgement; the call is sent after that, behind the request, so
  that the server has not handled it.\<close>

theorem roundtrip_misses_deferred:
  assumes "client_ok c" and "\<not> cs_error c" and "cs_handshakeDone c" and "cs_fdValid c" and "cs_pendingOutgoing c = []"
    and "objectForSeq seq c = Some obj" and "w_id obj = 0" and "oid \<noteq> 0" and "plain_call obj mid args"
    and "call_seq seq mid (map arg_va args) c = Inr (ret, c1)"
    and "\<And>ob. cenv_held env ob"
    and "q = cs_lastSentRoundtripSeq c + 1" and "cs_lastAckdRoundtripSeq c < q"
    and "ms = [SmNewObject \<lparr>no_seq = seq, no_id = oid\<rparr>, SmDone q]"
    and "di_pollin inp" and "di_read inp = Some (enc_replies ms, replies_fds ms)"
  shows "\<exists>t. roundtrip env (inp # inps) c1 = Some (Inr (inps, t)) \<and>
    cs_lastAckdRoundtripSeq t = q \<and> cs_lastSentRoundtripSeq t = q \<and>
    cs_sent t = cs_sent c @ [client_entry (CmRoundtrip q), client_entry (CmCall oid mid args)]"
proof -
  have c1: "c1 = c\<lparr>cs_pendingOutgoing := [deferred seq mid args]\<rparr>"
    using plain_call_seq[OF assms(1,6,9)] assms(5,7,10) by simp
  let ?c2 = "begin_roundtrip c1"
  have ok2: "client_ok ?c2" "objectForSeq seq ?c2 = Some obj"
    using assms(1,6) unfolding c1 by (simp_all add: objectForSeq_def begin_roundtrip_def Let_def socket_sendMessage_def client_ok_def)
  have c2: "cs_sent ?c2 = cs_sent c @ [client_entry (CmRoundtrip q)]" "cs_pendingOutgoing ?c2 = [deferred seq mid args]"
    "cs_fdValid ?c2" "\<not> cs_error ?c2" "cs_handshakeDone ?c2" "cs_lastAckdRoundtripSeq ?c2 < q" "cs_lastSentRoundtripSeq ?c2 = q"
    using assms(2-5,12,13) unfolding c1 by (simp_all add: begin_roundtrip_def Let_def socket_sendMessage_def)
  let ?w = "(onSeq seq oid ?c2)\<lparr>cs_lastAckdRoundtripSeq := q\<rparr>"
  have run: "receive env ms ?c2 = Inr (True, ?w)" unfolding assms(14) by simp
  have ms: "list_all ok_server_msg ms" "vec_ok (enc_replies ms)"
    unfolding assms(14) by (simp_all add: vec_ok_def enc_NewObject_def enc_RoundtripDone_def)
  have some: "\<not> no_message ?c2 True inp"
    using c2(4,5) assms(15,16) unfolding assms(14) by (simp add: no_message_def enc_NewObject_def)
  let ?t = "flushPendingOutgoing ?w"
  have w: "objectForSeq seq ?w = Some (obj\<lparr>w_id := oid\<rparr>)" "cs_pendingOutgoing ?w = [deferred seq mid args]" "cs_fdValid ?w"
    "cs_sent ?w = cs_sent c @ [client_entry (CmRoundtrip q)]" "\<not> cs_error ?w"
    using named_object[OF ok2, of oid] c2 by (simp_all add: objectForSeq_def)
  have t: "cs_sent ?t = cs_sent ?w @ [client_entry (CmCall oid mid args)]" "\<not> cs_error ?t"
    using flush_deferred[OF w(1) _ w(2,3)] assms(8) w(5) by simp_all
  have seqs: "cs_lastAckdRoundtripSeq ?t = q" "cs_lastSentRoundtripSeq ?t = q"
    using flush_one[OF _ _ w(2,3), of "obj\<lparr>w_id := oid\<rparr>"] w(1) assms(8) c2(7) by (simp_all add: deferred_def onSeq_def)
  have "dispatchEvents env True inp ?c2 = Some (Inr (True, ?t))"
    using dispatch_reads[OF assms(11) some assms(16) ms run] t(2) by simp
  then have "await_roundtrip env q (inp # inps) ?c2 = Some (Inr (inps, ?t))"
    using c2(6) seqs(1) by (simp add: await_roundtrip.simps[of env q "inp # inps"] await_roundtrip.simps[of env q inps])
  moreover have "cs_lastSentRoundtripSeq c1 + 1 = q" "\<not> cs_error c1" using assms(2,12) unfolding c1 by simp_all
  ultimately have "roundtrip env (inp # inps) c1 = Some (Inr (inps, ?t))" unfolding roundtrip_begins by simp
  with seqs t(1) w(4) show ?thesis by (intro exI[of _ ?t]) simp
qed


section \<open>Instances\<close>

text \<open>A counter that is told numbers and tells its client to answer; the listener answers with 2.\<close>

definition example_counter :: object_spec where
  "example_counter = \<lparr>objectName = ''my_counter'',
     c2s = [\<lparr>m_idx = 0, m_params = [magic_code TYPE_UINT], m_returnsType = [], m_since = 0, m_isDestructor = False\<rparr>],
     s2c = [\<lparr>m_idx = 0, m_params = [], m_returnsType = [], m_since = 0, m_isDestructor = False\<rparr>]\<rparr>"

definition example_counting :: wire_object where
  "example_counting = \<lparr>w_listeners = [Some 5], w_id = 0, w_version = 1, w_seq = 1, w_destroyed = False,
     w_protocolName = ''my_protocol'', w_spec = Some example_counter\<rparr>"

definition example_counting_client :: client_socket where
  "example_counting_client = (open_socket True)\<lparr>cs_objects := [example_counting], cs_seq := 1, cs_handshakeDone := True\<rparr>"

definition example_answering_env :: client_env where
  "example_answering_env = \<lparr>cenv_prep = (\<lambda>_. True), cenv_held = (\<lambda>_. True), cenv_invoke = (\<lambda>fn seq vals s.
     if fn = 5 then (case call_seq 1 0 (map arg_va [WPrim TYPE_UINT 2]) s of Inl _ \<Rightarrow> s | Inr (_, t) \<Rightarrow> t) else s)\<rparr>"

lemma example_counting_facts:
  "client_ok example_counting_client" "\<not> cs_error example_counting_client" "cs_handshakeDone example_counting_client"
  "cs_fdValid example_counting_client" "cs_pendingOutgoing example_counting_client = []"
  "objectForSeq 1 example_counting_client = Some example_counting" "w_id example_counting = 0"
  "plain_call example_counting 0 [WPrim TYPE_UINT v]"
  "cs_lastSentRoundtripSeq example_counting_client = 0" "cs_lastAckdRoundtripSeq example_counting_client = 0"
  "cs_sent example_counting_client = [client_entry CmHello]"
  by (simp_all add: example_counting_client_def open_socket_def socket_sendMessage_def objectForSeq_def example_counting_def
      plain_call_def example_counter_def client_methodsOut_def call_error_def client_ok_def client_object_ok_def
      generated_def spec_ok_def)

definition example_event :: dispatch_input where
  "example_event = \<lparr>di_deadlinePassed = False, di_pollEvent = True, di_pollin = True, di_pollhup = False,
     di_read = Some (enc_replies [SmNewObject \<lparr>no_seq = 1, no_id = 9\<rparr>, SmCall 9 0 []], [])\<rparr>"

theorem later_call_overtakes_witness:
  "\<exists>c1 t. call_seq 1 0 (map arg_va [WPrim TYPE_UINT 1]) example_counting_client = Inr (0, c1) \<and>
     dispatchEvents example_answering_env False example_event c1 = Some (Inr (True, t)) \<and>
     cs_sent t = map client_entry [CmHello, CmCall 9 0 [WPrim TYPE_UINT 2], CmCall 9 0 [WPrim TYPE_UINT 1]]"
proof -
  let ?c1 = "example_counting_client\<lparr>cs_pendingOutgoing := [deferred 1 0 [WPrim TYPE_UINT 1]]\<rparr>"
  let ?ms = "[SmNewObject \<lparr>no_seq = 1, no_id = 9\<rparr>, SmCall 9 0 []]"
  have call: "call_seq 1 0 (map arg_va [WPrim TYPE_UINT 1]) example_counting_client = Inr (0, ?c1)"
    using plain_call_seq[OF example_counting_facts(1,6,8), of 1] example_counting_facts(5,7) by simp
  have "objectForId 9 (onSeq 1 9 ?c1) = Some (example_counting\<lparr>w_id := 9\<rparr>)"
    by (simp add: objectForId_def onSeq_def example_counting_client_def example_counting_def)
  moreover have "called (\<lambda>_. True) (example_counting\<lparr>w_id := 9\<rparr>) (s2c example_counter) 0 [0] [] =
      Inr (CalledInvoke 5 [AvSelf] (s2c example_counter ! 0))"
    by (simp add: called_def example_counting_def example_counter_def wire_params_def decode_args.simps)
  ultimately have listener: "\<forall>ret t. call_seq 1 0 (map arg_va [WPrim TYPE_UINT 2]) (onSeq 1 9 ?c1) = Inr (ret, t) \<longrightarrow>
      receive_one example_answering_env (SmCall 9 0 []) (onSeq 1 9 ?c1) = Inr (True, t)"
  proof -
    assume found: "objectForId 9 (onSeq 1 9 ?c1) = Some (example_counting\<lparr>w_id := 9\<rparr>)"
      and invoke: "called (\<lambda>_. True) (example_counting\<lparr>w_id := 9\<rparr>) (s2c example_counter) 0 [0] [] =
        Inr (CalledInvoke 5 [AvSelf] (s2c example_counter ! 0))"
    have "w_spec (example_counting\<lparr>w_id := 9\<rparr>) = Some example_counter" "w_seq (example_counting\<lparr>w_id := 9\<rparr>) = 1"
      "\<not> m_isDestructor (s2c example_counter ! 0)"
      by (simp_all add: example_counting_def example_counter_def)
    with found invoke show ?thesis
      by (simp add: socket_onGeneric_def socket_object_called_def example_answering_env_def client_methodsIn_def
          client_destroyIfNeeded_def)
  qed
  have held: "cenv_held example_answering_env ob" for ob by (simp add: example_answering_env_def)
  have "list_all ok_server_msg ?ms" "vec_ok (enc_replies ?ms)" "\<not> no_message ?c1 False example_event"
    "di_read example_event = Some (enc_replies ?ms, replies_fds ?ms)"
    using example_counting_facts(2) by (simp_all add: vec_ok_def enc_NewObject_def enc_Generic_def no_message_def example_event_def)
  from later_call_overtakes[OF example_counting_facts(1,2,4-7) _ example_counting_facts(8,8) call held listener refl this]
  obtain t where t: "dispatchEvents example_answering_env False example_event ?c1 = Some (Inr (True, t))"
    "cs_sent t = cs_sent example_counting_client @ [client_entry (CmCall 9 0 [WPrim TYPE_UINT 2]), client_entry (CmCall 9 0 [WPrim TYPE_UINT 1])]"
    by auto
  show ?thesis using call t example_counting_facts(11) by (intro exI[of _ ?c1] exI[of _ t]) simp
qed

theorem roundtrip_misses_deferred_witness:
  "\<exists>c1 t. call_seq 1 0 (map arg_va [WPrim TYPE_UINT 1]) example_counting_client = Inr (0, c1) \<and>
     roundtrip example_answering_env [\<lparr>di_deadlinePassed = False, di_pollEvent = True, di_pollin = True, di_pollhup = False,
       di_read = Some (enc_replies [SmNewObject \<lparr>no_seq = 1, no_id = 9\<rparr>, SmDone 1], [])\<rparr>] c1 = Some (Inr ([], t)) \<and>
     cs_sent t = map client_entry [CmHello, CmRoundtrip 1, CmCall 9 0 [WPrim TYPE_UINT 1]]"
proof -
  let ?c1 = "example_counting_client\<lparr>cs_pendingOutgoing := [deferred 1 0 [WPrim TYPE_UINT 1]]\<rparr>"
  let ?ms = "[SmNewObject \<lparr>no_seq = 1, no_id = 9\<rparr>, SmDone 1]"
  let ?inp = "\<lparr>di_deadlinePassed = False, di_pollEvent = True, di_pollin = True, di_pollhup = False,
       di_read = Some (enc_replies ?ms, [])\<rparr>"
  have call: "call_seq 1 0 (map arg_va [WPrim TYPE_UINT 1]) example_counting_client = Inr (0, ?c1)"
    using plain_call_seq[OF example_counting_facts(1,6,8), of 1] example_counting_facts(5,7) by simp
  have held: "cenv_held example_answering_env ob" for ob by (simp add: example_answering_env_def)
  have "(1 :: u32) = cs_lastSentRoundtripSeq example_counting_client + 1" "cs_lastAckdRoundtripSeq example_counting_client < 1"
    "di_pollin ?inp" "di_read ?inp = Some (enc_replies ?ms, replies_fds ?ms)"
    using example_counting_facts(9,10) by simp_all
  from roundtrip_misses_deferred[OF example_counting_facts(1-7) _ example_counting_facts(8) call held this(1,2) refl this(3,4), of "[]"]
  obtain t where t: "roundtrip example_answering_env [?inp] ?c1 = Some (Inr ([], t))"
    "cs_sent t = cs_sent example_counting_client @ [client_entry (CmRoundtrip 1), client_entry (CmCall 9 0 [WPrim TYPE_UINT 1])]"
    by auto
  show ?thesis using call t example_counting_facts(11) by (intro exI[of _ ?c1] exI[of _ t]) simp
qed

end
