(* ===== verification/Lost_Server.thy ===== *)
theory Lost_Server
  imports Two_Ends
begin

text \<open>
  A client whose server has gone while it waits for the id of an object it binds.
\<close>

text \<open>
  The answers once the peer has closed: the descriptor is readable, hung up, and every read
  brings nothing.
\<close>

definition closed_input :: dispatch_input where
  "closed_input = \<lparr>di_deadlinePassed = False, di_pollEvent = True, di_pollin = True, di_pollhup = True, di_read = Some ([], [])\<rparr>"

definition still_waiting :: "u32 \<Rightarrow> client_socket \<Rightarrow> bool" where
  "still_waiting seq c \<longleftrightarrow>
     client_ok c \<and> \<not> cs_error c \<and> cs_handshakeDone c \<and> (\<exists>obj \<in> set (cs_objects c). w_seq obj = seq \<and> w_id obj = 0)"

lemma waiting_no_id:
  assumes "still_waiting seq c"
  shows "\<not> has_id_for seq c"
proof -
  obtain obj where obj: "obj \<in> set (cs_objects c)" "w_seq obj = seq" "w_id obj = 0" using assms unfolding still_waiting_def by blast
  have "inj_on w_seq (set (cs_objects c))" using assms by (simp add: still_waiting_def client_ok_def distinct_map)
  then have "find (\<lambda>ob. w_seq ob = seq) (cs_objects c) = Some ob \<Longrightarrow> ob = obj" for ob
    using obj by (auto simp: find_Some_iff dest: inj_onD)
  moreover have "find (\<lambda>ob. w_seq ob = seq) (cs_objects c) \<noteq> None" using obj by (auto simp: find_None_iff)
  ultimately show ?thesis using obj(3) by (auto simp: has_id_for_def objectForSeq_def)
qed

lemma closed_dispatch:
  assumes "still_waiting seq c"
  shows "\<exists>u. dispatchEvents env True closed_input c = Some (Inr (False, u)) \<and> still_waiting seq u"
proof -
  have ok: "client_ok c" using assms by (simp add: still_waiting_def)
  obtain u where u: "collectOrphanedObjects env c = Inr u" "cs_error u = cs_error c" "cs_handshakeDone u = cs_handshakeDone c"
    "cs_objects u = filter (\<lambda>obj. \<not> orphaned env obj) (cs_objects c)"
    using collect_exact[OF ok, of env] by simp
  have "client_ok u" using collect_ok[OF ok u(1)] .
  with assms u(2-4) have "still_waiting seq u" by (auto simp: still_waiting_def orphaned_def)
  moreover have "dispatchEvents env True closed_input c = Some (Inr (False, u))"
    using assms u(1,3) by (simp add: dispatchEvents_def dispatch_read_def closed_input_def still_waiting_def)
  ultimately show ?thesis by blast
qed

lemma closed_spins: "still_waiting seq c \<Longrightarrow> waitForObject env seq (replicate n closed_input) c = None"
proof (induction n arbitrary: c)
  case 0
  then show ?case using waiting_no_id[OF 0] by (simp add: waitForObject.simps still_waiting_def)
next
  case (Suc n)
  obtain u where "dispatchEvents env True closed_input c = Some (Inr (False, u))" "still_waiting seq u"
    using closed_dispatch[OF Suc.prems] by blast
  with Suc.IH waiting_no_id[OF Suc.prems] Suc.prems show ?case
    by (simp add: waitForObject.simps[of env seq "closed_input # replicate n closed_input"] still_waiting_def)
qed

text \<open>C27. A bind hangs when the server has gone (liveness). A client that has bound a protocol waits for the
  id of the object and ignores what the dispatches return: once the server has closed the
  connection without a fatal error, each dispatch finds the descriptor readable, reads
  nothing and returns false at once, and after any number of them \<^verbatim>\<open>bindProtocol\<close> still has not
  returned.\<close>

theorem bind_hangs_on_close:
  assumes "client_ok c" and "\<not> cs_error c" and "cs_handshakeDone c" and "cs_seq c \<noteq> - 1"
    and "\<not> version > specVer spec" and "spec_objects spec \<noteq> []" and "list_all generated (spec_objects spec)"
  shows "bindProtocol env spec version (replicate n closed_input) c = None \<and>
    (\<exists>seq c1. bind_request spec version c = Inr (Some seq, c1) \<and>
       (\<exists>u. dispatchEvents env True closed_input c1 = Some (Inr (False, u)) \<and> \<not> has_id_for seq u \<and> \<not> cs_error u))"
proof -
  obtain sp sps where sp: "spec_objects spec = sp # sps" using assms(6) by (cases "spec_objects spec") auto
  let ?seq = "cs_seq c + 1"
  obtain c1 where bind: "bind_request spec version c = Inr (Some ?seq, c1)"
    and c1: "\<not> cs_error c1" "cs_handshakeDone c1" "\<exists>obj \<in> set (cs_objects c1). w_seq obj = ?seq \<and> w_id obj = 0"
    using assms(2,3,5) sp by (simp add: bind_request_def Let_def socket_sendMessage_def)
  have "client_ok c1" using bind_ok[OF bind assms(1,4,7)] .
  with c1 have waiting: "still_waiting ?seq c1" by (simp add: still_waiting_def)
  obtain u where u: "dispatchEvents env True closed_input c1 = Some (Inr (False, u))" "still_waiting ?seq u"
    using closed_dispatch[OF waiting] by blast
  have "bindProtocol env spec version (replicate n closed_input) c = None"
    using bind closed_spins[OF waiting, of env n] by (simp add: bindProtocol_def)
  with bind u waiting_no_id[OF u(2)] show ?thesis by (auto simp: still_waiting_def)
qed

theorem bind_hangs_on_close_witness:
  "bindProtocol example_client_env example_spec 1 (replicate 1000 closed_input) ((open_socket True)\<lparr>cs_handshakeDone := True\<rparr>) = None"
proof -
  let ?c = "(open_socket True)\<lparr>cs_handshakeDone := True\<rparr>"
  have "client_ok ?c" "\<not> cs_error ?c" "cs_handshakeDone ?c" "cs_seq ?c \<noteq> - 1"
    by (simp_all add: open_socket_def socket_sendMessage_def client_ok_def)
  moreover have "\<not> 1 > specVer example_spec" "spec_objects example_spec \<noteq> []" by (simp_all add: example_spec_def)
  ultimately show ?thesis using bind_hangs_on_close[OF _ _ _ _ _ _ example_generated, of ?c 1 example_client_env 1000] by blast
qed

end
