(* ===== verification/Spec2Isabelle.thy ===== *)
theory Spec2Isabelle
  imports Client_Safety Server_Connections Wire_Format Scanner_Safety Socket_IO Poll_Thread Message_Trace Host Truncation Binding Call_Order Lost_Server
begin

text \<open>
  Verification of hyprwire, a wire protocol for local inter-process communication: a client
  library and a server library (\<^verbatim>\<open>src/src/core\<close>, public headers in \<^verbatim>\<open>src/include/hyprwire\<close>)
  over a Unix stream socket, and \<^verbatim>\<open>hyprwire-scanner\<close> (\<^verbatim>\<open>src/scanner/main.cpp\<close>), which turns a
  protocol written in XML into the code both ends compile.

  \<^bold>\<open>The program.\<close> A client connects, greets, agrees on a version, learns the protocols the
  server exposes and binds one. From then on both ends hold objects: a method called on an
  object is marshalled into a generic message (\<^verbatim>\<open>IWireObject::call\<close>), sent, found again in the
  byte stream of the receiver (\<^verbatim>\<open>CGenericProtocolMessage\<close>), checked against the specification
  of the method, demarshalled and handed through libffi to the function registered for it
  (\<^verbatim>\<open>IWireObject::called\<close>). A method may return a new object: the client draws a sequence for
  it and learns its id from \<^verbatim>\<open>NEW_OBJECT\<close>; calls made before that wait.

  \<^bold>\<open>The theories.\<close>

  \<^item> \<open>Prelude\<close>: machine types, \<^verbatim>\<open>size_t\<close> arithmetic with its wrap-around, the ways code stops
    (\<open>stop\<close>: a thrown \<^verbatim>\<open>out_of_range\<close> or \<^verbatim>\<open>length_error\<close>, a bare return, undefined behaviour),
    reads from buffers.
  \<^item> \<open>Wire_Types\<close>: the two tag enumerations. \<open>Var_Int\<close>: \<^verbatim>\<open>encodeVarInt\<close> and \<^verbatim>\<open>parseVarInt\<close>
    (\<^verbatim>\<open>MessageParser.cpp\<close>). \<open>Codec\<close>: the contract of a message's two constructors, as the locales
    \<open>wire_codec\<close> and \<open>bounded_codec\<close>. \<open>Control_Messages\<close>: the nine control messages, each an
    interpretation. \<open>Generic_Message\<close>: \<^verbatim>\<open>CGenericProtocolMessage\<close>; \<open>Argument_Layout\<close>: where
    arguments stand in the bytes, for every message that is accepted.
  \<^item> \<open>Protocol_Spec\<close>: specifications and implementations (\<^verbatim>\<open>Types.hpp\<close> and its neighbours).
    \<open>Wire_Object\<close>: \<^verbatim>\<open>IWireObject\<close>. \<open>Remote_Call\<close>: a call from end to end.
  \<^item> \<open>Server_Client\<close>, \<open>Server_Dispatch\<close>: \<^verbatim>\<open>CServerClient\<close>, \<^verbatim>\<open>CServerObject\<close>, the server half of
    \<^verbatim>\<open>parseSingleMessage\<close>, \<^verbatim>\<open>handleMessage\<close>, \<^verbatim>\<open>dispatchClient\<close>. \<open>Server_Invariants\<close>: the locales
    \<open>quiet_invariant\<close> and \<open>connection_invariant\<close>, what a property has to satisfy to survive
    every operation of a connection. \<open>Server_Safety\<close>: the theorems on one connection.
    \<open>Truncation\<close>: the read that ends inside a message.
  \<^item> \<open>Client_Socket\<close>, \<open>Client_Dispatch\<close>: \<^verbatim>\<open>CClientSocket\<close>, \<^verbatim>\<open>CClientObject\<close>, the client half of the
    parser, \<^verbatim>\<open>dispatchEvents\<close> and the blocking operations. \<open>Client_Invariants\<close> (the locale
    \<open>client_invariant\<close>) and \<open>Client_Safety\<close>: as for the server.
  \<^item> \<open>Conversation\<close>: the abstract meaning of a server stream, and the exchanges in which the two
    models run against each other.
  \<^item> \<open>Message_Shape\<close>, \<open>Server_Speech\<close>, \<open>Client_Speech\<close>: what either end ever sends are typed
    messages of the protocol, announced ids are distinct, requests are numbered. \<open>Two_Ends\<close>: a
    client and a server as one system whose steps interleave - user calls, reads and idle
    dispatches of either end; what is in flight is the unread part of the sender's log.
    \<open>Delivery\<close>: requests and acknowledgements in order.
    \<open>Exchange\<close>: the theorems that hold in every interleaving. \<open>Binding\<close>: binds and the calls
    that wait for them, in every interleaving. \<open>Call_Order\<close>: when deferred calls go out;
    \<open>Lost_Server\<close>: a client whose server has gone.
  \<^item> \<open>Server_Socket\<close>: \<^verbatim>\<open>CServerSocket\<close>, its clients, poll list, rounds and dispatch.
    \<open>Server_Connections\<close>: the locales \<open>socket_invariant\<close> and \<open>every_connection\<close>, and the theorems
    on the server as a whole. \<open>Poll_Thread\<close>: the exported poll thread, interleaved.
  \<^item> \<open>Wire_Format\<close>: the format itself. \<open>Socket_IO\<close>: \<^verbatim>\<open>parseFromFd\<close> and the end of
    \<^verbatim>\<open>sendMessage\<close>. \<open>Message_Trace\<close>: \<^verbatim>\<open>IMessage::parseData\<close>. \<open>Host\<close>: helpers.
  \<^item> \<open>Scanner\<close>, \<open>Scanner_Code\<close>: the scanner and every file it prints. \<open>Scanner_Safety\<close>: what the
    printed code promises the library.

  \<^bold>\<open>How the state corresponds.\<close> A C++ class is a record with its members; a method is a
  function from the record to the record, in the order of the statements, with an \<open>attempt\<close>
  where it can throw or read outside its buffer and an \<open>option\<close> around it where a loop may not
  end. Shared pointers to objects are entries of the object list, found by id on the server
  and by sequence on the client. \<open>sc_sent\<close> and \<open>cs_sent\<close> list the messages handed to
  \<^verbatim>\<open>sendmsg\<close>. User code (listeners, bind handlers) is a parameter that may perform any sequence
  of the public operations (\<open>client_api\<close> and its server counterpart); what \<^verbatim>\<open>poll\<close>,
  \<^verbatim>\<open>accept\<close>, \<^verbatim>\<open>recvmsg\<close> and \<^verbatim>\<open>sendmsg\<close> answer are lists of inputs, so blocking forever is
  running out of inputs. libffi is the parameter \<open>prep\<close>, pugixml the record \<open>pugi\<close>.

  \<^bold>\<open>What is shown.\<close> The encodings are unambiguous and read back what was written; a call arrives
  with its values and descriptors, to a function whose printed C types are those of the
  values; no stream of whole messages makes a connection throw, read outside its buffer or use
  an object the client was not given, and no read of any bytes goes on for ever or throws,
  unless it has four continuation bytes in a row; the two read loops implement the abstract meaning of a stream; ids are
  fresh, sequences identify objects, errors are final, destructors destroy; a handshake, a
  bind, a deferred call and a roundtrip complete between the two models; the server serves
  each client, keeps its lists aligned, and its poll thread announces all input it has listed.
  Of a client and a server that run
  against each other, in any interleaving of whole messages: neither stops the other, a roundtrip is a barrier
  and is answered once nothing is in flight, as every bind is with the calls that wait for it;
  the ids of objects agree and a client only learns the protocols exposed to it. Where the code falls short, the
  theorem says so: a length whose fifth group is negative is parsed forever
  (\<open>endless_read\<close>), makes a bind throw through the server (\<open>bind_length_throws\<close>) or an accepted
  call be read past its end (\<open>negative_length_overread\<close>); a peer that half-closes makes the dispatch spin
  (\<open>half_closed_client_spins\<close>), a server that goes makes a bind hang
  (\<open>bind_hangs_on_close\<close>), a call overtakes an earlier deferred one (\<open>later_call_overtakes\<close>),
  which a roundtrip does not wait for (\<open>roundtrip_misses_deferred\<close>), removing a client in a handler throws
  (\<open>removal_in_handler_throws\<close>), a multiple of the buffer size is lost
  (\<open>read_boundary\<close>), input on a client accepted while the thread polls is not announced
  (\<open>late_client_unseen\<close>), a message cut by a read ends the connection (\<open>split_read_fatal\<close>),
  after the parser has read past its buffer in some places (\<open>cut_read_overreads\<close>).

  \<^bold>\<open>Bounds.\<close> Words have their width. \<open>short_runs\<close> - no four continuation bytes in a row -
  excludes the quantities of five groups and more; four groups stay below \<open>2 ^ 28\<close>, where no
  position computed from them wraps around. \<open>vec_ok\<close> is the bound on every vector. Object ids and
  sequences are taken not to wrap around where freshness is stated, nor the counter of
  roundtrips; a server of two ends has sent fewer than \<open>2 ^ 32 - 1\<close> messages where ids are to
  agree, and a read there takes whole messages. No fuel is used: loops
  whose progress depends on the bytes are partial functions, and that they return is proved.

  \<^bold>\<open>Not modelled.\<close> The layout of control messages in memory (\<^verbatim>\<open>CMSG\<close> macros), the bytes of
  float values beyond their 32 bits, peer credentials beyond an input, log output apart from
  the trace line, listeners that dispatch from inside a dispatch, handlers of one connection of
  the server that use objects of another (here a handler acts on the connection whose message
  it handles, and on the list of clients), the order in which the pointer library's moves
  destroy several orphans of one collection (here that of the list), memory release of shared
  pointers other than the client's orphans and the destruction callbacks. Still open: the
  declarations of the printed headers read back the way the method tables are, and the
  client under descriptors shared with other threads.
\<close>

end
